(* ===== verification/Prelude.thy ===== *)
theory Prelude
  imports Main "HOL-Library.Word" "HOL-Library.Monad_Syntax"
begin

text \<open>
  What every theory of the development shares: the C integer types at their widths, bytes and
  byte buffers, the collections of lemmas the proofs rest on, and the generic facts about list
  updates, bits of a byte, semaphores and reflexive-transitive runs that more than one component needs.
\<close>

unbundle bit_operations_syntax

section \<open>Machine types\<close>

type_synonym byte = "8 word"
type_synonym u16 = "16 word"
type_synonym u32 = "32 word"
type_synonym u64 = "64 word"
type_synonym bytes = "byte list"

section \<open>Collections\<close>

named_theorems in_bounds \<open>facts that a memory access of the model is inside its allocation\<close>
named_theorems frame \<open>what an operation leaves unchanged\<close>

section \<open>Bits of a word\<close>

lemma byte_bit_select:
  fixes x :: byte
  shows "x AND 2 ^ r = 0 \<longleftrightarrow> \<not> (r < 8 \<and> bit x r)"
proof
  assume z: "x AND 2 ^ r = 0"
  show "\<not> (r < 8 \<and> bit x r)"
  proof
    assume "r < 8 \<and> bit x r"
    then have "bit (x AND 2 ^ r) r"
      by (simp add: bit_and_iff bit_exp_iff)
    with z show False by simp
  qed
next
  assume n: "\<not> (r < 8 \<and> bit x r)"
  show "x AND 2 ^ r = 0"
    by (rule bit_eqI) (use n in \<open>auto simp: bit_and_iff bit_exp_iff\<close>)
qed

lemma byte_bit_insert:
  fixes x :: byte
  assumes "r < 8" and "q < 8"
  shows "bit (x OR 2 ^ r) q \<longleftrightarrow> bit x q \<or> q = r"
  using assms by (auto simp: bit_or_iff bit_exp_iff)

lemma div_mod_8_eq: "p div 8 = q div 8 \<and> p mod 8 = q mod 8 \<longleftrightarrow> p = (q :: nat)"
  by (metis div_mult_mod_eq)

lemma div_8_less [in_bounds]: "p < 8 * m \<Longrightarrow> p div 8 < (m :: nat)"
  by (simp add: less_mult_imp_div_less mult.commute)

text \<open>A number that fits a 32-bit word survives the conversion.\<close>

lemma word_of_nat_unat: "m < 2 ^ 32 \<Longrightarrow> unat (word_of_nat m :: u32) = m"
  by (simp add: unat_of_nat)

section \<open>Decimal text\<close>

text \<open>The decimal text of a number, as the input files have it and \<^verbatim>\<open>printf\<close> writes it for \<^verbatim>\<open>%i\<close> and \<^verbatim>\<open>%d\<close>.\<close>

fun show_nat :: "nat \<Rightarrow> string" where
  "show_nat n = (if n < 10 then [char_of (48 + n)] else show_nat (n div 10) @ [char_of (48 + n mod 10)])"

declare show_nat.simps [simp del]

lemma show_nat_nonempty [simp]: "show_nat n \<noteq> []"
  by (subst show_nat.simps) simp

lemma length_show_nat: "n < 10 ^ d \<Longrightarrow> 0 < d \<Longrightarrow> length (show_nat n) \<le> d"
proof (induction d arbitrary: n)
  case (Suc d)
  show ?case
  proof (cases "n < 10")
    case True
    then show ?thesis by (simp add: show_nat.simps [of n])
  next
    case False
    then have "0 < d" using Suc.prems(1) by (cases d) simp_all
    moreover have "n div 10 < 10 ^ d" using Suc.prems(1) by (simp add: less_mult_imp_div_less mult.commute)
    ultimately show ?thesis using Suc.IH False by (simp add: show_nat.simps [of n])
  qed
qed simp

definition show_int :: "int \<Rightarrow> string" where
  "show_int v = (if v < 0 then ''-'' @ show_nat (nat (- v)) else show_nat (nat v))"

section \<open>Semaphores\<close>

text \<open>
  The counter of a semaphore used as a lock and the processes below \<open>N\<close> that hold it, told by their
  program counters \<open>f\<close>, add up to one; a process that takes or gives back the semaphore keeps it so.
\<close>

definition sem_counts :: "nat \<Rightarrow> ('pc \<Rightarrow> bool) \<Rightarrow> nat \<Rightarrow> (nat \<Rightarrow> 'pc) \<Rightarrow> bool" where
  "sem_counts N H v f \<longleftrightarrow> v + card {x. x < N \<and> H (f x)} = 1"

definition sem_move :: "('pc \<Rightarrow> bool) \<Rightarrow> nat \<Rightarrow> nat \<Rightarrow> 'pc \<Rightarrow> 'pc \<Rightarrow> bool" where
  "sem_move H v v' pc pc' \<longleftrightarrow>
     v' = v \<and> H pc' = H pc \<or> v = Suc v' \<and> H pc' \<and> \<not> H pc \<or> v' = Suc v \<and> \<not> H pc' \<and> H pc"

lemma sem_counts_move:
  assumes i: "sem_counts N H v f" and x: "x < N" and m: "sem_move H v v' (f x) pc"
  shows "sem_counts N H v' (f(x := pc))"
proof -
  let ?H = "\<lambda>f. {u. u < N \<and> H (f u)}"
  have H: "?H (f(x := pc)) = (if H pc then insert x (?H f) else ?H f - {x})" using x by auto
  have fin: "finite (?H f)" by simp
  show ?thesis
    using m unfolding sem_move_def
  proof (elim disjE conjE)
    assume "v' = v" "H pc = H (f x)"
    moreover from this(2) x have "?H (f(x := pc)) = ?H f" unfolding H by auto
    ultimately show ?thesis using i by (simp add: sem_counts_def)
  next
    assume a: "v = Suc v'" "H pc" "\<not> H (f x)"
    then have "card (?H (f(x := pc))) = Suc (card (?H f))" unfolding H using fin by simp
    with a i show ?thesis unfolding sem_counts_def by linarith
  next
    assume a: "v' = Suc v" "\<not> H pc" "H (f x)"
    then have "x \<in> ?H f" using x by simp
    from card_Suc_Diff1 [OF fin this] have "card (?H f) = Suc (card (?H (f(x := pc))))"
      unfolding H using a(2) by simp
    with a i show ?thesis unfolding sem_counts_def by linarith
  qed
qed

lemma sem_counts_cong:
  assumes "sem_counts N H v f" and "\<And>x. x < N \<Longrightarrow> H (g x) = H (f x)"
  shows "sem_counts N H v g"
proof -
  have "{x. x < N \<and> H (g x)} = {x. x < N \<and> H (f x)}" using assms(2) by blast
  with assms(1) show ?thesis by (simp add: sem_counts_def)
qed

lemma sem_counts_held: "sem_counts N H 0 f \<Longrightarrow> \<exists>x<N. H (f x)"
  unfolding sem_counts_def by (metis (mono_tags, lifting) add_0 card.empty empty_Collect_eq zero_neq_one)

lemma sem_counts_one_holder:
  assumes "sem_counts N H v f" and "x < N" "H (f x)" and "y < N" "H (f y)"
  shows "x = y"
proof -
  have "card {u. u < N \<and> H (f u)} \<le> Suc 0" using assms(1) by (simp add: sem_counts_def)
  then have "\<forall>a\<in>{u. u < N \<and> H (f u)}. \<forall>b\<in>{u. u < N \<and> H (f u)}. a = b"
    using card_le_Suc0_iff_eq [of "{u. u < N \<and> H (f u)}"] by simp
  with assms(2-5) show ?thesis by blast
qed

text \<open>Sums over the processes, for termination orders.\<close>

lemma sum_one_less:
  assumes "f' = f(x := b)" and "x < (N::nat)" and "g x b < (g x (f x) :: nat)"
  shows "(\<Sum>u<N. g u (f' u)) < (\<Sum>u<N. g u (f u))"
  by (rule sum_strict_mono_ex1) (use assms in \<open>auto intro!: bexI [of _ x]\<close>)

section \<open>Runs of a step relation\<close>

text \<open>An invariant of every step holds in every reachable state.\<close>

lemma rtranclp_invariant:
  assumes "step\<^sup>*\<^sup>* s t" and "I s" and "\<And>u v. I u \<Longrightarrow> step u v \<Longrightarrow> I v"
  shows "I t"
  using assms(1,2) by (induction rule: rtranclp_induct) (auto intro: assms(3))

text \<open>
  A schedule, executed: \<open>move\<close> says what one event does, \<^term>\<open>None\<close> where it cannot happen. A schedule
  of events that are steps of a relation is a run of the relation.
\<close>

fun runs :: "('e \<Rightarrow> 's \<Rightarrow> 's option) \<Rightarrow> 'e list \<Rightarrow> 's \<Rightarrow> 's option" where
  "runs move [] s = Some s"
| "runs move (e # es) s = do { s' \<leftarrow> move e s; runs move es s' }"

lemma runs_append: "runs move (es @ es') s = do { s' \<leftarrow> runs move es s; runs move es' s' }"
  by (induction es arbitrary: s) (auto split: Option.bind_splits)

lemma runs_steps:
  assumes "runs move es s = Some t" and "\<And>e u v. move e u = Some v \<Longrightarrow> step u v"
  shows "step\<^sup>*\<^sup>* s t"
  using assms(1)
proof (induction es arbitrary: s)
  case (Cons e es)
  then obtain u where "move e s = Some u" "runs move es u = Some t" by (auto split: Option.bind_splits)
  with assms(2) Cons.IH show ?case by (meson converse_rtranclp_into_rtranclp)
qed simp

lemma runs_invariant:
  assumes "runs move es s = Some t" and "I s" and "\<And>e u v. I u \<Longrightarrow> move e u = Some v \<Longrightarrow> I v"
  shows "I t"
  using assms(1,2)
proof (induction es arbitrary: s)
  case (Cons e es)
  then obtain u where "move e s = Some u" "runs move es u = Some t" by (auto split: Option.bind_splits)
  with assms(3) Cons show ?case by blast
qed simp

section \<open>Refinement between step relations\<close>

text \<open>
  What a program owes to another that it refines: every step, from a state that stands for a reachable
  one, is a run of the other, possibly the empty one. Then all its reachable states stand for reachable ones.
\<close>

locale simulation =
  fixes cinit :: 's and cstep :: "'s \<Rightarrow> 's \<Rightarrow> bool"
    and ainit :: 'a and astep :: "'a \<Rightarrow> 'a \<Rightarrow> bool"
    and stands_for :: "'s \<Rightarrow> 'a \<Rightarrow> bool"
  assumes init_stands_for: "stands_for cinit ainit"
    and step_stands_for: "astep\<^sup>*\<^sup>* ainit a \<Longrightarrow> stands_for s a \<Longrightarrow> cstep s s' \<Longrightarrow>
      \<exists>a'. astep\<^sup>*\<^sup>* a a' \<and> stands_for s' a'"
begin

lemma reachable_stands_for: "cstep\<^sup>*\<^sup>* cinit s \<Longrightarrow> \<exists>a. astep\<^sup>*\<^sup>* ainit a \<and> stands_for s a"
proof (induction rule: rtranclp_induct)
  case base
  then show ?case using init_stands_for by blast
next
  case (step s s')
  then obtain a where a: "astep\<^sup>*\<^sup>* ainit a" "stands_for s a" by blast
  from step_stands_for [OF this step.hyps(2)] a(1) show ?case by (meson rtranclp_trans)
qed

text \<open>An invariant of the abstract program holds of what a reachable state stands for.\<close>

lemma invariant_transfer:
  assumes "cstep\<^sup>*\<^sup>* cinit s" and "\<And>a. astep\<^sup>*\<^sup>* ainit a \<Longrightarrow> I a"
  shows "\<exists>a. stands_for s a \<and> I a"
  using reachable_stands_for [OF assms(1)] assms(2) by blast

end

section \<open>Programs that end\<close>

text \<open>
  What makes every run of a program end: an invariant of its reachable states under which it can move
  as long as it is not over, and a well-founded order in which every step goes down.
\<close>

locale ending =
  fixes step :: "'s \<Rightarrow> 's \<Rightarrow> bool"
    and start :: "'s \<Rightarrow> bool" and I :: "'s \<Rightarrow> bool" and over :: "'s \<Rightarrow> bool"
    and ord :: "('s \<times> 's) set"
  assumes start_inv: "start s \<Longrightarrow> I s"
    and step_inv: "I s \<Longrightarrow> step s s' \<Longrightarrow> I s'"
    and progress: "I s \<Longrightarrow> \<not> over s \<Longrightarrow> \<exists>s'. step s s'"
    and goes_down: "I s \<Longrightarrow> step s s' \<Longrightarrow> (s', s) \<in> ord"
    and wf_ord: "wf ord"
begin

lemma inv_reachable: "start s0 \<Longrightarrow> step\<^sup>*\<^sup>* s0 s \<Longrightarrow> I s"
  using rtranclp_invariant [of step s0 s I] start_inv step_inv by blast

lemma never_stuck: "start s0 \<Longrightarrow> step\<^sup>*\<^sup>* s0 s \<Longrightarrow> \<not> over s \<Longrightarrow> \<exists>s'. step s s'"
  using inv_reachable progress by blast

lemma no_infinite_run:
  assumes "start s0"
  shows "\<not> (\<exists>f. f 0 = s0 \<and> (\<forall>i. step (f i) (f (Suc i))))"
proof
  assume "\<exists>f. f 0 = s0 \<and> (\<forall>i. step (f i) (f (Suc i)))"
  then obtain f where f: "f 0 = s0" "\<And>i. step (f i) (f (Suc i))" by blast
  have "I (f i)" for i by (induction i) (use f start_inv [OF assms] step_inv in auto)
  then have "(f (Suc i), f i) \<in> ord" for i using goes_down f(2) by blast
  then show False using wf_ord by (auto simp: wf_iff_no_infinite_down_chain)
qed

lemma can_end: "I s \<Longrightarrow> \<exists>s'. step\<^sup>*\<^sup>* s s' \<and> over s'"
proof (induction s rule: wf_induct_rule [OF wf_ord])
  case (1 s)
  show ?case
  proof (cases "over s")
    case False
    with progress 1(2) obtain u where "step s u" by blast
    with 1 goes_down step_inv obtain s' where "step\<^sup>*\<^sup>* u s'" "over s'" by meson
    with \<open>step s u\<close> show ?thesis by (meson converse_rtranclp_into_rtranclp)
  qed blast
qed

end

end
