(* ===== verification/Bit_Array.thy ===== *)
theory Bit_Array
  imports Prelude
begin

text \<open>
  The bit array of \<^verbatim>\<open>Project_1/Stuff/bit_char.c\<close>: an allocation of bytes, of which bit
  \<open>p mod 8\<close> of byte \<open>p div 8\<close> is the cell \<open>p\<close>. A C \<^verbatim>\<open>unsigned char *\<close> that points to a live
  allocation is the list of its bytes; an access outside the allocation, which is undefined in C,
  is \<^term>\<open>None\<close>. Allocation is taken to succeed.
\<close>

type_synonym bit_array = "byte list"

section \<open>The operations\<close>

text \<open>\<^verbatim>\<open>calloc(size/8 + 1, 1)\<close>: the division is exact in \<^verbatim>\<open>size_t\<close>, so nothing wraps.\<close>

definition bit_array_create :: "u32 \<Rightarrow> bit_array" where
  "bit_array_create sz = replicate (unat sz div 8 + 1) 0"

definition bit_array_set :: "bit_array \<Rightarrow> u32 \<Rightarrow> bit_array option" where
  "bit_array_set array place =
     (let q = unat place div 8; r = unat place mod 8
      in if q < length array then Some (array[q := array ! q OR push_bit r 1]) else None)"

definition bit_array_get :: "bit_array \<Rightarrow> u32 \<Rightarrow> u32 option" where
  "bit_array_get array place =
     (let q = unat place div 8; r = unat place mod 8
      in if q < length array
         then Some (if array ! q AND push_bit r 1 \<noteq> 0 then 1 else 0)
         else None)"

definition bit_room :: "bit_array \<Rightarrow> nat" where
  "bit_room array = 8 * length array"

section \<open>The interface the matrix code relies on\<close>

text \<open>
  The clients of the bit array (the matrix reader, the printers and the closure threads) use
  cells only through \<open>get\<close> and \<open>set\<close>; these are the laws they need.
\<close>

locale bit_cells =
  fixes get :: "'a \<Rightarrow> u32 \<Rightarrow> u32 option"
    and put :: "'a \<Rightarrow> u32 \<Rightarrow> 'a option"
    and room :: "'a \<Rightarrow> nat"
  assumes get_in: "unat p < room a \<Longrightarrow> get a p = Some 0 \<or> get a p = Some 1"
    and get_out: "room a \<le> unat p \<Longrightarrow> get a p = None"
    and put_in: "unat p < room a \<Longrightarrow> \<exists>b. put a p = Some b"
    and put_out: "room a \<le> unat p \<Longrightarrow> put a p = None"
    and put_room: "put a p = Some b \<Longrightarrow> room b = room a"
    and get_put: "put a p = Some b \<Longrightarrow> unat q < room a \<Longrightarrow>
      get b q = (if q = p then Some 1 else get a q)"
begin

lemma put_Some_in: "put a p = Some b \<Longrightarrow> unat p < room a"
  using put_out [of a p] by fastforce

lemma get_put_same: "put a p = Some b \<Longrightarrow> get b p = Some 1"
  using get_put put_Some_in by fastforce

lemma get_put_mono: "put a p = Some b \<Longrightarrow> get a q = Some 1 \<Longrightarrow> get b q = Some 1"
  using get_out [of a q] get_put [of a p b q] by fastforce

lemma put_put_same:
  assumes "put a p = Some b" and "put b p = Some c"
  shows "get c q = get b q"
proof (cases "unat q < room b")
  case True
  with assms show ?thesis
    by (auto simp: get_put [OF assms(2)] get_put_same)
next
  case False
  then show ?thesis
    using get_out [of b q] get_out [of c q] put_room [OF assms(2)] by simp
qed

lemma put_commute:
  assumes "put a p = Some b" and "put b p' = Some c"
    and "put a p' = Some b'" and "put b' p = Some c'"
  shows "get c q = get c' q"
proof (cases "unat q < room a")
  case True
  moreover have "room b = room a" "room b' = room a"
    using assms by (simp_all add: put_room)
  ultimately show ?thesis
    using get_put [OF assms(1), of q] get_put [OF assms(2), of q]
      get_put [OF assms(3), of q] get_put [OF assms(4), of q] by (cases "q = p") auto
next
  case False
  moreover have "room c = room a" "room c' = room a"
    using put_room assms by metis+
  ultimately show ?thesis
    using get_out [of c q] get_out [of c' q] by simp
qed

end

section \<open>The code's bit array provides it\<close>

lemma get_cell:
  "unat p < bit_room a \<Longrightarrow>
   bit_array_get a p = Some (if bit (a ! (unat p div 8)) (unat p mod 8) then 1 else 0)"
  by (simp add: bit_array_get_def bit_room_def div_8_less byte_bit_select)

lemma set_cell:
  "unat p < bit_room a \<Longrightarrow>
   bit_array_set a p = Some (a[unat p div 8 := a ! (unat p div 8) OR push_bit (unat p mod 8) 1])"
  by (simp add: bit_array_set_def bit_room_def Let_def div_8_less)

lemma cell_out:
  assumes "bit_room a \<le> unat p"
  shows "bit_array_get a p = None" and "bit_array_set a p = None"
proof -
  have "\<not> unat p div 8 < length a" using assms by (simp add: bit_room_def)
  then show "bit_array_get a p = None" and "bit_array_set a p = None"
    by (simp_all add: bit_array_get_def bit_array_set_def Let_def)
qed

lemma set_room: "bit_array_set a p = Some b \<Longrightarrow> bit_room b = bit_room a"
  by (auto simp: bit_array_set_def bit_room_def Let_def split: if_splits)

lemma get_set_cell:
  assumes s: "bit_array_set a p = Some b" and q: "unat q < bit_room a"
  shows "bit_array_get b q = (if q = p then Some 1 else bit_array_get a q)"
proof -
  have p: "unat p < bit_room a" using s cell_out(2) [of a p] by fastforce
  let ?i = "unat p div 8" and ?j = "unat q div 8"
  have b: "b = a[?i := a ! ?i OR push_bit (unat p mod 8) 1]"
    using s set_cell [OF p] by simp
  have i: "?i < length a" using p by (simp add: bit_room_def div_8_less)
  have qb: "unat q < bit_room b" using q s by (simp add: set_room)
  have "bit (b ! ?j) (unat q mod 8) \<longleftrightarrow> bit (a ! ?j) (unat q mod 8) \<or> q = p"
  proof (cases "?j = ?i")
    case True
    then have "bit (b ! ?j) (unat q mod 8) \<longleftrightarrow> bit (a ! ?j) (unat q mod 8) \<or> unat q mod 8 = unat p mod 8"
      using i by (simp add: b byte_bit_insert)
    moreover have "unat q mod 8 = unat p mod 8 \<longleftrightarrow> q = p"
      using True div_mod_8_eq [of "unat q" "unat p"] by (auto simp: word_unat_eq_iff)
    ultimately show ?thesis by simp
  next
    case False
    then have "q \<noteq> p" by auto
    with False show ?thesis by (simp add: b)
  qed
  then show ?thesis using get_cell [OF qb] get_cell [OF q] by simp
qed

interpretation bits: bit_cells bit_array_get bit_array_set bit_room
  by unfold_locales (fact get_set_cell set_room cell_out | simp add: get_cell set_cell)+

section \<open>Properties\<close>

lemma length_create [in_bounds]: "length (bit_array_create sz) = unat sz div 8 + 1"
  by (simp add: bit_array_create_def)

lemma room_create [in_bounds]: "unat sz < bit_room (bit_array_create sz)"
proof -
  have "unat sz = 8 * (unat sz div 8) + unat sz mod 8" by simp
  also have "\<dots> < 8 * (unat sz div 8) + 8" by simp
  finally show ?thesis by (simp add: bit_room_def length_create algebra_simps)
qed

lemma get_create: "unat p < bit_room (bit_array_create sz) \<Longrightarrow> bit_array_get (bit_array_create sz) p = Some 0"
  by (simp add: get_cell) (simp add: bit_array_create_def bit_room_def div_8_less del: replicate_Suc)

end
