(* ===== verification/Closure.thy ===== *)
theory Closure
  imports Prelude
begin

text \<open>
  What the four closure programs of \<^verbatim>\<open>Project_1/Stuff\<close> compute, stated once and for all on graphs:
  the round \<open>k\<close> of Warshall's algorithm restricted to the cells a program visits, the transitive
  closure that the rounds build up to when every cell is visited, and what is known in the middle
  of a round when any set of cells has been processed in any order. The locale \<open>edge_store\<close> is the
  interface between the programs and the matrix representation they use.
\<close>

type_synonym graph = "nat \<Rightarrow> nat \<Rightarrow> bool"
type_synonym cells = "nat \<Rightarrow> nat \<Rightarrow> bool"

section \<open>Rounds and closure\<close>

text \<open>One round over the cells of \<open>P\<close>; the other cells keep their value.\<close>

definition wround :: "cells \<Rightarrow> nat \<Rightarrow> graph \<Rightarrow> graph" where
  "wround P k E i j \<longleftrightarrow> E i j \<or> P i j \<and> E i k \<and> E k j"

fun wrounds :: "cells \<Rightarrow> nat \<Rightarrow> graph \<Rightarrow> graph" where
  "wrounds P 0 E = E"
| "wrounds P (Suc k) E = wround P k (wrounds P k E)"

definition covers :: "nat \<Rightarrow> cells \<Rightarrow> bool" where
  "covers n P \<longleftrightarrow> (\<forall>i<n. \<forall>j<n. P i j)"

text \<open>The specification: a path of at least one edge between vertices below \<open>n\<close>.\<close>

definition path_closure :: "nat \<Rightarrow> graph \<Rightarrow> graph" where
  "path_closure n E i j \<longleftrightarrow> (i, j) \<in> {(a, b). a < n \<and> b < n \<and> E a b}\<^sup>+"

lemma wrounds_mono: "E i j \<Longrightarrow> wrounds P k E i j"
  by (induction k) (auto simp: wround_def)

text \<open>After round \<open>k\<close> two edges that meet in a vertex up to \<open>k\<close> are bridged by an edge.\<close>

lemma wrounds_bridged:
  assumes "covers n P"
  shows "m < k \<Longrightarrow> k \<le> n \<Longrightarrow> i < n \<Longrightarrow> j < n \<Longrightarrow>
    wrounds P k E i m \<Longrightarrow> wrounds P k E m j \<Longrightarrow> wrounds P k E i j"
proof (induction k arbitrary: i j)
  case 0
  then show ?case by simp
next
  case (Suc k)
  show ?case
  proof (cases "m = k")
    case True
    with Suc.prems assms show ?thesis by (auto simp: wround_def covers_def)
  next
    case False
    with Suc.prems have m: "m < k" "k \<le> n" "k < n" by auto
    have bridge: "wrounds P k E a m \<Longrightarrow> wrounds P k E m b \<Longrightarrow> wrounds P k E a b"
      if "a < n" "b < n" for a b using Suc.IH [OF m(1,2) that] .
    have P: "P i j" using assms Suc.prems by (simp add: covers_def)
    from Suc.prems(5,6) bridge Suc.prems(3,4) m(3) P show ?thesis
      by (auto simp: wround_def)
  qed
qed

lemma wrounds_paths:
  "k \<le> n \<Longrightarrow> i < n \<Longrightarrow> j < n \<Longrightarrow> wrounds P k E i j \<Longrightarrow> path_closure n E i j"
proof (induction k arbitrary: i j)
  case 0
  then show ?case by (auto simp: path_closure_def)
next
  case (Suc k)
  then have k: "k \<le> n" "k < n" by auto
  note IH = Suc.IH [OF k(1)]
  from Suc.prems(4) consider "wrounds P k E i j" | "wrounds P k E i k" "wrounds P k E k j"
    by (auto simp: wround_def)
  then show ?case
  proof cases
    case 1
    with IH Suc.prems show ?thesis by blast
  next
    case 2
    with IH Suc.prems k have "path_closure n E i k" "path_closure n E k j" by blast+
    then show ?thesis unfolding path_closure_def by (rule trancl_trans)
  qed
qed

lemma paths_wrounds:
  assumes "path_closure n E i j" and "covers n P"
  shows "wrounds P n E i j"
  using assms(1) unfolding path_closure_def
proof (induction rule: trancl_induct)
  case (base j)
  then show ?case by (simp add: wrounds_mono)
next
  case (step m j)
  have i: "i < n" using step.hyps(1) by (auto dest: tranclD)
  from step.hyps(2) have "m < n" "j < n" "wrounds P n E m j" by (auto simp: wrounds_mono)
  with step.IH i show ?case using wrounds_bridged [OF assms(2), of m n i j E] by simp
qed

lemma wrounds_closure:
  assumes "covers n P" and "i < n" and "j < n"
  shows "wrounds P n E i j \<longleftrightarrow> path_closure n E i j"
  using assms wrounds_paths [of n n i j P E] paths_wrounds [of n E i j P] by blast

lemma wrounds_unvisited: "(\<And>j. \<not> P i j) \<Longrightarrow> wrounds P k E i j = E i j"
  by (induction k) (auto simp: wround_def)

text \<open>Graphs are compared on the cells below \<open>n\<close>.\<close>

definition agree :: "nat \<Rightarrow> graph \<Rightarrow> graph \<Rightarrow> bool" where
  "agree n E F \<longleftrightarrow> (\<forall>i<n. \<forall>j<n. E i j = F i j)"

lemma agreeI [intro?]: "(\<And>i j. i < n \<Longrightarrow> j < n \<Longrightarrow> E i j = F i j) \<Longrightarrow> agree n E F"
  by (simp add: agree_def)

lemma agreeD: "agree n E F \<Longrightarrow> i < n \<Longrightarrow> j < n \<Longrightarrow> E i j = F i j"
  by (simp add: agree_def)

lemma agree_refl [simp]: "agree n E E"
  by (simp add: agree_def)

lemma agree_trans: "agree n E F \<Longrightarrow> agree n F G \<Longrightarrow> agree n E G"
  by (simp add: agree_def)

lemma wrounds_cong:
  assumes "agree n E F"
  shows "k \<le> n \<Longrightarrow> agree n (wrounds P k E) (wrounds P k F)"
  using assms by (induction k) (auto simp: wround_def agree_def)

lemma agree_sym: "agree n E F \<Longrightarrow> agree n F E"
  by (simp add: agree_def)

lemma path_closure_cong:
  assumes "agree n E F"
  shows "path_closure n E = path_closure n F"
proof -
  have "{(a, b). a < n \<and> b < n \<and> E a b} = {(a, b). a < n \<and> b < n \<and> F a b}"
    using agreeD [OF assms] by blast
  then show ?thesis by (simp add: path_closure_def fun_eq_iff)
qed

text \<open>Edges between those of \<open>E\<close> and those of its closure add nothing to the closure.\<close>

lemma path_closure_between:
  assumes "\<And>i j. i < n \<Longrightarrow> j < n \<Longrightarrow> E i j \<Longrightarrow> F i j"
    and "\<And>i j. i < n \<Longrightarrow> j < n \<Longrightarrow> F i j \<Longrightarrow> path_closure n E i j"
  shows "path_closure n (\<lambda>i j. F i j \<or> G i j) = path_closure n (\<lambda>i j. E i j \<or> G i j)"
proof -
  let ?R = "\<lambda>E. {(a, b). a < n \<and> b < n \<and> E a b}"
  let ?E = "\<lambda>i j. E i j \<or> G i j" and ?F = "\<lambda>i j. F i j \<or> G i j"
  have "?R ?E \<subseteq> ?R ?F" using assms(1) by blast
  then have 1: "(?R ?E)\<^sup>+ \<subseteq> (?R ?F)\<^sup>+" by (rule trancl_mono_subset)
  have "(?R E)\<^sup>+ \<subseteq> (?R ?E)\<^sup>+" by (rule trancl_mono_subset) blast
  then have "?R ?F \<subseteq> (?R ?E)\<^sup>+" using assms(2) unfolding path_closure_def by blast
  then have "(?R ?F)\<^sup>+ \<subseteq> ((?R ?E)\<^sup>+)\<^sup>+" by (rule trancl_mono_subset)
  with 1 have "(?R ?F)\<^sup>+ = (?R ?E)\<^sup>+" by simp
  then show ?thesis by (simp add: path_closure_def fun_eq_iff)
qed

section \<open>In the middle of a round\<close>

text \<open>
  \<open>in_round n P k E0 D E\<close>: round \<open>k\<close> started from \<open>E0\<close>; the cells of \<open>D\<close> have their value of the end
  of the round, the others are somewhere between their start and their end value.
\<close>

definition in_round :: "nat \<Rightarrow> cells \<Rightarrow> nat \<Rightarrow> graph \<Rightarrow> cells \<Rightarrow> graph \<Rightarrow> bool" where
  "in_round n P k E0 D E \<longleftrightarrow>
     (\<forall>i<n. \<forall>j<n. (E0 i j \<longrightarrow> E i j) \<and> (E i j \<longrightarrow> wround P k E0 i j) \<and>
                   (D i j \<longrightarrow> E i j = wround P k E0 i j))"

lemma in_round_start: "agree n E0 E \<Longrightarrow> in_round n P k E0 (\<lambda>_ _. False) E"
  by (auto simp: in_round_def agree_def wround_def)

lemma in_round_weaken:
  "in_round n P k E0 D E \<Longrightarrow> (\<And>i j. i < n \<Longrightarrow> j < n \<Longrightarrow> D' i j \<Longrightarrow> D i j) \<Longrightarrow> in_round n P k E0 D' E"
  by (simp add: in_round_def)

text \<open>The row and the column of the pivot do not change during the round.\<close>

lemma in_round_row: "in_round n P k E0 D E \<Longrightarrow> k < n \<Longrightarrow> j < n \<Longrightarrow> E k j = E0 k j"
  by (auto simp: in_round_def wround_def)

lemma in_round_column: "in_round n P k E0 D E \<Longrightarrow> k < n \<Longrightarrow> i < n \<Longrightarrow> E i k = E0 i k"
  by (auto simp: in_round_def wround_def)

text \<open>Processing one cell: leaving it alone when there is nothing to bridge, setting it otherwise.\<close>

lemma in_round_keep:
  assumes "in_round n P k E0 D E" and "\<not> (E0 i k \<and> E0 k j)"
  shows "in_round n P k E0 (\<lambda>a b. D a b \<or> a = i \<and> b = j) E"
  using assms by (auto simp: in_round_def wround_def)

lemma in_round_connect:
  assumes "in_round n P k E0 D E" and "E0 i j \<or> P i j \<and> E0 i k \<and> E0 k j"
    and "agree n F (\<lambda>a b. E a b \<or> a = i \<and> b = j)"
  shows "in_round n P k E0 (\<lambda>a b. D a b \<or> a = i \<and> b = j) F"
  using assms by (auto simp: in_round_def wround_def agree_def)

lemma in_round_between:
  assumes "in_round n P k (wrounds P k E) D F" and "k < n" and "i < n" and "j < n"
  shows "E i j \<Longrightarrow> F i j" and "F i j \<Longrightarrow> path_closure n E i j"
  using assms wrounds_mono [of E i j P k] wrounds_paths [of "Suc k" n i j P E] by (auto simp: in_round_def)

lemma in_round_end:
  assumes "in_round n P k E0 D E" and "\<And>i j. i < n \<Longrightarrow> j < n \<Longrightarrow> P i j \<Longrightarrow> D i j"
  shows "agree n (wround P k E0) E"
proof
  fix i j assume ij: "i < n" "j < n"
  with assms(1) have "E0 i j \<longrightarrow> E i j" "E i j \<longrightarrow> wround P k E0 i j"
    "D i j \<longrightarrow> E i j = wround P k E0 i j" by (simp_all add: in_round_def)
  then show "wround P k E0 i j = E i j"
    using assms(2) [OF ij] by (cases "P i j") (auto simp: wround_def)
qed

section \<open>The interface between the programs and their matrix\<close>

text \<open>
  \<open>edge n m i j\<close> reads the cell of the edge from \<open>i\<close> to \<open>j\<close> (vertices counted from 0) of the
  matrix \<open>m\<close> for \<open>n\<close> vertices, \<open>connect n i j m\<close> is the write that sets it, and \<open>fits n m\<close> says
  that the allocation behind \<open>m\<close> holds such a matrix.
\<close>

locale edge_store =
  fixes edge :: "nat \<Rightarrow> 'm \<Rightarrow> graph"
    and connect :: "nat \<Rightarrow> nat \<Rightarrow> nat \<Rightarrow> 'm \<Rightarrow> 'm option"
    and fits :: "nat \<Rightarrow> 'm \<Rightarrow> bool"
  assumes connect_in: "fits n m \<Longrightarrow> i < n \<Longrightarrow> j < n \<Longrightarrow> \<exists>m'. connect n i j m = Some m'"
    and connect_fits: "fits n m \<Longrightarrow> i < n \<Longrightarrow> j < n \<Longrightarrow> connect n i j m = Some m' \<Longrightarrow> fits n m'"
    and edge_connect: "fits n m \<Longrightarrow> i < n \<Longrightarrow> j < n \<Longrightarrow> connect n i j m = Some m' \<Longrightarrow>
      agree n (edge n m') (\<lambda>a b. edge n m a b \<or> a = i \<and> b = j)"
begin

lemma connect_round:
  assumes "in_round n P k E0 D (edge n m)" and "fits n m" and "i < n" and "j < n"
    and "connect n i j m = Some m'" and "E0 i j \<or> P i j \<and> E0 i k \<and> E0 k j"
  shows "in_round n P k E0 (\<lambda>a b. D a b \<or> a = i \<and> b = j) (edge n m')"
  using assms by (blast intro: in_round_connect edge_connect)

end

end
