(* ===== verification/Matrix_Cells.thy ===== *)
theory Matrix_Cells
  imports Bit_Array Closure
begin

text \<open>
  The two matrix representations of \<^verbatim>\<open>Project_1/Stuff\<close>. The thread programs keep one bit per cell in
  a bit array, the process programs one \<^verbatim>\<open>int\<close> per cell in shared memory; both put the edge from
  vertex \<open>i + 1\<close> to vertex \<open>j + 1\<close> at index \<open>i * n + j\<close>. Both provide the interface \<open>edge_store\<close>.
\<close>

section \<open>The index of a cell\<close>

text \<open>
  The C expression \<^verbatim>\<open>i*number_of_nodes + j\<close>, an \<^verbatim>\<open>int\<close> converted to the \<^verbatim>\<open>unsigned\<close> parameter of the
  bit array: the arithmetic is exact as long as the matrix has fewer than \<open>2 ^ 31\<close> cells.
\<close>

definition cell :: "nat \<Rightarrow> nat \<Rightarrow> nat \<Rightarrow> u32" where
  "cell n i j = word_of_nat (i * n + j)"

lemma index_less: "i < n \<Longrightarrow> j < n \<Longrightarrow> i * n + j < n * (n::nat)"
proof -
  assume "i < n" and "j < n"
  then have "i * n + j < (i + 1) * n" by simp
  also have "\<dots> \<le> n * n" using \<open>i < n\<close> by (intro mult_right_mono) auto
  finally show ?thesis .
qed

lemma index_inject:
  assumes "j < n" and "j' < (n::nat)"
  shows "i * n + j = i' * n + j' \<longleftrightarrow> i = i' \<and> j = j'"
proof
  assume e: "i * n + j = i' * n + j'"
  have "(i * n + j) div n = i" "(i' * n + j') div n = i'"
    "(i * n + j) mod n = j" "(i' * n + j') mod n = j'"
    using assms by auto
  with e show "i = i' \<and> j = j'" by metis
qed simp

lemma unat_cell:
  assumes "n * n < 2 ^ 31" and "i < n" and "j < n"
  shows "unat (cell n i j) = i * n + j"
proof -
  have "i * n + j < 2 ^ 32" using index_less [OF assms(2,3)] assms(1) by simp
  then show ?thesis by (simp add: cell_def word_of_nat_unat del: of_nat_add of_nat_mult)
qed

lemma cell_inject:
  assumes "n * n < 2 ^ 31" and "i < n" and "j < n" and "i' < n" and "j' < n"
  shows "cell n i j = cell n i' j' \<longleftrightarrow> i = i' \<and> j = j'"
  using unat_cell [OF assms(1-3)] unat_cell [OF assms(1,4,5)] index_inject [OF assms(3,5)]
  by (metis)

section \<open>The bit matrix of the threads\<close>

definition bit_edge :: "nat \<Rightarrow> bit_array \<Rightarrow> graph" where
  "bit_edge n m i j \<longleftrightarrow> bit_array_get m (cell n i j) = Some 1"

definition bit_connect :: "nat \<Rightarrow> nat \<Rightarrow> nat \<Rightarrow> bit_array \<Rightarrow> bit_array option" where
  "bit_connect n i j m = bit_array_set m (cell n i j)"

definition bit_fits :: "nat \<Rightarrow> bit_array \<Rightarrow> bool" where
  "bit_fits n m \<longleftrightarrow> n * n < 2 ^ 31 \<and> n * n \<le> bit_room m"

lemma cell_in_room [in_bounds]:
  "bit_fits n m \<Longrightarrow> i < n \<Longrightarrow> j < n \<Longrightarrow> unat (cell n i j) < bit_room m"
  using unat_cell index_less by (metis bit_fits_def order_less_le_trans)

lemma get_bit_edge:
  "bit_fits n m \<Longrightarrow> i < n \<Longrightarrow> j < n \<Longrightarrow>
   bit_array_get m (cell n i j) = Some (if bit_edge n m i j then 1 else 0)"
  using bits.get_in [OF cell_in_room] by (auto simp: bit_edge_def)

interpretation bit_matrix: edge_store bit_edge bit_connect bit_fits
proof unfold_locales
  fix n i j :: nat and m m' :: bit_array
  assume fit: "bit_fits n m" and i: "i < n" and j: "j < n"
  show "\<exists>m'. bit_connect n i j m = Some m'"
    unfolding bit_connect_def by (rule bits.put_in) (rule cell_in_room [OF fit i j])
  assume m': "bit_connect n i j m = Some m'"
  then have set: "bit_array_set m (cell n i j) = Some m'" by (simp add: bit_connect_def)
  show "bit_fits n m'" using fit bits.put_room [OF set] by (simp add: bit_fits_def)
  show "agree n (bit_edge n m') (\<lambda>a b. bit_edge n m a b \<or> a = i \<and> b = j)"
  proof
    fix a b assume ab: "a < n" "b < n"
    have small: "n * n < 2 ^ 31" using fit by (simp add: bit_fits_def)
    show "bit_edge n m' a b \<longleftrightarrow> bit_edge n m a b \<or> a = i \<and> b = j"
      using bits.get_put [OF set cell_in_room [OF fit ab]] cell_inject [OF small ab i j]
      by (auto simp: bit_edge_def)
  qed
qed

lemma fits_create:
  assumes "n * n < 2 ^ 31"
  shows "bit_fits n (bit_array_create (word_of_nat (n * n)))"
proof -
  have "unat (word_of_nat (n * n) :: u32) = n * n"
    using assms by (simp add: word_of_nat_unat del: of_nat_add of_nat_mult)
  then show ?thesis
    using assms room_create [of "word_of_nat (n * n)"] by (simp add: bit_fits_def)
qed

section \<open>The integer matrix of the processes\<close>

text \<open>The part of the shared memory segment in front of the locks: \<open>n * n\<close> C ints.\<close>

type_synonym int_matrix = "int list"

definition int_get :: "int_matrix \<Rightarrow> nat \<Rightarrow> int option" where
  "int_get m p = (if p < length m then Some (m ! p) else None)"

definition int_put :: "int_matrix \<Rightarrow> nat \<Rightarrow> int \<Rightarrow> int_matrix option" where
  "int_put m p v = (if p < length m then Some (m[p := v]) else None)"

definition int_edge :: "nat \<Rightarrow> int_matrix \<Rightarrow> graph" where
  "int_edge n m i j \<longleftrightarrow> m ! (i * n + j) \<noteq> 0"

definition int_connect :: "nat \<Rightarrow> nat \<Rightarrow> nat \<Rightarrow> int_matrix \<Rightarrow> int_matrix option" where
  "int_connect n i j m = int_put m (i * n + j) 1"

definition int_fits :: "nat \<Rightarrow> int_matrix \<Rightarrow> bool" where
  "int_fits n m \<longleftrightarrow> n * n \<le> length m"

lemma index_in_matrix [in_bounds]: "int_fits n m \<Longrightarrow> i < n \<Longrightarrow> j < n \<Longrightarrow> i * n + j < length m"
  using index_less by (metis int_fits_def order_less_le_trans)

interpretation int_matrix: edge_store int_edge int_connect int_fits
proof unfold_locales
  fix n i j :: nat and m m' :: int_matrix
  assume fit: "int_fits n m" and i: "i < n" and j: "j < n"
  note p = index_in_matrix [OF fit i j]
  then show "\<exists>m'. int_connect n i j m = Some m'" by (simp add: int_connect_def int_put_def)
  assume m': "int_connect n i j m = Some m'"
  then have "m' = m[i * n + j := 1]" using p by (simp add: int_connect_def int_put_def)
  then show "int_fits n m'" and "agree n (int_edge n m') (\<lambda>a b. int_edge n m a b \<or> a = i \<and> b = j)"
    using fit p j by (auto simp: int_fits_def int_edge_def agree_def nth_list_update index_inject)
qed

text \<open>Writing back a truth value that is not below the old one is either no change or an edge.\<close>

lemma int_write_edge:
  assumes "int_fits n m" and "i < n" and "j < n" and "int_edge n m i j \<longrightarrow> b"
    and "int_put m (i * n + j) (if b then 1 else 0) = Some m'"
  shows "int_fits n m'"
    and "agree n (int_edge n m') (\<lambda>a c. int_edge n m a c \<or> b \<and> a = i \<and> c = j)"
  using assms index_in_matrix [OF assms(1-3)]
  by (auto simp: int_put_def int_fits_def int_edge_def agree_def nth_list_update index_inject split: if_splits)

end
