(* ===== verification/Thread_Closure.thy ===== *)
theory Thread_Closure
  imports Matrix_Cells
begin

text \<open>
  The closure threads of \<^verbatim>\<open>Project_1/Stuff/wtc_thr.c\<close>: the main thread creates the workers, hands
  out the rounds through the global \<open>k\<close> and two barriers, and joins; worker \<open>t\<close> owns the rows
  \<open>t * length \<dots> t * length + length - 1\<close> of the bit matrix and updates each cell under the mutex.
  The machine has one atomic step per access to shared data and per lock, unlock and barrier
  operation, interleaved in any order.
\<close>

section \<open>State\<close>

text \<open>The values \<^verbatim>\<open>read_file\<close> delivers and \<^verbatim>\<open>length = number_of_nodes / number_of_threads\<close>.\<close>

record thr_cfg =
  number_of_threads :: nat
  number_of_nodes :: nat

definition rows_per_thread :: "thr_cfg \<Rightarrow> nat" where
  "rows_per_thread c = number_of_nodes c div number_of_threads c"

text \<open>
  Where a worker is: not created; created; at the test of \<^verbatim>\<open>while (k < number_of_nodes)\<close>; at the
  head of the loop over \<open>i\<close>; at the head of the loop over \<open>j\<close> with the value \<^verbatim>\<open>ik\<close> it read; inside
  the critical section before and after the update; waiting at \<^verbatim>\<open>barrier\<close>; past it; waiting at
  \<^verbatim>\<open>kbarrier\<close>; returned; stopped by an access outside the bit array.
\<close>

datatype worker_pc =
    WNew | WStart | WTest | WRow nat | WCol nat u32 nat
  | WLocked nat u32 nat | WUnlock nat u32 nat
  | WBarrier | WPast | WKBarrier | WExit | WFault

datatype main_pc =
    MCreate nat | MCreateLocked nat | MTest | MBarrier | MIncr | MKBarrier | MJoin nat | MDone

record thr_state =
  t_k :: nat
  t_matrix :: bit_array
  t_lock :: "nat option"
  t_input :: bool
  t_pc :: "nat \<Rightarrow> worker_pc"
  t_main :: main_pc

definition thr_init :: "bit_array \<Rightarrow> thr_state" where
  "thr_init m = \<lparr>t_k = 0, t_matrix = m, t_lock = None, t_input = False,
                 t_pc = (\<lambda>_. WNew), t_main = MCreate 0\<rparr>"

text \<open>
  What happens before the first thread is created: \<^verbatim>\<open>length\<close> is computed, and a number of threads of 0 in the
  file, which nothing checks, is a division by zero.
\<close>

definition thr_start :: "thr_cfg \<Rightarrow> bit_array \<Rightarrow> thr_state option" where
  "thr_start c m = (if number_of_threads c = 0 then None else Some (thr_init m))"

section \<open>Steps\<close>

text \<open>
  \<^verbatim>\<open>transitive_closure_thread\<close>. The read of \<^verbatim>\<open>ik\<close> is outside the mutex, the update inside;
  \<^verbatim>\<open>ik && bit_array_get(\<dots>)\<close> evaluates the read of row \<open>k\<close> only when \<^verbatim>\<open>ik\<close> is set.
\<close>

definition goto :: "nat \<Rightarrow> worker_pc \<Rightarrow> thr_state \<Rightarrow> thr_state" where
  "goto t pc s = s\<lparr>t_pc := (t_pc s)(t := pc)\<rparr>"

definition update_cell :: "thr_cfg \<Rightarrow> nat \<Rightarrow> nat \<Rightarrow> u32 \<Rightarrow> nat \<Rightarrow> bit_array \<Rightarrow> bit_array option" where
  "update_cell c k i ik j m =
     (if ik = 0 then Some m
      else case bit_array_get m (cell (number_of_nodes c) k j) of
        None \<Rightarrow> None
      | Some kj \<Rightarrow> if kj \<noteq> 0 then bit_array_set m (cell (number_of_nodes c) i j) else Some m)"

definition worker_step :: "thr_cfg \<Rightarrow> nat \<Rightarrow> thr_state \<Rightarrow> thr_state option" where
  "worker_step c t s =
     (let n = number_of_nodes c; start = t * rows_per_thread c; stop = start + rows_per_thread c
      in case t_pc s t of
        WStart \<Rightarrow> Some (goto t WTest (s\<lparr>t_input := False\<rparr>))
      | WTest \<Rightarrow> Some (goto t (if t_k s < n then WRow start else WExit) s)
      | WRow i \<Rightarrow>
          if i < stop
          then (case bit_array_get (t_matrix s) (cell n i (t_k s)) of
                  None \<Rightarrow> Some (goto t WFault s)
                | Some ik \<Rightarrow> Some (goto t (WCol i ik 0) s))
          else Some (goto t WBarrier s)
      | WCol i ik j \<Rightarrow>
          if j < n
          then (if t_lock s = None then Some (goto t (WLocked i ik j) (s\<lparr>t_lock := Some t\<rparr>)) else None)
          else Some (goto t (WRow (i + 1)) s)
      | WLocked i ik j \<Rightarrow>
          (case update_cell c (t_k s) i ik j (t_matrix s) of
             None \<Rightarrow> Some (goto t WFault s)
           | Some m \<Rightarrow> Some (goto t (WUnlock i ik j) (s\<lparr>t_matrix := m\<rparr>)))
      | WUnlock i ik j \<Rightarrow> Some (goto t (WCol i ik (j + 1)) (s\<lparr>t_lock := None\<rparr>))
      | WPast \<Rightarrow> Some (goto t WKBarrier s)
      | _ \<Rightarrow> None)"

text \<open>
  The main thread of \<^verbatim>\<open>wtc_thr\<close>: it takes \<^verbatim>\<open>input_value\<close> before each \<^verbatim>\<open>pthread_create\<close>, and the new
  thread releases it once it has read its argument.
\<close>

definition main_step :: "thr_cfg \<Rightarrow> thr_state \<Rightarrow> thr_state option" where
  "main_step c s =
     (case t_main s of
        MCreate i \<Rightarrow>
          if i < number_of_threads c
          then (if t_input s then None else Some (s\<lparr>t_input := True, t_main := MCreateLocked i\<rparr>))
          else Some (s\<lparr>t_main := MTest\<rparr>)
      | MCreateLocked i \<Rightarrow> Some ((goto i WStart s)\<lparr>t_main := MCreate (i + 1)\<rparr>)
      | MTest \<Rightarrow> Some (s\<lparr>t_main := (if t_k s < number_of_nodes c then MBarrier else MJoin 0)\<rparr>)
      | MIncr \<Rightarrow> Some (s\<lparr>t_k := t_k s + 1, t_main := MKBarrier\<rparr>)
      | MJoin i \<Rightarrow>
          if i < number_of_threads c
          then (if t_pc s i = WExit then Some (s\<lparr>t_main := MJoin (i + 1)\<rparr>) else None)
          else Some (s\<lparr>t_main := MDone\<rparr>)
      | _ \<Rightarrow> None)"

text \<open>
  Both barriers are initialised for \<^verbatim>\<open>number_of_threads + 1\<close> participants: they let everybody go
  once the main thread and all workers have arrived.
\<close>

definition all_at :: "thr_cfg \<Rightarrow> worker_pc \<Rightarrow> thr_state \<Rightarrow> bool" where
  "all_at c pc s \<longleftrightarrow> list_all (\<lambda>t. t_pc s t = pc) [0..<number_of_threads c]"

definition send_all :: "thr_cfg \<Rightarrow> worker_pc \<Rightarrow> thr_state \<Rightarrow> thr_state" where
  "send_all c pc s = s\<lparr>t_pc := (\<lambda>t. if t < number_of_threads c then pc else t_pc s t)\<rparr>"

definition barrier_step :: "thr_cfg \<Rightarrow> thr_state \<Rightarrow> thr_state option" where
  "barrier_step c s =
     (case t_main s of
        MBarrier \<Rightarrow> if all_at c WBarrier s then Some ((send_all c WPast s)\<lparr>t_main := MIncr\<rparr>) else None
      | MKBarrier \<Rightarrow> if all_at c WKBarrier s then Some ((send_all c WTest s)\<lparr>t_main := MTest\<rparr>) else None
      | _ \<Rightarrow> None)"

inductive thr_step :: "thr_cfg \<Rightarrow> thr_state \<Rightarrow> thr_state \<Rightarrow> bool" for c where
  worker: "t < number_of_threads c \<Longrightarrow> worker_step c t s = Some s' \<Longrightarrow> thr_step c s s'"
| main: "main_step c s = Some s' \<Longrightarrow> thr_step c s s'"
| barrier: "barrier_step c s = Some s' \<Longrightarrow> thr_step c s s'"

text \<open>An interleaving as the list of who moves; used to exhibit concrete runs.\<close>

datatype mover = Worker nat | Main | Barrier

definition thr_move :: "thr_cfg \<Rightarrow> mover \<Rightarrow> thr_state \<Rightarrow> thr_state option" where
  "thr_move c a s =
     (case a of Worker t \<Rightarrow> if t < number_of_threads c then worker_step c t s else None
      | Main \<Rightarrow> main_step c s
      | Barrier \<Rightarrow> barrier_step c s)"

definition thr_run :: "thr_cfg \<Rightarrow> mover list \<Rightarrow> thr_state \<Rightarrow> thr_state option" where
  "thr_run c = runs (thr_move c)"

lemma thr_run_steps: "thr_run c as s = Some s' \<Longrightarrow> (thr_step c)\<^sup>*\<^sup>* s s'"
  unfolding thr_run_def
  by (erule runs_steps) (auto simp: thr_move_def split: mover.splits if_splits intro: thr_step.intros)

section \<open>The round invariant\<close>

text \<open>The cells the workers visit: the rows of the first \<open>T * length\<close> vertices.\<close>

definition thr_cells :: "thr_cfg \<Rightarrow> cells" where
  "thr_cells c i j \<longleftrightarrow> i < number_of_threads c * rows_per_thread c"

lemma rows_total: "number_of_threads c * rows_per_thread c \<le> number_of_nodes c"
  by (simp add: rows_per_thread_def)

lemma own_rows:
  assumes "t < number_of_threads c" and "i < t * rows_per_thread c + rows_per_thread c"
  shows "thr_cells c i j" and "i < number_of_nodes c"
proof -
  have "t * rows_per_thread c + rows_per_thread c = Suc t * rows_per_thread c" by simp
  also have "\<dots> \<le> number_of_threads c * rows_per_thread c"
    using assms(1) by (intro mult_right_mono) auto
  finally have i: "i < number_of_threads c * rows_per_thread c" using assms(2) by simp
  then show "thr_cells c i j" by (simp add: thr_cells_def)
  show "i < number_of_nodes c" using i rows_total [of c] by simp
qed

lemma row_owner:
  assumes "thr_cells c i j"
  shows "\<exists>t<number_of_threads c. t * rows_per_thread c \<le> i \<and> i < t * rows_per_thread c + rows_per_thread c"
proof -
  let ?l = "rows_per_thread c" and ?t = "i div rows_per_thread c"
  have i: "i < number_of_threads c * ?l" using assms by (simp add: thr_cells_def)
  then have l: "0 < ?l" by (cases ?l) auto
  have "?t < number_of_threads c" using i by (simp add: less_mult_imp_div_less)
  moreover have "?t * ?l \<le> i" by simp
  moreover have "i < ?t * ?l + ?l"
    using l div_mult_mod_eq [of i ?l] mod_less_divisor [of ?l i] by linarith
  ultimately show ?thesis by blast
qed

fun done_cells :: "nat \<Rightarrow> worker_pc \<Rightarrow> cells" where
  "done_cells start (WRow r) i j \<longleftrightarrow> start \<le> i \<and> i < r"
| "done_cells start (WCol r ik q) i j \<longleftrightarrow> start \<le> i \<and> (i < r \<or> i = r \<and> j < q)"
| "done_cells start (WLocked r ik q) i j \<longleftrightarrow> start \<le> i \<and> (i < r \<or> i = r \<and> j < q)"
| "done_cells start (WUnlock r ik q) i j \<longleftrightarrow> start \<le> i \<and> (i < r \<or> i = r \<and> j < Suc q)"
| "done_cells start pc i j \<longleftrightarrow> False"

definition worker_done :: "thr_cfg \<Rightarrow> nat \<Rightarrow> worker_pc \<Rightarrow> cells" where
  "worker_done c t pc i j \<longleftrightarrow>
     (if pc = WBarrier
      then t * rows_per_thread c \<le> i \<and> i < t * rows_per_thread c + rows_per_thread c
      else done_cells (t * rows_per_thread c) pc i j)"

definition all_done :: "thr_cfg \<Rightarrow> thr_state \<Rightarrow> cells" where
  "all_done c s i j \<longleftrightarrow> (\<exists>t<number_of_threads c. worker_done c t (t_pc s t) i j)"

definition thr_graph :: "thr_cfg \<Rightarrow> graph \<Rightarrow> nat \<Rightarrow> graph" where
  "thr_graph c E k = wrounds (thr_cells c) k E"

text \<open>What the locals of a worker say while round \<open>k\<close> is going on; \<open>E\<close> are the input edges.\<close>

definition col_ok :: "thr_cfg \<Rightarrow> graph \<Rightarrow> nat \<Rightarrow> nat \<Rightarrow> nat \<Rightarrow> u32 \<Rightarrow> bool" where
  "col_ok c E k t i ik \<longleftrightarrow>
     k < number_of_nodes c \<and> t * rows_per_thread c \<le> i \<and>
     i < t * rows_per_thread c + rows_per_thread c \<and>
     ik = (if thr_graph c E k i k then 1 else 0)"

fun worker_ok :: "thr_cfg \<Rightarrow> graph \<Rightarrow> nat \<Rightarrow> nat \<Rightarrow> worker_pc \<Rightarrow> bool" where
  "worker_ok c E k t WNew = True"
| "worker_ok c E k t WStart = True"
| "worker_ok c E k t WTest = True"
| "worker_ok c E k t (WRow i) =
     (k < number_of_nodes c \<and> t * rows_per_thread c \<le> i \<and>
      i \<le> t * rows_per_thread c + rows_per_thread c)"
| "worker_ok c E k t (WCol i ik j) = (col_ok c E k t i ik \<and> j \<le> number_of_nodes c)"
| "worker_ok c E k t (WLocked i ik j) = (col_ok c E k t i ik \<and> j < number_of_nodes c)"
| "worker_ok c E k t (WUnlock i ik j) = (col_ok c E k t i ik \<and> j < number_of_nodes c)"
| "worker_ok c E k t WBarrier = (k < number_of_nodes c)"
| "worker_ok c E k t WExit = (k = number_of_nodes c)"
| "worker_ok c E k t _ = False"

definition working :: "thr_cfg \<Rightarrow> graph \<Rightarrow> thr_state \<Rightarrow> bool" where
  "working c E s \<longleftrightarrow>
     (\<forall>t<number_of_threads c. worker_ok c E (t_k s) t (t_pc s t)) \<and>
     (if t_k s < number_of_nodes c
      then in_round (number_of_nodes c) (thr_cells c) (t_k s) (thr_graph c E (t_k s))
             (all_done c s) (bit_edge (number_of_nodes c) (t_matrix s))
      else t_k s = number_of_nodes c \<and>
           agree (number_of_nodes c) (thr_graph c E (t_k s)) (bit_edge (number_of_nodes c) (t_matrix s)))"

definition turning :: "thr_cfg \<Rightarrow> graph \<Rightarrow> nat \<Rightarrow> thr_state \<Rightarrow> bool" where
  "turning c E k s \<longleftrightarrow>
     k \<le> number_of_nodes c \<and>
     (\<forall>t<number_of_threads c. t_pc s t = WPast \<or> t_pc s t = WKBarrier) \<and>
     agree (number_of_nodes c) (thr_graph c E k) (bit_edge (number_of_nodes c) (t_matrix s))"

definition thr_inv :: "thr_cfg \<Rightarrow> graph \<Rightarrow> thr_state \<Rightarrow> bool" where
  "thr_inv c E s \<longleftrightarrow>
     bit_fits (number_of_nodes c) (t_matrix s) \<and>
     (case t_main s of
        MIncr \<Rightarrow> turning c E (Suc (t_k s)) s
      | MKBarrier \<Rightarrow> turning c E (t_k s) s
      | MBarrier \<Rightarrow> working c E s \<and> t_k s < number_of_nodes c
      | MJoin _ \<Rightarrow> working c E s \<and> t_k s = number_of_nodes c
      | MDone \<Rightarrow> working c E s \<and> t_k s = number_of_nodes c
      | _ \<Rightarrow> working c E s)"

lemma goto_simps [simp]:
  "t_pc (goto t pc s) = (t_pc s)(t := pc)" "t_k (goto t pc s) = t_k s"
  "t_matrix (goto t pc s) = t_matrix s" "t_main (goto t pc s) = t_main s"
  "t_lock (goto t pc s) = t_lock s" "t_input (goto t pc s) = t_input s"
  by (simp_all add: goto_def)

text \<open>One worker moves; \<open>X\<close> is what its move adds to the processed cells.\<close>

lemma working_move:
  assumes w: "working c E s" and t: "t < number_of_threads c"
    and pc: "worker_ok c E (t_k s) t pc"
    and k: "t_k s' = t_k s" and pcs: "t_pc s' = (t_pc s)(t := pc)"
    and add: "\<And>i j. i < number_of_nodes c \<Longrightarrow> j < number_of_nodes c \<Longrightarrow>
      worker_done c t pc i j \<Longrightarrow> worker_done c t (t_pc s t) i j \<or> X i j"
    and m: "t_k s < number_of_nodes c \<Longrightarrow>
      in_round (number_of_nodes c) (thr_cells c) (t_k s) (thr_graph c E (t_k s)) (all_done c s)
        (bit_edge (number_of_nodes c) (t_matrix s)) \<Longrightarrow>
      in_round (number_of_nodes c) (thr_cells c) (t_k s) (thr_graph c E (t_k s))
        (\<lambda>i j. all_done c s i j \<or> X i j) (bit_edge (number_of_nodes c) (t_matrix s'))"
    and m': "\<not> t_k s < number_of_nodes c \<Longrightarrow> t_matrix s' = t_matrix s"
  shows "working c E s'"
proof (cases "t_k s < number_of_nodes c")
  case True
  have "in_round (number_of_nodes c) (thr_cells c) (t_k s) (thr_graph c E (t_k s))
          (all_done c s') (bit_edge (number_of_nodes c) (t_matrix s'))"
  proof (rule in_round_weaken [OF m [OF True]])
    show "in_round (number_of_nodes c) (thr_cells c) (t_k s) (thr_graph c E (t_k s)) (all_done c s)
        (bit_edge (number_of_nodes c) (t_matrix s))"
      using w True by (simp add: working_def)
    fix i j assume ij: "i < number_of_nodes c" "j < number_of_nodes c" "all_done c s' i j"
    then obtain u where "u < number_of_threads c" "worker_done c u (t_pc s' u) i j"
      by (auto simp: all_done_def)
    then show "all_done c s i j \<or> X i j"
      using add [OF ij(1,2)] t by (cases "u = t") (auto simp: all_done_def pcs)
  qed
  then show ?thesis using True w pc t by (auto simp: working_def k pcs)
next
  case False
  then show ?thesis using w pc t m' by (auto simp: working_def k pcs)
qed

lemma update_cell_round:
  assumes ok: "col_ok c E k t i ik" and t: "t < number_of_threads c" and j: "j < number_of_nodes c"
    and fit: "bit_fits (number_of_nodes c) m"
    and r: "in_round (number_of_nodes c) (thr_cells c) k (thr_graph c E k) D
              (bit_edge (number_of_nodes c) m)"
  shows "\<exists>m'. update_cell c k i ik j m = Some m' \<and> bit_fits (number_of_nodes c) m' \<and>
     in_round (number_of_nodes c) (thr_cells c) k (thr_graph c E k)
       (\<lambda>a b. D a b \<or> a = i \<and> b = j) (bit_edge (number_of_nodes c) m')"
proof -
  let ?n = "number_of_nodes c" and ?F = "thr_graph c E k"
  have k: "k < ?n" and i: "i < ?n" and P: "thr_cells c i j"
    and ik: "ik = (if ?F i k then 1 else 0)"
    using ok own_rows [OF t] by (auto simp: col_ok_def)
  have kj: "bit_array_get m (cell ?n k j) = Some (if ?F k j then 1 else 0)"
    using get_bit_edge [OF fit k j] in_round_row [OF r k j] by simp
  show ?thesis
  proof (cases "?F i k \<and> ?F k j")
    case False
    then have "update_cell c k i ik j m = Some m"
      using ik kj by (auto simp: update_cell_def)
    then show ?thesis using fit in_round_keep [OF r False] by blast
  next
    case True
    obtain m' where m': "bit_connect ?n i j m = Some m'"
      using bit_matrix.connect_in [OF fit i j] by blast
    then have "update_cell c k i ik j m = Some m'"
      using True ik kj by (simp add: update_cell_def bit_connect_def)
    moreover have "bit_fits ?n m'" using fit i j m' by (rule bit_matrix.connect_fits)
    ultimately show ?thesis
      using bit_matrix.connect_round [OF r fit i j m'] True P by blast
  qed
qed

lemma read_column:
  assumes w: "working c E s" and t: "t < number_of_threads c"
    and fit: "bit_fits (number_of_nodes c) (t_matrix s)"
    and k: "t_k s < number_of_nodes c" and i: "i < t * rows_per_thread c + rows_per_thread c"
  shows "bit_array_get (t_matrix s) (cell (number_of_nodes c) i (t_k s)) =
         Some (if thr_graph c E (t_k s) i (t_k s) then 1 else 0)"
proof -
  have i': "i < number_of_nodes c" using own_rows(2) [OF t i] .
  have "in_round (number_of_nodes c) (thr_cells c) (t_k s) (thr_graph c E (t_k s))
          (all_done c s) (bit_edge (number_of_nodes c) (t_matrix s))"
    using w k by (simp add: working_def)
  from in_round_column [OF this k i'] get_bit_edge [OF fit i' k] show ?thesis by simp
qed

lemmas worker_move_simps = worker_step_def Let_def worker_done_def

lemma worker_step_working:
  assumes w: "working c E s" and fit: "bit_fits (number_of_nodes c) (t_matrix s)"
    and t: "t < number_of_threads c" and st: "worker_step c t s = Some s'"
  shows "working c E s' \<and> bit_fits (number_of_nodes c) (t_matrix s')"
proof -
  have ok: "worker_ok c E (t_k s) t (t_pc s t)" and kn: "t_k s \<le> number_of_nodes c"
    using w t by (auto simp: working_def split: if_splits)
  note move = working_move [OF w t, where X = "\<lambda>_ _. False"]
  show ?thesis
  proof (cases "t_pc s t")
    case (WRow i)
    then have iw: "t_k s < number_of_nodes c" "t * rows_per_thread c \<le> i"
      "i \<le> t * rows_per_thread c + rows_per_thread c" using ok by auto
    show ?thesis
    proof (cases "i < t * rows_per_thread c + rows_per_thread c")
      case True
      with st WRow read_column [OF w t fit iw(1) True]
      have "s' = goto t (WCol i (if thr_graph c E (t_k s) i (t_k s) then 1 else 0) 0) s"
        by (simp add: worker_move_simps split: if_splits)
      then show ?thesis
        using fit WRow iw True by (auto intro!: move simp: col_ok_def worker_done_def)
    next
      case False
      with st WRow have "s' = goto t WBarrier s" by (simp add: worker_move_simps)
      then show ?thesis using fit WRow iw False by (auto intro!: move simp: worker_done_def)
    qed
  next
    case (WCol i ik j)
    then show ?thesis
      using st fit ok
      by (auto simp: worker_move_simps col_ok_def split: if_splits intro!: move)
  next
    case (WLocked i ik j)
    have c: "col_ok c E (t_k s) t i ik" "j < number_of_nodes c" using ok WLocked by auto
    then have k: "t_k s < number_of_nodes c" by (simp add: col_ok_def)
    then have "in_round (number_of_nodes c) (thr_cells c) (t_k s) (thr_graph c E (t_k s))
          (all_done c s) (bit_edge (number_of_nodes c) (t_matrix s))"
      using w by (simp add: working_def)
    from update_cell_round [OF c(1) t c(2) fit this] obtain m' where
      m': "update_cell c (t_k s) i ik j (t_matrix s) = Some m'" "bit_fits (number_of_nodes c) m'"
      "in_round (number_of_nodes c) (thr_cells c) (t_k s) (thr_graph c E (t_k s))
        (\<lambda>a b. all_done c s a b \<or> a = i \<and> b = j) (bit_edge (number_of_nodes c) m')" by blast
    with st WLocked have s': "s' = goto t (WUnlock i ik j) (s\<lparr>t_matrix := m'\<rparr>)"
      by (simp add: worker_move_simps)
    have "working c E s'"
      by (rule working_move [OF w t, where X = "\<lambda>a b. a = i \<and> b = j" and pc = "WUnlock i ik j"])
        (use c k m' WLocked in \<open>auto simp: s' goto_def worker_done_def\<close>)
    with m' show ?thesis by (simp add: s')
  next
    case (WUnlock i ik j)
    with st have s': "s' = goto t (WCol i ik (j + 1)) (s\<lparr>t_lock := None\<rparr>)"
      by (simp add: worker_move_simps)
    show ?thesis using fit ok WUnlock by (auto simp: s' worker_done_def intro!: move)
  next
    case WTest
    then show ?thesis using st fit kn
      by (cases "t_k s < number_of_nodes c") (auto simp: worker_move_simps intro!: move)
  qed (use st fit ok in \<open>auto simp: worker_move_simps intro!: move\<close>)
qed

lemma worker_step_frame [frame]:
  "worker_step c t s = Some s' \<Longrightarrow> t_main s' = t_main s"
  "worker_step c t s = Some s' \<Longrightarrow> t_k s' = t_k s"
  by (auto simp: worker_step_def Let_def split: worker_pc.splits option.splits if_splits)

text \<open>While the main thread turns the round over, a worker can only walk on to \<^verbatim>\<open>kbarrier\<close>.\<close>

lemma worker_step_turning:
  assumes "turning c E k s" and "t < number_of_threads c" and "worker_step c t s = Some s'"
  shows "turning c E k s' \<and> t_matrix s' = t_matrix s"
proof -
  have "t_pc s t = WPast \<or> t_pc s t = WKBarrier" using assms(1,2) by (simp add: turning_def)
  then have "s' = goto t WKBarrier s" using assms(3) by (auto simp: worker_step_def Let_def)
  then show ?thesis using assms(1) by (simp add: turning_def)
qed

lemma thr_inv_worker:
  assumes "thr_inv c E s" and "t < number_of_threads c" and "worker_step c t s = Some s'"
  shows "thr_inv c E s'"
  using assms worker_step_frame [OF assms(3)] worker_step_working [OF _ _ assms(2,3)]
    worker_step_turning [OF _ assms(2,3)]
  by (cases "t_main s") (auto simp: thr_inv_def)

lemma working_cong:
  assumes "t_pc s' = t_pc s" and "t_k s' = t_k s" and "t_matrix s' = t_matrix s"
  shows "working c E s' = working c E s" and "turning c E k s' = turning c E k s"
proof -
  have "all_done c s' = all_done c s" using assms by (simp add: all_done_def fun_eq_iff)
  then show "working c E s' = working c E s" and "turning c E k s' = turning c E k s"
    using assms by (simp_all add: working_def turning_def)
qed

lemma working_update [simp]:
  "working c E (s\<lparr>t_main := mp\<rparr>) = working c E s"
  "working c E (s\<lparr>t_input := b\<rparr>) = working c E s"
  "turning c E k (s\<lparr>t_main := mp\<rparr>) = turning c E k s"
  by (rule working_cong; simp)+

lemma working_k_le: "working c E s \<Longrightarrow> t_k s \<le> number_of_nodes c"
  by (auto simp: working_def split: if_splits)

lemma thr_inv_main:
  assumes i: "thr_inv c E s" and st: "main_step c s = Some s'"
  shows "thr_inv c E s'"
proof (cases "t_main s")
  case (MCreateLocked t)
  let ?u = "goto t WStart s"
  have w: "working c E s" and fit: "bit_fits (number_of_nodes c) (t_matrix s)"
    using i MCreateLocked by (auto simp: thr_inv_def)
  have "working c E ?u"
  proof (cases "t < number_of_threads c")
    case True
    show ?thesis
      by (rule working_move [OF w True, where X = "\<lambda>_ _. False" and pc = WStart])
        (auto simp: worker_done_def)
  next
    case False
    then have "all_done c ?u = all_done c s"
      by (auto simp: all_done_def fun_eq_iff)
    then show ?thesis using w False by (auto simp: working_def)
  qed
  moreover have "s' = ?u\<lparr>t_main := MCreate (t + 1)\<rparr>"
    using st MCreateLocked by (simp add: main_step_def)
  ultimately show ?thesis using fit by (simp add: thr_inv_def)
next
  case (MCreate t)
  then show ?thesis
    using i st by (auto simp: thr_inv_def main_step_def split: if_splits)
next
  case MTest
  then have "working c E s" using i by (simp add: thr_inv_def)
  with MTest i st working_k_le [OF this] show ?thesis
    by (auto simp: thr_inv_def main_step_def)
next
  case MIncr
  with i st show ?thesis
    by (auto simp: thr_inv_def main_step_def turning_def)
next
  case (MJoin t)
  with i st show ?thesis
    by (auto simp: thr_inv_def main_step_def split: if_splits)
qed (use i st in \<open>auto simp: main_step_def\<close>)

lemma all_at_iff: "all_at c pc s \<longleftrightarrow> (\<forall>t<number_of_threads c. t_pc s t = pc)"
  by (auto simp: all_at_def list_all_iff)

lemma thr_inv_barrier:
  assumes i: "thr_inv c E s" and st: "barrier_step c s = Some s'"
  shows "thr_inv c E s'"
proof (cases "t_main s")
  case MBarrier
  let ?n = "number_of_nodes c"
  have w: "working c E s" and k: "t_k s < ?n" and fit: "bit_fits ?n (t_matrix s)"
    using i MBarrier by (auto simp: thr_inv_def)
  have at: "\<forall>t<number_of_threads c. t_pc s t = WBarrier"
    and s': "s' = (send_all c WPast s)\<lparr>t_main := MIncr\<rparr>"
    using st MBarrier by (auto simp: barrier_step_def all_at_iff split: if_splits)
  have "agree ?n (wround (thr_cells c) (t_k s) (thr_graph c E (t_k s))) (bit_edge ?n (t_matrix s))"
  proof (rule in_round_end)
    show "in_round ?n (thr_cells c) (t_k s) (thr_graph c E (t_k s)) (all_done c s)
            (bit_edge ?n (t_matrix s))"
      using w k by (simp add: working_def)
    fix i j assume "thr_cells c i j"
    from row_owner [OF this] show "all_done c s i j"
      using at by (auto simp: all_done_def worker_done_def)
  qed
  then show ?thesis
    using fit k by (simp add: thr_inv_def s' turning_def send_all_def thr_graph_def)
next
  case MKBarrier
  let ?n = "number_of_nodes c"
  have w: "turning c E (t_k s) s" and fit: "bit_fits ?n (t_matrix s)"
    using i MKBarrier by (auto simp: thr_inv_def)
  have s': "s' = (send_all c WTest s)\<lparr>t_main := MTest\<rparr>"
    using st MKBarrier by (auto simp: barrier_step_def split: if_splits)
  have e: "agree ?n (thr_graph c E (t_k s)) (bit_edge ?n (t_matrix s))" and k: "t_k s \<le> ?n"
    using w by (auto simp: turning_def)
  have "all_done c s' = (\<lambda>_ _. False)"
    by (auto simp: s' all_done_def send_all_def worker_done_def fun_eq_iff)
  with in_round_start [OF e] e k have "working c E s'"
    by (cases "t_k s = ?n") (simp_all add: working_def s' send_all_def)
  with fit show ?thesis by (simp add: thr_inv_def s' send_all_def)
qed (use i st in \<open>auto simp: barrier_step_def\<close>)

lemma thr_inv_init:
  assumes "bit_fits (number_of_nodes c) m"
  shows "thr_inv c (bit_edge (number_of_nodes c) m) (thr_init m)"
proof -
  have "in_round (number_of_nodes c) (thr_cells c) 0 (bit_edge (number_of_nodes c) m)
    (all_done c (thr_init m)) (bit_edge (number_of_nodes c) m)"
    by (rule in_round_weaken [OF in_round_start [OF agree_refl]])
      (simp add: all_done_def thr_init_def worker_done_def)
  then show ?thesis
    using assms by (auto simp: thr_inv_def thr_init_def working_def thr_graph_def)
qed

lemma thr_inv_step: "thr_inv c E s \<Longrightarrow> thr_step c s s' \<Longrightarrow> thr_inv c E s'"
  by (auto elim!: thr_step.cases intro: thr_inv_worker thr_inv_main thr_inv_barrier)

lemma thr_inv_reachable:
  assumes "(thr_step c)\<^sup>*\<^sup>* (thr_init m) s" and "bit_fits (number_of_nodes c) m"
  shows "thr_inv c (bit_edge (number_of_nodes c) m) s"
  by (rule rtranclp_invariant [where I = "thr_inv c (bit_edge (number_of_nodes c) m)", OF assms(1)])
    (use assms(2) in \<open>auto intro: thr_inv_init thr_inv_step\<close>)

section \<open>Locks and thread creation\<close>

fun critical :: "worker_pc \<Rightarrow> bool" where
  "critical (WLocked _ _ _) = True"
| "critical (WUnlock _ _ _) = True"
| "critical _ = False"

text \<open>Threads are created in order: those from \<open>created_upto\<close> on do not exist yet.\<close>

definition created_upto :: "thr_cfg \<Rightarrow> thr_state \<Rightarrow> nat" where
  "created_upto c s =
     (case t_main s of MCreate i \<Rightarrow> i | MCreateLocked i \<Rightarrow> i | _ \<Rightarrow> number_of_threads c)"

definition creating :: "thr_state \<Rightarrow> bool" where
  "creating s \<longleftrightarrow> (case t_main s of MCreateLocked _ \<Rightarrow> True | _ \<Rightarrow> False)"

definition created_inv :: "thr_cfg \<Rightarrow> thr_state \<Rightarrow> bool" where
  "created_inv c s \<longleftrightarrow> created_upto c s + (if creating s then 1 else 0) \<le> number_of_threads c \<and>
     (\<forall>t. t_pc s t = WNew \<longleftrightarrow> created_upto c s \<le> t)"

lemma created_new: "created_inv c s \<Longrightarrow> t_pc s t = WNew \<longleftrightarrow> created_upto c s \<le> t"
  by (simp only: created_inv_def)

text \<open>\<^verbatim>\<open>input_value\<close> is held from the main thread's lock to the new thread's unlock.\<close>

definition starting :: "thr_state \<Rightarrow> nat set" where
  "starting s = {t. t_pc s t = WStart}"

definition input_inv :: "thr_state \<Rightarrow> bool" where
  "input_inv s \<longleftrightarrow>
     (if t_input s then (if creating s then starting s = {} else \<exists>t. starting s = {t})
      else \<not> creating s \<and> starting s = {})"

text \<open>\<^verbatim>\<open>mutexmatrix\<close> is held exactly by the thread in its critical section (or stopped in it).\<close>

definition lock_inv :: "thr_state \<Rightarrow> bool" where
  "lock_inv s \<longleftrightarrow>
     (\<forall>t. critical (t_pc s t) \<longrightarrow> t_lock s = Some t) \<and>
     (\<forall>t. t_lock s = Some t \<longrightarrow> critical (t_pc s t) \<or> t_pc s t = WFault)"

definition sync_inv :: "thr_cfg \<Rightarrow> thr_state \<Rightarrow> bool" where
  "sync_inv c s \<longleftrightarrow> created_inv c s \<and> input_inv s \<and> lock_inv s"

text \<open>What a step of a worker can do to its own program counter and the two locks.\<close>

lemma worker_step_shape:
  assumes "worker_step c t s = Some s'"
  shows "\<exists>pc. t_pc s' = (t_pc s)(t := pc) \<and> t_pc s t \<noteq> WNew \<and> pc \<noteq> WNew \<and> pc \<noteq> WStart"
    and "t_input s' = (if t_pc s t = WStart then False else t_input s)"
    and "t_lock s' = t_lock s \<and> (critical (t_pc s' t) = critical (t_pc s t) \<or> critical (t_pc s t) \<and> t_pc s' t = WFault)
           \<and> t_pc s t \<noteq> WFault \<or>
         t_lock s = None \<and> t_lock s' = Some t \<and> critical (t_pc s' t) \<or>
         critical (t_pc s t) \<and> t_lock s' = None \<and> \<not> critical (t_pc s' t)"
  using assms unfolding worker_step_def Let_def
  by (cases "t_pc s t"; auto split: option.splits if_splits)+

lemma created_worker: "created_inv c s \<Longrightarrow> worker_step c t s = Some s' \<Longrightarrow> created_inv c s'"
  using worker_step_shape(1) [of c t s s'] worker_step_frame(1) [of c t s s']
  by (fastforce simp: created_inv_def created_upto_def creating_def)

lemma input_worker:
  assumes i: "input_inv s" and st: "worker_step c t s = Some s'"
  shows "input_inv s'"
proof -
  have "starting s' = starting s - {t}"
    using worker_step_shape(1) [OF st] by (auto simp: starting_def split: if_splits)
  moreover have "creating s' = creating s"
    using worker_step_frame(1) [OF st] by (simp add: creating_def)
  moreover have "t \<in> starting s \<longleftrightarrow> t_pc s t = WStart" by (simp add: starting_def)
  ultimately show ?thesis
    using i worker_step_shape(2) [OF st] unfolding input_inv_def
    by (cases "t_pc s t = WStart") (auto split: if_splits)
qed

lemma lock_worker:
  assumes l: "lock_inv s" and st: "worker_step c t s = Some s'"
  shows "lock_inv s'"
proof -
  obtain pc where pcs: "t_pc s' = (t_pc s)(t := pc)" using worker_step_shape(1) [OF st] by blast
  then have "t_pc s' t = pc" by simp
  moreover have "critical (t_pc s a) \<Longrightarrow> critical (t_pc s b) \<Longrightarrow> a = b" for a b
    using l by (metis lock_inv_def option.inject)
  ultimately show ?thesis
    using l pcs worker_step_shape(3) [OF st]
    unfolding lock_inv_def by (elim disjE) (auto split: if_splits)
qed

lemma sync_worker: "sync_inv c s \<Longrightarrow> worker_step c t s = Some s' \<Longrightarrow> sync_inv c s'"
  by (auto simp: sync_inv_def intro: created_worker input_worker lock_worker)

lemmas sync_defs = sync_inv_def created_inv_def created_upto_def creating_def input_inv_def starting_def lock_inv_def

lemma sync_init: "sync_inv c (thr_init m)"
  by (simp add: sync_defs thr_init_def)

lemma sync_same:
  assumes "sync_inv c s" and "t_pc s' = t_pc s" and "t_lock s' = t_lock s" and "t_input s' = t_input s"
    and "created_upto c s' = created_upto c s" and "creating s' = creating s"
  shows "sync_inv c s'"
proof -
  have "starting s' = starting s" using assms by (simp add: starting_def)
  with assms show ?thesis by (simp add: sync_inv_def created_inv_def input_inv_def lock_inv_def)
qed

lemma sync_main:
  assumes y: "sync_inv c s" and st: "main_step c s = Some s'"
  shows "sync_inv c s'"
proof (cases "t_main s")
  case (MCreateLocked i)
  with st have s': "s' = (goto i WStart s)\<lparr>t_main := MCreate (i + 1)\<rparr>" by (simp add: main_step_def)
  have cr: "created_inv c s" "input_inv s" "creating s" "created_upto c s = i"
    using y MCreateLocked by (simp_all add: sync_inv_def creating_def created_upto_def)
  then have new: "t_pc s t = WNew \<longleftrightarrow> i \<le> t" for t by (simp add: created_inv_def)
  have "created_upto c s + (if creating s then 1 else 0) \<le> number_of_threads c"
    using cr(1) by (simp only: created_inv_def)
  then have i: "i < number_of_threads c" by (simp add: cr(3,4))
  have inp: "t_input s" and "starting s = {}"
    using cr(2,3) by (simp_all add: input_inv_def split: if_splits)
  then have none: "t_pc s t \<noteq> WStart" for t unfolding starting_def by blast
  have "t_pc s' t = WNew \<longleftrightarrow> Suc i \<le> t" for t
    using new [of t] by (cases "t = i") (auto simp: s')
  moreover have "created_upto c s' = Suc i" "\<not> creating s'"
    by (simp_all add: created_upto_def creating_def s')
  ultimately have "created_inv c s'" using i by (simp add: created_inv_def)
  moreover have "starting s' = {i}" using none by (auto simp: starting_def s')
  then have "input_inv s'" using inp by (simp add: input_inv_def creating_def s')
  moreover have l: "lock_inv s" and pc: "t_pc s i = WNew"
    using y new [of i] by (simp_all add: sync_inv_def)
  have "critical (t_pc s' t) \<longleftrightarrow> critical (t_pc s t)" "t_pc s t = WFault \<longleftrightarrow> t_pc s' t = WFault" for t
    using pc by (cases "t = i"; simp add: s')+
  then have "lock_inv s'" using l unfolding lock_inv_def by (simp add: s' del: goto_simps(1))
  ultimately show ?thesis by (simp add: sync_inv_def)
next
  case (MCreate i)
  then have up: "created_upto c s = i" "\<not> creating s" by (simp_all add: created_upto_def creating_def)
  then have le: "i \<le> number_of_threads c" using y by (auto simp: sync_inv_def created_inv_def)
  show ?thesis
  proof (cases "i < number_of_threads c")
    case True
    then have inp: "\<not> t_input s" and s': "s' = s\<lparr>t_input := True, t_main := MCreateLocked i\<rparr>"
      using st MCreate by (simp_all add: main_step_def split: if_splits)
    then have "created_upto c s' = i" "creating s'" "starting s' = starting s"
      by (simp_all add: created_upto_def creating_def starting_def)
    then show ?thesis
      using y up inp True by (simp add: sync_inv_def created_inv_def input_inv_def lock_inv_def s')
  next
    case False
    then have i: "i = number_of_threads c" and s': "s' = s\<lparr>t_main := MTest\<rparr>"
      using le st MCreate by (simp_all add: main_step_def)
    then have "created_upto c s' = i" "\<not> creating s'" "starting s' = starting s"
      by (simp_all add: created_upto_def creating_def starting_def)
    then show ?thesis
      using y up i by (simp add: sync_inv_def created_inv_def input_inv_def lock_inv_def s')
  qed
qed (use st in \<open>auto simp: main_step_def created_upto_def creating_def intro!: sync_same [OF y]
  split: if_splits\<close>)

lemma sync_barrier:
  assumes y: "sync_inv c s" and st: "barrier_step c s = Some s'"
  shows "sync_inv c s'"
proof -
  obtain pc pc' mp where s': "s' = (send_all c pc' s)\<lparr>t_main := mp\<rparr>"
    and at: "\<forall>t<number_of_threads c. t_pc s t = pc" "pc = WBarrier \<or> pc = WKBarrier"
    and pc': "pc' = WPast \<or> pc' = WTest" and mp: "mp = MIncr \<or> mp = MTest"
    and m: "t_main s = MBarrier \<or> t_main s = MKBarrier"
    using st by (auto simp: barrier_step_def all_at_iff split: main_pc.splits if_splits)
  have up: "created_upto c s = number_of_threads c" and cr: "\<not> creating s"
    using m by (auto simp: created_upto_def creating_def)
  then have pcs: "t_pc s t = (if t < number_of_threads c then pc else WNew)" for t
    using y at by (auto simp: sync_inv_def created_inv_def)
  have pcs': "t_pc s' t = (if t < number_of_threads c then pc' else WNew)" for t
    by (simp add: s' send_all_def pcs)
  have "starting s = {}" "starting s' = {}" using at(2) pc' by (auto simp: starting_def pcs pcs')
  moreover have "creating s' = False" "created_upto c s' = number_of_threads c"
    using mp by (auto simp: creating_def created_upto_def s')
  moreover have "\<not> critical (t_pc s t)" "\<not> critical (t_pc s' t)" "t_pc s t \<noteq> WFault" for t
    using at(2) pc' by (auto simp: pcs pcs')
  ultimately show ?thesis
    using y cr pc' by (auto simp: sync_inv_def created_inv_def input_inv_def lock_inv_def pcs' s' send_all_def split: if_splits)
qed

lemma sync_step: "sync_inv c s \<Longrightarrow> thr_step c s s' \<Longrightarrow> sync_inv c s'"
  by (auto elim!: thr_step.cases intro: sync_worker sync_main sync_barrier)

lemma sync_reachable: "(thr_step c)\<^sup>*\<^sup>* (thr_init m) s \<Longrightarrow> sync_inv c s"
  by (rule rtranclp_invariant [where I = "sync_inv c" and step = "thr_step c"])
    (auto intro: sync_init sync_step)

section \<open>Progress and termination\<close>

text \<open>
  A worker that cannot move is not created, waits for the mutex held by another worker, waits at a
  barrier, has returned or has faulted.
\<close>

lemma worker_moves:
  assumes "worker_step c t s = None"
  shows "t_pc s t \<in> {WNew, WBarrier, WKBarrier, WExit, WFault} \<or>
         (\<exists>i ik j. t_pc s t = WCol i ik j \<and> t_lock s \<noteq> None)"
  using assms by (cases "t_pc s t") (auto simp: worker_step_def Let_def split: option.splits if_splits)

lemma no_fault:
  assumes "thr_inv c E s" and "t < number_of_threads c"
  shows "t_pc s t \<noteq> WFault"
  using assms by (cases "t_main s") (force simp: thr_inv_def working_def turning_def)+

lemma workers_blocked:
  assumes i: "thr_inv c E s" and y: "sync_inv c s" and t: "t < number_of_threads c"
    and b: "\<And>u. u < number_of_threads c \<Longrightarrow> worker_step c u s = None"
  shows "t_pc s t \<in> {WNew, WBarrier, WKBarrier, WExit}"
proof -
  have "t_lock s = None"
  proof (rule ccontr)
    assume "t_lock s \<noteq> None"
    then obtain u where u: "t_lock s = Some u" by auto
    then have pc: "critical (t_pc s u) \<or> t_pc s u = WFault" using y by (simp add: sync_inv_def lock_inv_def)
    then have "t_pc s u \<noteq> WNew" by auto
    then have "created_upto c s > u" using created_new [of c s u] y by (simp add: sync_inv_def)
    moreover have "created_upto c s \<le> number_of_threads c"
      using y by (auto simp: sync_inv_def created_inv_def split: if_splits)
    ultimately have "u < number_of_threads c" by simp
    with worker_moves [OF b] no_fault [OF i] pc show False by fastforce
  qed
  with worker_moves [OF b [OF t]] no_fault [OF i t] show ?thesis by auto
qed

lemma thr_progress:
  assumes i: "thr_inv c E s" and y: "sync_inv c s" and nd: "t_main s \<noteq> MDone"
  shows "\<exists>s'. thr_step c s s'"
proof (rule ccontr)
  assume "\<nexists>s'. thr_step c s s'"
  then have st: "\<not> thr_step c s s'" for s' by blast
  have w: "u < number_of_threads c \<Longrightarrow> worker_step c u s = None" for u
    using st by (metis not_None_eq thr_step.worker)
  have m: "main_step c s = None" using st by (metis not_None_eq thr_step.main)
  have b: "barrier_step c s = None" using st by (metis not_None_eq thr_step.barrier)
  have pcs: "t < number_of_threads c \<Longrightarrow> t_pc s t \<in> {WNew, WBarrier, WKBarrier, WExit}" for t
    using workers_blocked [OF i y _ w] by blast
  have created: "t_pc s t \<noteq> WNew" if "created_upto c s = number_of_threads c" "t < number_of_threads c" for t
    using y that by (simp add: sync_inv_def created_inv_def)
  show False
  proof (cases "t_main s")
    case (MCreate t)
    then have inp: "t_input s" "\<not> creating s"
      using m by (auto simp: main_step_def creating_def split: if_splits)
    then obtain u where "starting s = {u}" using y by (auto simp: sync_inv_def input_inv_def)
    then have u: "t_pc s u = WStart" by (auto simp: starting_def)
    then have "\<not> created_upto c s \<le> u" using created_new [of c s u] y by (simp add: sync_inv_def)
    moreover have "created_upto c s \<le> number_of_threads c"
      using y by (auto simp: sync_inv_def created_inv_def split: if_splits)
    ultimately show False using pcs [of u] u by auto
  next
    case MBarrier
    then have "\<forall>t<number_of_threads c. worker_ok c E (t_k s) t (t_pc s t)" "t_k s < number_of_nodes c"
      using i by (auto simp: thr_inv_def working_def)
    with pcs created MBarrier have "all_at c WBarrier s"
      by (fastforce simp: all_at_iff created_upto_def)
    with b MBarrier show False by (simp add: barrier_step_def)
  next
    case MKBarrier
    then have "\<forall>t<number_of_threads c. t_pc s t = WPast \<or> t_pc s t = WKBarrier"
      using i by (auto simp: thr_inv_def turning_def)
    with pcs have "all_at c WKBarrier s" by (fastforce simp: all_at_iff)
    with b MKBarrier show False by (simp add: barrier_step_def)
  next
    case (MJoin t)
    then have "\<forall>t<number_of_threads c. worker_ok c E (t_k s) t (t_pc s t)" "t_k s = number_of_nodes c"
      using i by (auto simp: thr_inv_def working_def)
    moreover have "t < number_of_threads c" "t_pc s t \<noteq> WExit"
      using m MJoin by (auto simp: main_step_def split: if_splits)
    ultimately show False
      using pcs [of t] created [of t] MJoin by (auto simp: created_upto_def)
  qed (use m nd in \<open>auto simp: main_step_def split: if_splits\<close>)
qed

text \<open>
  Every step decreases, lexicographically, the rounds left (with the phase of the round), the work
  left to the main thread in this phase, and the work left to all workers in this phase.
\<close>

definition rounds_left :: "thr_cfg \<Rightarrow> thr_state \<Rightarrow> nat" where
  "rounds_left c s = 3 * (number_of_nodes c - t_k s) +
     (case t_main s of MIncr \<Rightarrow> 1 | MKBarrier \<Rightarrow> 3 | _ \<Rightarrow> 2)"

definition main_left :: "thr_cfg \<Rightarrow> thr_state \<Rightarrow> nat" where
  "main_left c s =
     (case t_main s of
        MCreate i \<Rightarrow> 2 * (number_of_threads c - i) + number_of_threads c + 4
      | MCreateLocked i \<Rightarrow> 2 * (number_of_threads c - i) + number_of_threads c + 3
      | MTest \<Rightarrow> number_of_threads c + 3
      | MJoin i \<Rightarrow> (number_of_threads c - i) + 1
      | _ \<Rightarrow> 0)"

definition worker_left :: "thr_cfg \<Rightarrow> nat \<Rightarrow> worker_pc \<Rightarrow> nat" where
  "worker_left c t pc =
     (let n = number_of_nodes c; stop = t * rows_per_thread c + rows_per_thread c
      in case pc of
        WStart \<Rightarrow> rows_per_thread c * (3 * n + 2) + 4
      | WTest \<Rightarrow> rows_per_thread c * (3 * n + 2) + 3
      | WRow i \<Rightarrow> (stop - i) * (3 * n + 2) + 2
      | WCol i _ j \<Rightarrow> (stop - i - 1) * (3 * n + 2) + 3 * (n - j) + 3
      | WLocked i _ j \<Rightarrow> (stop - i - 1) * (3 * n + 2) + 3 * (n - j) + 2
      | WUnlock i _ j \<Rightarrow> (stop - i - 1) * (3 * n + 2) + 3 * (n - j) + 1
      | WBarrier \<Rightarrow> 1
      | WPast \<Rightarrow> 1
      | _ \<Rightarrow> 0)"

definition thr_left :: "thr_cfg \<Rightarrow> thr_state \<Rightarrow> nat" where
  "thr_left c s = (\<Sum>t<number_of_threads c. worker_left c t (t_pc s t))"

definition thr_order :: "thr_cfg \<Rightarrow> (thr_state \<times> thr_state) set" where
  "thr_order c = measures [rounds_left c, main_left c, thr_left c]"

lemma wf_thr_order: "wf (thr_order c)"
  by (simp add: thr_order_def)

lemma worker_decreases:
  assumes ok: "worker_ok c E (t_k s) t (t_pc s t) \<or> t_pc s t = WPast"
    and st: "worker_step c t s = Some s'"
  shows "worker_left c t (t_pc s' t) < worker_left c t (t_pc s t)"
proof (cases "t_pc s t")
  case (WRow i)
  let ?stop = "t * rows_per_thread c + rows_per_thread c"
  show ?thesis
  proof (cases "i < ?stop")
    case True
    then have "?stop - i = Suc (?stop - i - 1)" by simp
    then have "(?stop - i) * (3 * number_of_nodes c + 2) =
      (?stop - i - 1) * (3 * number_of_nodes c + 2) + (3 * number_of_nodes c + 2)"
      by (metis add.commute mult_Suc)
    with WRow st True show ?thesis
      by (auto simp: worker_step_def worker_left_def Let_def split: option.splits)
  next
    case False
    with WRow st show ?thesis by (auto simp: worker_step_def worker_left_def Let_def)
  qed
next
  case (WCol i ik j)
  then show ?thesis
    using st ok by (auto simp: worker_step_def worker_left_def Let_def split: if_splits)
next
  case (WUnlock i ik j)
  then show ?thesis
    using st ok by (auto simp: worker_step_def worker_left_def Let_def)
qed (use st in \<open>auto simp: worker_step_def worker_left_def Let_def split: option.splits if_splits\<close>)

lemma thr_left_worker:
  assumes pcs: "t_pc s' = (t_pc s)(t := pc)" and t: "t < number_of_threads c"
    and less: "worker_left c t pc < worker_left c t (t_pc s t)"
  shows "thr_left c s' < thr_left c s"
  unfolding thr_left_def
proof (rule sum_strict_mono_ex1)
  show "\<forall>u\<in>{..<number_of_threads c}. worker_left c u (t_pc s' u) \<le> worker_left c u (t_pc s u)"
    using less by (auto simp: pcs)
  show "\<exists>u\<in>{..<number_of_threads c}. worker_left c u (t_pc s' u) < worker_left c u (t_pc s u)"
    using less t by (auto simp: pcs intro!: bexI [of _ t])
qed simp

lemma thr_step_order:
  assumes i: "thr_inv c E s" and y: "sync_inv c s" and st: "thr_step c s s'"
  shows "(s', s) \<in> thr_order c"
  using st
proof cases
  case (worker t)
  have "worker_ok c E (t_k s) t (t_pc s t) \<or> t_pc s t = WPast \<or> t_pc s t = WKBarrier"
    using i worker(1) by (cases "t_main s") (auto simp: thr_inv_def working_def turning_def)
  moreover have "t_pc s t \<noteq> WKBarrier" using worker(2) by (auto simp: worker_step_def Let_def)
  ultimately have d: "worker_left c t (t_pc s' t) < worker_left c t (t_pc s t)"
    using worker_decreases [OF _ worker(2), where E = E] by blast
  obtain pc where pcs: "t_pc s' = (t_pc s)(t := pc)" using worker_step_shape(1) [OF worker(2)] by blast
  with d have "thr_left c s' < thr_left c s" using thr_left_worker [OF pcs worker(1)] by simp
  moreover have "rounds_left c s' = rounds_left c s" "main_left c s' = main_left c s"
    using worker_step_frame [OF worker(2)] by (simp_all add: rounds_left_def main_left_def)
  ultimately show ?thesis by (simp add: thr_order_def)
next
  case main
  have "t_main s = MCreateLocked t \<Longrightarrow> t < number_of_threads c" for t
    using y by (auto simp: sync_inv_def created_inv_def created_upto_def creating_def)
  moreover have "t_main s = MIncr \<Longrightarrow> t_k s < number_of_nodes c"
    using i by (simp add: thr_inv_def turning_def)
  ultimately have "rounds_left c s' < rounds_left c s \<or>
      rounds_left c s' = rounds_left c s \<and> main_left c s' < main_left c s"
    using main by (cases "t_main s")
      (auto simp: main_step_def rounds_left_def main_left_def split: if_splits)
  then show ?thesis by (auto simp: thr_order_def)
next
  case barrier
  then have "rounds_left c s' < rounds_left c s"
    by (auto simp: barrier_step_def rounds_left_def send_all_def split: main_pc.splits if_splits)
  then show ?thesis by (simp add: thr_order_def)
qed

text \<open>From every reachable state the program can run to its end, and every run is finite.\<close>

interpretation thr_ending: ending "thr_step c" "\<lambda>s. \<exists>m. s = thr_init m \<and> bit_fits (number_of_nodes c) m"
    "\<lambda>s. (\<exists>E. thr_inv c E s) \<and> sync_inv c s" "\<lambda>s. t_main s = MDone" "thr_order c" for c
proof unfold_locales
  show "\<exists>m. s = thr_init m \<and> bit_fits (number_of_nodes c) m \<Longrightarrow> (\<exists>E. thr_inv c E s) \<and> sync_inv c s" for s
    using thr_inv_reachable sync_reachable by blast
qed (use thr_inv_step sync_step thr_progress thr_step_order wf_thr_order in blast)+

section \<open>The result\<close>

lemma done_graph:
  assumes "thr_inv c E s" and "t_main s = MDone"
  shows "agree (number_of_nodes c) (thr_graph c E (number_of_nodes c)) (bit_edge (number_of_nodes c) (t_matrix s))"
  using assms by (auto simp: thr_inv_def working_def)

lemma cells_covered:
  assumes "number_of_threads c dvd number_of_nodes c"
  shows "covers (number_of_nodes c) (thr_cells c)"
  using assms by (simp add: covers_def thr_cells_def rows_per_thread_def)

lemma thr_end_closure:
  assumes "(thr_step c)\<^sup>*\<^sup>* (thr_init m) s" and "t_main s = MDone"
    and "bit_fits (number_of_nodes c) m" and "number_of_threads c dvd number_of_nodes c"
  shows "agree (number_of_nodes c) (bit_edge (number_of_nodes c) (t_matrix s))
    (path_closure (number_of_nodes c) (bit_edge (number_of_nodes c) m))"
  using done_graph [OF thr_inv_reachable [OF assms(1,3)] assms(2)] wrounds_closure [OF cells_covered [OF assms(4)]]
  by (simp add: agree_def thr_graph_def)

lemma idle_row:
  assumes i: "thr_inv c E s" and r: "number_of_threads c * rows_per_thread c \<le> i" "i < number_of_nodes c"
    and j: "j < number_of_nodes c"
  shows "bit_edge (number_of_nodes c) (t_matrix s) i j = E i j"
proof -
  have P: "\<And>b. \<not> thr_cells c i b" using r(1) by (simp add: thr_cells_def)
  then have g: "thr_graph c E k i j = E i j" for k
    unfolding thr_graph_def by (rule wrounds_unvisited)
  have "turning c E k s \<Longrightarrow> ?thesis" for k
    using g agreeD r j unfolding turning_def by metis
  moreover have "?thesis" if "working c E s"
  proof (cases "t_k s < number_of_nodes c")
    case True
    with that have "in_round (number_of_nodes c) (thr_cells c) (t_k s) (thr_graph c E (t_k s))
        (all_done c s) (bit_edge (number_of_nodes c) (t_matrix s))" by (simp add: working_def)
    then show ?thesis using g P r j unfolding in_round_def wround_def by metis
  next
    case False
    with that show ?thesis using g agreeD r j unfolding working_def by metis
  qed
  ultimately show ?thesis using i by (cases "t_main s") (auto simp: thr_inv_def)
qed

lemma thr_end_reachable:
  assumes "bit_fits (number_of_nodes c) m"
  shows "\<exists>s'. (thr_step c)\<^sup>*\<^sup>* (thr_init m) s' \<and> t_main s' = MDone"
  using thr_ending.can_end thr_ending.start_inv assms by blast

section \<open>Properties\<close>

text \<open>
  C1. When the number of threads divides the number of nodes, every interleaving of the threads of
  \<^verbatim>\<open>wtc_thr\<close> that runs to the end leaves exactly the transitive closure of the input graph in the
  bit matrix.
\<close>

theorem thr_computes_closure:
  assumes "(thr_step c)\<^sup>*\<^sup>* (thr_init m) s" and "t_main s = MDone"
    and "bit_fits (number_of_nodes c) m" and "number_of_threads c dvd number_of_nodes c"
    and "i < number_of_nodes c" and "j < number_of_nodes c"
  shows "bit_edge (number_of_nodes c) (t_matrix s) i j \<longleftrightarrow>
         path_closure (number_of_nodes c) (bit_edge (number_of_nodes c) m) i j"
  using agreeD [OF thr_end_closure [OF assms(1-4)] assms(5,6)] .

text \<open>
  C2. With at least one thread (the code divides by their number), \<^verbatim>\<open>wtc_thr\<close> ends whatever the
  interleaving: a reachable state that is not the end has a next
  step (no deadlock at the locks, the barriers or the joins), and there is no infinite run.
\<close>

theorem thr_terminates:
  assumes "bit_fits (number_of_nodes c) m" and "0 < number_of_threads c"
  shows "((thr_step c)\<^sup>*\<^sup>* (thr_init m) s \<longrightarrow> t_main s \<noteq> MDone \<longrightarrow> (\<exists>s'. thr_step c s s')) \<and>
         \<not> (\<exists>f. f 0 = thr_init m \<and> (\<forall>i. thr_step c (f i) (f (Suc i))))"
  using thr_ending.never_stuck [where ?s0.0 = "thr_init m"] thr_ending.no_infinite_run [where ?s0.0 = "thr_init m"] assms by blast

text \<open>
  C38. No thread of \<^verbatim>\<open>wtc_thr\<close> ever reads or writes outside the bit array, also when the threads do not divide
  the nodes evenly, and at most one thread is between \<^verbatim>\<open>pthread_mutex_lock(&mutexmatrix)\<close> and the
  matching unlock, so the read-modify-write of \<^verbatim>\<open>bit_array_set\<close> on a shared byte is never interleaved
  with another one.
\<close>

theorem thr_exclusive_and_safe:
  assumes "(thr_step c)\<^sup>*\<^sup>* (thr_init m) s" and "bit_fits (number_of_nodes c) m"
    and "t < number_of_threads c"
  shows "t_pc s t \<noteq> WFault \<and> (critical (t_pc s t) \<and> critical (t_pc s u) \<longrightarrow> t = u)"
  using no_fault [OF thr_inv_reachable [OF assms(1,2)] assms(3)] sync_reachable [OF assms(1)]
  by (metis lock_inv_def option.inject sync_inv_def)

text \<open>
  The rows from \<open>T * (n div T)\<close> on belong to no thread: \<^verbatim>\<open>length\<close> is rounded down, so when \<open>T\<close> does
  not divide \<open>n\<close> these rows still hold the input edges when \<^verbatim>\<open>wtc_thr\<close> prints its result.
\<close>

theorem thr_remainder_rows_untouched:
  assumes "(thr_step c)\<^sup>*\<^sup>* (thr_init m) s" and "bit_fits (number_of_nodes c) m"
    and "number_of_threads c * rows_per_thread c \<le> i" and "i < number_of_nodes c"
    and "j < number_of_nodes c"
  shows "bit_edge (number_of_nodes c) (t_matrix s) i j = bit_edge (number_of_nodes c) m i j"
  using idle_row [OF thr_inv_reachable [OF assms(1,2)] assms(3-5)] .

section \<open>Concrete runs\<close>

text \<open>Two threads, the two-vertex cycle \<open>1 \<rightarrow> 2 \<rightarrow> 1\<close>: cells 1 and 2 of the first byte.\<close>

definition sample_cfg :: thr_cfg where
  "sample_cfg = \<lparr>number_of_threads = 2, number_of_nodes = 2\<rparr>"

definition sample_run :: "mover list" where
  "sample_run = [
     Main, Main, Worker 0, Main, Worker 0, Main, Worker 0, Worker 1, Main, Worker 0, Worker
     1, Main, Worker 0, Worker 1, Worker 0, Worker 1, Worker 1, Worker 1, Worker 0, Worker
     0, Worker 0, Worker 1, Worker 0, Worker 1, Worker 0, Worker 1, Worker 1, Worker 1,
     Barrier, Worker 0, Worker 1, Main, Barrier, Worker 0, Worker 1, Main, Worker 0, Worker
     1, Worker 0, Worker 0, Worker 0, Worker 1, Worker 1, Worker 1, Worker 0, Worker 0,
     Worker 0, Worker 1, Worker 0, Worker 1, Worker 0, Worker 1, Worker 1, Worker 1,
     Barrier, Worker 0, Worker 1, Main, Barrier, Worker 0, Worker 1, Main, Main, Main, Main]"

lemma sample_run_end:
  "map_option (\<lambda>s. (t_main s, t_matrix s)) (thr_run sample_cfg sample_run (thr_init [6])) = Some (MDone, [15])"
  by code_simp

lemma sample_fits: "bit_fits (number_of_nodes sample_cfg) [6]"
  by (simp add: bit_fits_def sample_cfg_def bit_room_def)

lemma sample_reached:
  "\<exists>s. (thr_step sample_cfg)\<^sup>*\<^sup>* (thr_init [6]) s \<and> t_main s = MDone \<and> t_matrix s = [15]"
  using sample_run_end by (auto intro: thr_run_steps)

theorem thr_computes_closure_witness:
  "\<exists>s. (thr_step sample_cfg)\<^sup>*\<^sup>* (thr_init [6]) s \<and> t_main s = MDone \<and>
       (bit_edge 2 (t_matrix s) 0 0 \<longleftrightarrow> path_closure 2 (bit_edge 2 [6]) 0 0)"
proof -
  obtain s where s: "(thr_step sample_cfg)\<^sup>*\<^sup>* (thr_init [6]) s" "t_main s = MDone"
    using sample_reached by blast
  have "bit_edge 2 (t_matrix s) 0 0 \<longleftrightarrow> path_closure 2 (bit_edge 2 [6]) 0 0"
    using thr_computes_closure [OF s sample_fits, of 0 0] by (simp add: sample_cfg_def)
  with s show ?thesis by blast
qed

theorem thr_terminates_witness:
  "\<not> (\<exists>f. f 0 = thr_init [6] \<and> (\<forall>i. thr_step sample_cfg (f i) (f (Suc i))))"
  using thr_terminates [OF sample_fits, of "thr_init [6]"] by (simp add: sample_cfg_def)

lemma sample_critical:
  "map_option (\<lambda>s. critical (t_pc s 0)) (thr_run sample_cfg (take 14 sample_run) (thr_init [6])) = Some True"
  by code_simp

theorem thr_exclusive_and_safe_witness:
  "\<exists>s. (thr_step sample_cfg)\<^sup>*\<^sup>* (thr_init [6]) s \<and> critical (t_pc s 0) \<and> \<not> critical (t_pc s 1) \<and> t_pc s 0 \<noteq> WFault"
proof -
  obtain s where s: "thr_run sample_cfg (take 14 sample_run) (thr_init [6]) = Some s" "critical (t_pc s 0)"
    using sample_critical by auto
  have "t_pc s 0 \<noteq> WFault \<and> (critical (t_pc s 0) \<and> critical (t_pc s 1) \<longrightarrow> 0 = (1::nat))"
    using thr_exclusive_and_safe [OF thr_run_steps [OF s(1)] sample_fits, of 0 1] by (simp add: sample_cfg_def)
  then show ?thesis using s(2) thr_run_steps [OF s(1)] by auto
qed

text \<open>
  Two threads and three vertices, edges \<open>1 \<rightarrow> 2\<close> and \<open>3 \<rightarrow> 1\<close>: the third row is nobody's, and the edge
  \<open>3 \<rightarrow> 2\<close> of the closure is missing at the end.
\<close>

definition uneven_cfg :: thr_cfg where
  "uneven_cfg = \<lparr>number_of_threads = 2, number_of_nodes = 3\<rparr>"

definition uneven_run :: "mover list" where
  "uneven_run = [
     Main, Main, Worker 0, Main, Worker 0, Main, Worker 0, Worker 1, Main, Worker 0, Worker
     1, Main, Worker 0, Worker 1, Worker 0, Worker 1, Worker 1, Worker 1, Worker 0, Worker
     0, Worker 0, Worker 1, Worker 1, Worker 1, Worker 0, Worker 0, Worker 0, Worker 1,
     Worker 0, Worker 1, Worker 0, Worker 1, Worker 1, Worker 1, Barrier, Worker 0, Worker
     1, Main, Barrier, Worker 0, Worker 1, Main, Worker 0, Worker 1, Worker 0, Worker 0,
     Worker 0, Worker 1, Worker 1, Worker 1, Worker 0, Worker 0, Worker 0, Worker 1, Worker
     1, Worker 1, Worker 0, Worker 0, Worker 0, Worker 1, Worker 0, Worker 1, Worker 0,
     Worker 1, Worker 1, Worker 1, Barrier, Worker 0, Worker 1, Main, Barrier, Worker 0,
     Worker 1, Main, Worker 0, Worker 1, Worker 0, Worker 0, Worker 0, Worker 1, Worker 1,
     Worker 1, Worker 0, Worker 0, Worker 0, Worker 1, Worker 1, Worker 1, Worker 0, Worker
     0, Worker 0, Worker 1, Worker 0, Worker 1, Worker 0, Worker 1, Worker 1, Worker 1,
     Barrier, Worker 0, Worker 1, Main, Barrier, Worker 0, Worker 1, Main, Main, Main, Main]"

lemma uneven_run_end:
  "map_option t_main (thr_run uneven_cfg uneven_run (thr_init [66, 0])) = Some MDone"
  by code_simp

theorem thr_remainder_rows_untouched_witness:
  "\<exists>s. (thr_step uneven_cfg)\<^sup>*\<^sup>* (thr_init [66, 0]) s \<and> t_main s = MDone \<and>
       \<not> bit_edge 3 (t_matrix s) 2 1 \<and> path_closure 3 (bit_edge 3 [66, 0]) 2 1"
proof -
  obtain s where s: "(thr_step uneven_cfg)\<^sup>*\<^sup>* (thr_init [66, 0]) s" "t_main s = MDone"
    using uneven_run_end by (auto intro: thr_run_steps)
  have fits: "bit_fits (number_of_nodes uneven_cfg) [66, 0]"
    by (simp add: bit_fits_def uneven_cfg_def bit_room_def)
  have "bit_edge 3 (t_matrix s) 2 1 = bit_edge 3 [66, 0] 2 1"
    using thr_remainder_rows_untouched [OF s(1) fits, of 2 1]
    by (simp add: uneven_cfg_def rows_per_thread_def)
  moreover have "\<not> bit_edge 3 [66, 0] 2 1" "bit_edge 3 [66, 0] 2 0" "bit_edge 3 [66, 0] 0 1"
    by code_simp+
  moreover from this(2,3) have "path_closure 3 (bit_edge 3 [66, 0]) 2 1"
    unfolding path_closure_def by (intro trancl_into_trancl [OF r_into_trancl, of 2 0]) simp_all
  ultimately show ?thesis using s by blast
qed

end
