(* ===== verification/Thread_Bag.thy ===== *)
theory Thread_Bag
  imports Matrix_Cells
begin

text \<open>
  The bag-of-tasks threads of \<^verbatim>\<open>Project_1/Stuff/wtc_btthr.c\<close>: the workers take the rows of a round from
  the global \<^verbatim>\<open>queue\<close>, counted down to -1 under \<^verbatim>\<open>mutexqueue\<close>, and the main thread refills it before each
  round. The refill is the constant 10, not the number of the last row, and this theory shows what
  follows for other numbers of nodes than 11. A worker's \<^verbatim>\<open>i\<close> has no value until its first row; its use
  before that, like an access outside the bit array, is the fault of the worker.
\<close>

section \<open>State\<close>

datatype taker_pc =
    TNew | TTest | TKBarrierA | TCheck | TLockQ | TTake | TUnlockQ | TRead
  | TCol u32 nat | TUpdate u32 nat | TUnlock u32 nat | TBarrier | TKBarrierC | TExit | TFault

datatype filler_pc =
    FCreate nat | FInit | FTest | FLockQ | FFill | FUnlockQ | FKBarrierA | FBarrier | FIncr | FKBarrierC
  | FJoin nat | FDone

record btt_state =
  q_k :: nat
  q_queue :: int
  q_matrix :: bit_array
  q_mutexqueue :: "nat option"
  q_mutexmatrix :: "nat option"
  q_i :: "nat \<Rightarrow> int option"
  q_pc :: "nat \<Rightarrow> taker_pc"
  q_main :: filler_pc

text \<open>The main thread is number \<open>T\<close> as a holder of \<^verbatim>\<open>mutexqueue\<close>.\<close>

definition btt_init :: "nat \<Rightarrow> bit_array \<Rightarrow> btt_state" where
  "btt_init n m = \<lparr>q_k = 0, q_queue = int n, q_matrix = m, q_mutexqueue = None, q_mutexmatrix = None,
                   q_i = (\<lambda>_. None), q_pc = (\<lambda>_. TNew), q_main = FCreate 0\<rparr>"

section \<open>Steps\<close>

definition tgoto :: "nat \<Rightarrow> taker_pc \<Rightarrow> btt_state \<Rightarrow> btt_state" where
  "tgoto t pc s = s\<lparr>q_pc := (q_pc s)(t := pc)\<rparr>"

definition row_cell :: "nat \<Rightarrow> int \<Rightarrow> nat \<Rightarrow> u32" where
  "row_cell n i j = word_of_int (i * int n + int j)"

definition update_row_cell :: "nat \<Rightarrow> nat \<Rightarrow> int \<Rightarrow> u32 \<Rightarrow> nat \<Rightarrow> bit_array \<Rightarrow> bit_array option" where
  "update_row_cell n k i ik j m =
     (if ik = 0 then Some m
      else case bit_array_get m (cell n k j) of
        None \<Rightarrow> None
      | Some kj \<Rightarrow> if kj \<noteq> 0 then bit_array_set m (row_cell n i j) else Some m)"

definition taker_step :: "nat \<Rightarrow> nat \<Rightarrow> btt_state \<Rightarrow> btt_state option" where
  "taker_step n t s =
     (case q_pc s t of
        TTest \<Rightarrow> Some (tgoto t (if q_k s < n then TKBarrierA else TExit) s)
      | TCheck \<Rightarrow> Some (tgoto t (if q_queue s \<noteq> - 1 then TLockQ else TBarrier) s)
      | TLockQ \<Rightarrow> if q_mutexqueue s = None then Some (tgoto t TTake (s\<lparr>q_mutexqueue := Some t\<rparr>)) else None
      | TTake \<Rightarrow>
          Some (tgoto t TUnlockQ
            (if q_queue s \<noteq> - 1 then s\<lparr>q_i := (q_i s)(t := Some (q_queue s)), q_queue := q_queue s - 1\<rparr> else s))
      | TUnlockQ \<Rightarrow> Some (tgoto t TRead (s\<lparr>q_mutexqueue := None\<rparr>))
      | TRead \<Rightarrow>
          (case q_i s t of
             None \<Rightarrow> Some (tgoto t TFault s)
           | Some i \<Rightarrow>
               (case bit_array_get (q_matrix s) (row_cell n i (q_k s)) of
                  None \<Rightarrow> Some (tgoto t TFault s)
                | Some ik \<Rightarrow> Some (tgoto t (TCol ik 0) s)))
      | TCol ik j \<Rightarrow>
          if j < n
          then (if q_mutexmatrix s = None then Some (tgoto t (TUpdate ik j) (s\<lparr>q_mutexmatrix := Some t\<rparr>)) else None)
          else Some (tgoto t TCheck s)
      | TUpdate ik j \<Rightarrow>
          (case q_i s t of
             None \<Rightarrow> Some (tgoto t TFault s)
           | Some i \<Rightarrow>
               (case update_row_cell n (q_k s) i ik j (q_matrix s) of
                  None \<Rightarrow> Some (tgoto t TFault s)
                | Some m \<Rightarrow> Some (tgoto t (TUnlock ik j) (s\<lparr>q_matrix := m\<rparr>))))
      | TUnlock ik j \<Rightarrow> Some (tgoto t (TCol ik (j + 1)) (s\<lparr>q_mutexmatrix := None\<rparr>))
      | _ \<Rightarrow> None)"

definition filler_step :: "nat \<Rightarrow> nat \<Rightarrow> btt_state \<Rightarrow> btt_state option" where
  "filler_step n T s =
     (case q_main s of
        FCreate i \<Rightarrow> if i < T then Some ((tgoto i TTest s)\<lparr>q_main := FCreate (i + 1)\<rparr>) else Some (s\<lparr>q_main := FInit\<rparr>)
      | FInit \<Rightarrow> Some (s\<lparr>q_k := 0, q_main := FTest\<rparr>)
      | FTest \<Rightarrow> Some (s\<lparr>q_main := (if q_k s < n then FLockQ else FJoin 0)\<rparr>)
      | FLockQ \<Rightarrow> if q_mutexqueue s = None then Some (s\<lparr>q_mutexqueue := Some T, q_main := FFill\<rparr>) else None
      | FFill \<Rightarrow> Some (s\<lparr>q_queue := 10, q_main := FUnlockQ\<rparr>)
      | FUnlockQ \<Rightarrow> Some (s\<lparr>q_mutexqueue := None, q_main := FKBarrierA\<rparr>)
      | FIncr \<Rightarrow> Some (s\<lparr>q_k := q_k s + 1, q_main := FKBarrierC\<rparr>)
      | FJoin i \<Rightarrow>
          if i < T then (if q_pc s i = TExit then Some (s\<lparr>q_main := FJoin (i + 1)\<rparr>) else None)
          else Some (s\<lparr>q_main := FDone\<rparr>)
      | _ \<Rightarrow> None)"

text \<open>
  \<^verbatim>\<open>kbarrier\<close> is used twice per round: whoever waits at it goes on behind its own call once all \<open>T + 1\<close>
  threads have arrived.
\<close>

definition at_kbarrier :: "taker_pc \<Rightarrow> bool" where
  "at_kbarrier pc \<longleftrightarrow> pc = TKBarrierA \<or> pc = TKBarrierC"

definition past_kbarrier :: "taker_pc \<Rightarrow> taker_pc" where
  "past_kbarrier pc = (if pc = TKBarrierA then TCheck else if pc = TKBarrierC then TTest else pc)"

definition btt_barrier_step :: "nat \<Rightarrow> btt_state \<Rightarrow> btt_state option" where
  "btt_barrier_step T s =
     (let meet = (\<lambda>p. list_all (\<lambda>t. p (q_pc s t)) [0..<T])
      in case q_main s of
        FKBarrierA \<Rightarrow>
          if meet at_kbarrier then Some (s\<lparr>q_pc := (\<lambda>t. past_kbarrier (q_pc s t)), q_main := FBarrier\<rparr>) else None
      | FBarrier \<Rightarrow>
          if meet (\<lambda>pc. pc = TBarrier)
          then Some (s\<lparr>q_pc := (\<lambda>t. if q_pc s t = TBarrier then TKBarrierC else q_pc s t), q_main := FIncr\<rparr>) else None
      | FKBarrierC \<Rightarrow>
          if meet at_kbarrier then Some (s\<lparr>q_pc := (\<lambda>t. past_kbarrier (q_pc s t)), q_main := FTest\<rparr>) else None
      | _ \<Rightarrow> None)"

inductive btt_step :: "nat \<Rightarrow> nat \<Rightarrow> btt_state \<Rightarrow> btt_state \<Rightarrow> bool" for n T where
  taker: "t < T \<Longrightarrow> taker_step n t s = Some s' \<Longrightarrow> btt_step n T s s'"
| filler: "filler_step n T s = Some s' \<Longrightarrow> btt_step n T s s'"
| btt_barrier: "btt_barrier_step T s = Some s' \<Longrightarrow> btt_step n T s s'"

datatype btt_mover = Taker nat | Filler | Gather

definition btt_move :: "nat \<Rightarrow> nat \<Rightarrow> btt_mover \<Rightarrow> btt_state \<Rightarrow> btt_state option" where
  "btt_move n T a s =
     (case a of Taker t \<Rightarrow> if t < T then taker_step n t s else None
      | Filler \<Rightarrow> filler_step n T s
      | Gather \<Rightarrow> btt_barrier_step T s)"

definition btt_run :: "nat \<Rightarrow> nat \<Rightarrow> btt_mover list \<Rightarrow> btt_state \<Rightarrow> btt_state option" where
  "btt_run n T = runs (btt_move n T)"

lemma btt_run_steps: "btt_run n T as s = Some s' \<Longrightarrow> (btt_step n T)\<^sup>*\<^sup>* s s'"
  unfolding btt_run_def
  by (erule runs_steps) (auto simp: btt_move_def split: btt_mover.splits if_splits intro: btt_step.intros)

lemma tgoto_simps [simp]:
  "q_pc (tgoto t pc s) = (q_pc s)(t := pc)" "q_k (tgoto t pc s) = q_k s" "q_queue (tgoto t pc s) = q_queue s"
  "q_matrix (tgoto t pc s) = q_matrix s" "q_i (tgoto t pc s) = q_i s" "q_main (tgoto t pc s) = q_main s"
  "q_mutexqueue (tgoto t pc s) = q_mutexqueue s" "q_mutexmatrix (tgoto t pc s) = q_mutexmatrix s"
  by (simp_all add: tgoto_def)

lemma taker_frame [frame]: "taker_step n t s = Some s' \<Longrightarrow> q_main s' = q_main s \<and> q_k s' = q_k s"
  by (auto simp: taker_step_def split: taker_pc.splits option.splits if_splits)

section \<open>The rows that are handed out\<close>

text \<open>The part of a worker between its two barriers of the round.\<close>

definition in_bag :: "taker_pc \<Rightarrow> bool" where
  "in_bag pc \<longleftrightarrow> (case pc of TCheck \<Rightarrow> True | TLockQ \<Rightarrow> True | TTake \<Rightarrow> True | TUnlockQ \<Rightarrow> True | TRead \<Rightarrow> True
     | TCol _ _ \<Rightarrow> True | TUpdate _ _ \<Rightarrow> True | TUnlock _ _ \<Rightarrow> True | _ \<Rightarrow> False)"

fun col_below :: "nat \<Rightarrow> taker_pc \<Rightarrow> bool" where
  "col_below n (TUpdate _ j) = (j < n)"
| "col_below n _ = True"

definition filled :: "btt_state \<Rightarrow> bool" where
  "filled s \<longleftrightarrow> - 1 \<le> q_queue s \<and> q_queue s \<le> 10"

definition rows_inv :: "nat \<Rightarrow> nat \<Rightarrow> graph \<Rightarrow> btt_state \<Rightarrow> bool" where
  "rows_inv n T E s \<longleftrightarrow>
     bit_fits n (q_matrix s) \<and>
     (\<forall>i j. 11 \<le> i \<longrightarrow> i < n \<longrightarrow> j < n \<longrightarrow> bit_edge n (q_matrix s) i j = E i j) \<and>
     (\<forall>t<T. q_main s \<noteq> FBarrier \<longrightarrow> \<not> in_bag (q_pc s t)) \<and>
     (\<forall>t<T. col_below n (q_pc s t)) \<and>
     (\<forall>t<T. \<forall>i. q_i s t = Some i \<longrightarrow> 0 \<le> i \<and> i \<le> 10) \<and>
     (q_main s \<in> {FUnlockQ, FKBarrierA, FBarrier} \<longrightarrow> filled s)"

lemma row_cell_nat: "0 \<le> i \<Longrightarrow> row_cell n i j = cell n (nat i) j"
  by (simp add: row_cell_def cell_def)

lemma update_row_cases:
  assumes "update_row_cell n k i ik j m = Some m'"
  shows "m' = m \<or> bit_array_set m (row_cell n i j) = Some m'"
proof (cases "ik = 0")
  case False
  then obtain kj where kj: "bit_array_get m (cell n k j) = Some kj"
    using assms by (auto simp: update_row_cell_def split: option.splits)
  show ?thesis
  proof (cases "kj = 0")
    case True
    then show ?thesis using assms False kj by (simp add: update_row_cell_def)
  next
    case False
    then show ?thesis using assms \<open>ik \<noteq> 0\<close> kj by (simp add: update_row_cell_def)
  qed
qed (use assms in \<open>simp add: update_row_cell_def\<close>)

lemma update_row_keeps:
  assumes "bit_fits n m" and "0 \<le> i" and "i \<le> 10" and "11 \<le> n" and "j < n"
    and "update_row_cell n k i ik j m = Some m'"
  shows "bit_fits n m' \<and> (\<forall>a b. 11 \<le> a \<longrightarrow> a < n \<longrightarrow> b < n \<longrightarrow> bit_edge n m' a b = bit_edge n m a b)"
proof -
  have i: "nat i < n" using assms(2-4) by linarith
  have "m' = m \<or> bit_connect n (nat i) j m = Some m'"
    using update_row_cases [OF assms(6)] by (simp add: bit_connect_def row_cell_nat [OF assms(2)])
  then consider "m' = m" | "bit_connect n (nat i) j m = Some m'" by blast
  then show ?thesis
  proof cases
    case 2
    have "agree n (bit_edge n m') (\<lambda>a b. bit_edge n m a b \<or> a = nat i \<and> b = j)"
      using bit_matrix.edge_connect [OF assms(1) i assms(5) 2] .
    then have e: "bit_edge n m' a b \<longleftrightarrow> bit_edge n m a b \<or> a = nat i \<and> b = j" if "a < n" "b < n" for a b
      using that by (simp only: agree_def)
    have "a \<noteq> nat i" if "11 \<le> a" for a using that assms(3) by linarith
    with e have "bit_edge n m' a b = bit_edge n m a b" if "11 \<le> a" "a < n" "b < n" for a b
      using that by blast
    then show ?thesis using bit_matrix.connect_fits [OF assms(1) i assms(5) 2] by blast
  qed (use assms(1) in simp)
qed

lemma rows_inv_taker:
  assumes r: "rows_inv n T E s" and n: "11 \<le> n" and t: "t < T" and st: "taker_step n t s = Some s'"
  shows "rows_inv n T E s'"
proof -
  have fr: "q_main s' = q_main s" using taker_frame [OF st] by simp
  have own: "\<not> in_bag (q_pc s t)" if "q_main s \<noteq> FBarrier" using r t that by (simp add: rows_inv_def)
  then have in_bag_here: "in_bag (q_pc s t) \<Longrightarrow> q_main s = FBarrier" by blast
  have i: "0 \<le> i \<and> i \<le> 10" if "q_i s t = Some i" for i using r t that by (simp add: rows_inv_def)
  have col: "col_below n (q_pc s t)" using r t by (simp add: rows_inv_def)
  show ?thesis
  proof (cases "q_pc s t")
    case TTake
    then have b: "q_main s = FBarrier" using own by (auto simp: in_bag_def)
    then have f: "filled s" using r by (simp add: rows_inv_def)
    show ?thesis
    proof (cases "q_queue s = - 1")
      case True
      then have "s' = tgoto t TUnlockQ s" using st TTake by (simp add: taker_step_def)
      then show ?thesis using r b by (auto simp: rows_inv_def filled_def)
    next
      case False
      then have s': "s' = tgoto t TUnlockQ (s\<lparr>q_i := (q_i s)(t := Some (q_queue s)), q_queue := q_queue s - 1\<rparr>)"
        using st TTake by (simp add: taker_step_def)
      have "0 \<le> q_queue s" "q_queue s \<le> 10" using f False by (auto simp: filled_def)
      then show ?thesis using r b by (auto simp: s' tgoto_def rows_inv_def filled_def)
    qed
  next
    case (TUpdate ik j)
    then have b: "q_main s = FBarrier" and j: "j < n" using own col by (auto simp: in_bag_def)
    show ?thesis
    proof (cases "q_i s t")
      case None
      then have "s' = tgoto t TFault s" using st TUpdate by (simp add: taker_step_def)
      then show ?thesis using r b by (auto simp: rows_inv_def filled_def)
    next
      case (Some i0)
      note i0 = i [OF Some]
      show ?thesis
      proof (cases "update_row_cell n (q_k s) i0 ik j (q_matrix s)")
        case None
        then have "s' = tgoto t TFault s" using st TUpdate Some by (simp add: taker_step_def)
        then show ?thesis using r b by (auto simp: rows_inv_def filled_def)
      next
        case u: (Some m')
        then have s': "s' = tgoto t (TUnlock ik j) (s\<lparr>q_matrix := m'\<rparr>)"
          using st TUpdate Some by (simp add: taker_step_def)
        have "bit_fits n (q_matrix s)" using r by (simp add: rows_inv_def)
        from update_row_keeps [OF this _ _ n j u] i0
        have "bit_fits n m'" "\<forall>a b. 11 \<le> a \<longrightarrow> a < n \<longrightarrow> b < n \<longrightarrow> bit_edge n m' a b = bit_edge n (q_matrix s) a b"
          by simp_all
        then show ?thesis using r b by (simp add: s' tgoto_def rows_inv_def filled_def)
      qed
    qed
  qed (use st r in_bag_here in \<open>auto simp: taker_step_def rows_inv_def filled_def tgoto_def in_bag_def
    split: if_splits option.splits\<close>)
qed

lemma rows_inv_filler:
  assumes "rows_inv n T E s" and "filler_step n T s = Some s'"
  shows "rows_inv n T E s'"
  using assms by (cases "q_main s") (auto simp: filler_step_def rows_inv_def filled_def in_bag_def split: if_splits)

lemma past_kbarrier_in_bag:
  "at_kbarrier pc \<Longrightarrow> in_bag (past_kbarrier pc) \<longleftrightarrow> pc = TKBarrierA"
  "col_below n (past_kbarrier pc) = col_below n pc"
  by (auto simp: at_kbarrier_def past_kbarrier_def in_bag_def)

lemma rows_inv_barrier:
  assumes r: "rows_inv n T E s" and st: "btt_barrier_step T s = Some s'"
    and A: "q_main s = FKBarrierC \<Longrightarrow> \<forall>t<T. q_pc s t \<noteq> TKBarrierA"
  shows "rows_inv n T E s'"
proof (cases "q_main s")
  case FKBarrierA
  then show ?thesis
    using r st by (auto simp: btt_barrier_step_def rows_inv_def filled_def past_kbarrier_in_bag split: if_splits)
next
  case FBarrier
  then show ?thesis
    using r st by (auto simp: btt_barrier_step_def rows_inv_def filled_def in_bag_def list_all_iff split: if_splits)
next
  case FKBarrierC
  then have "\<forall>t<T. at_kbarrier (q_pc s t)"
    and s': "s' = s\<lparr>q_pc := (\<lambda>t. past_kbarrier (q_pc s t)), q_main := FTest\<rparr>"
    using st by (auto simp: btt_barrier_step_def list_all_iff split: if_splits)
  with A [OF FKBarrierC] have "\<forall>t<T. \<not> in_bag (past_kbarrier (q_pc s t))"
    using past_kbarrier_in_bag(1) by blast
  then show ?thesis using r by (simp add: s' rows_inv_def past_kbarrier_in_bag(2))
qed (use st in \<open>auto simp: btt_barrier_step_def\<close>)

text \<open>Where the workers are while the main thread turns the round over.\<close>

definition phase_inv :: "nat \<Rightarrow> btt_state \<Rightarrow> bool" where
  "phase_inv T s \<longleftrightarrow>
     (\<forall>t<T. case q_main s of
        FBarrier \<Rightarrow> in_bag (q_pc s t) \<or> q_pc s t = TBarrier \<or> q_pc s t = TFault
      | FIncr \<Rightarrow> q_pc s t = TKBarrierC
      | FKBarrierC \<Rightarrow> q_pc s t = TKBarrierC
      | _ \<Rightarrow> q_pc s t \<in> {TNew, TTest, TKBarrierA, TExit})"

lemma taker_phase:
  assumes "taker_step n t s = Some s'"
  shows "\<exists>pc. q_pc s' = (q_pc s)(t := pc) \<and>
    (if q_pc s t = TTest then pc = TKBarrierA \<or> pc = TExit
     else in_bag (q_pc s t) \<and> (in_bag pc \<or> pc = TBarrier \<or> pc = TFault))"
  using assms
  by (cases "q_pc s t") (auto simp: taker_step_def in_bag_def tgoto_def split: option.splits if_splits)

lemma phase_inv_taker:
  assumes p: "phase_inv T s" and t: "t < T" and st: "taker_step n t s = Some s'"
  shows "phase_inv T s'"
proof -
  obtain pc where pcs: "q_pc s' = (q_pc s)(t := pc)" and d: "if q_pc s t = TTest then pc = TKBarrierA \<or> pc = TExit
     else in_bag (q_pc s t) \<and> (in_bag pc \<or> pc = TBarrier \<or> pc = TFault)"
    using taker_phase [OF st] by blast
  have own: "case q_main s of
        FBarrier \<Rightarrow> in_bag (q_pc s t) \<or> q_pc s t = TBarrier \<or> q_pc s t = TFault
      | FIncr \<Rightarrow> q_pc s t = TKBarrierC
      | FKBarrierC \<Rightarrow> q_pc s t = TKBarrierC
      | _ \<Rightarrow> q_pc s t \<in> {TNew, TTest, TKBarrierA, TExit}"
    using p t by (simp only: phase_inv_def)
  have "q_main s' = q_main s" using taker_frame [OF st] by simp
  then show ?thesis
    using p own d pcs unfolding phase_inv_def
    by (cases "q_main s") (auto simp: in_bag_def split: if_splits)
qed

lemma phase_inv_filler:
  "phase_inv T s \<Longrightarrow> filler_step n T s = Some s' \<Longrightarrow> phase_inv T s'"
  by (cases "q_main s") (auto simp: filler_step_def phase_inv_def split: if_splits)

lemma phase_inv_barrier:
  assumes p: "phase_inv T s" and st: "btt_barrier_step T s = Some s'"
  shows "phase_inv T s'"
proof (cases "q_main s")
  case FKBarrierA
  then have "\<forall>t<T. at_kbarrier (q_pc s t)" "\<forall>t<T. q_pc s t \<noteq> TKBarrierC"
    and s': "s' = s\<lparr>q_pc := (\<lambda>t. past_kbarrier (q_pc s t)), q_main := FBarrier\<rparr>"
    using p st by (auto simp: btt_barrier_step_def phase_inv_def list_all_iff split: if_splits)
  then have "\<forall>t<T. in_bag (past_kbarrier (q_pc s t))"
    using past_kbarrier_in_bag(1) at_kbarrier_def by metis
  then show ?thesis by (simp add: s' phase_inv_def)
next
  case FBarrier
  then show ?thesis
    using st by (auto simp: btt_barrier_step_def phase_inv_def list_all_iff split: if_splits)
next
  case FKBarrierC
  then show ?thesis
    using p st by (auto simp: btt_barrier_step_def phase_inv_def past_kbarrier_def split: if_splits)
qed (use st in \<open>auto simp: btt_barrier_step_def\<close>)

lemma phase_inv_step: "phase_inv T s \<Longrightarrow> btt_step n T s s' \<Longrightarrow> phase_inv T s'"
  by (auto elim!: btt_step.cases intro: phase_inv_taker phase_inv_filler phase_inv_barrier)

lemma phase_inv_init: "phase_inv T (btt_init n m)"
  by (simp add: phase_inv_def btt_init_def)

lemma rows_inv_step:
  assumes "11 \<le> n" and "phase_inv T s" and "rows_inv n T E s" and "btt_step n T s s'"
  shows "rows_inv n T E s'"
  using assms(4)
proof cases
  case (taker t)
  then show ?thesis using rows_inv_taker [OF assms(3,1)] by blast
next
  case filler
  then show ?thesis using rows_inv_filler [OF assms(3)] by blast
next
  case btt_barrier
  have "q_main s = FKBarrierC \<Longrightarrow> \<forall>t<T. q_pc s t \<noteq> TKBarrierA"
    using assms(2) by (auto simp: phase_inv_def)
  with btt_barrier show ?thesis using rows_inv_barrier [OF assms(3)] by blast
qed

lemma rows_inv_init: "bit_fits n m \<Longrightarrow> rows_inv n T (bit_edge n m) (btt_init n m)"
  by (simp add: rows_inv_def btt_init_def in_bag_def)

section \<open>Small graphs\<close>

text \<open>In the first round the row 10 is handed out before a worker can reach the barrier.\<close>

definition ten_taken :: "nat \<Rightarrow> btt_state \<Rightarrow> bool" where
  "ten_taken t s \<longleftrightarrow> q_i s t = Some 10 \<and> q_pc s t \<in> {TUnlockQ, TRead, TFault}"

definition ten_inv :: "nat \<Rightarrow> nat \<Rightarrow> btt_state \<Rightarrow> bool" where
  "ten_inv n T s \<longleftrightarrow> q_k s = 0 \<and> bit_room (q_matrix s) \<le> 10 * n \<and>
     q_main s \<notin> {FIncr, FKBarrierC, FDone} \<and> (\<forall>i. q_main s \<noteq> FJoin i) \<and>
     (q_main s \<in> {FUnlockQ, FKBarrierA} \<longrightarrow> q_queue s = 10) \<and>
     (q_main s = FBarrier \<longrightarrow>
        q_queue s = 10 \<and> (\<forall>t<T. q_pc s t \<noteq> TBarrier) \<or> (\<exists>t<T. ten_taken t s))"

lemma room_update: "update_row_cell n k i ik j m = Some m' \<Longrightarrow> bit_room m' = bit_room m"
  using update_row_cases bits.put_room by metis

lemma taker_room: "taker_step n t s = Some s' \<Longrightarrow> bit_room (q_matrix s') = bit_room (q_matrix s)"
  by (cases "q_pc s t")
    (auto simp: taker_step_def split: if_splits option.splits dest: room_update)

lemma row_ten_outside:
  assumes "bit_room m \<le> 10 * n" and "10 * n < 2 ^ 32"
  shows "bit_array_get m (row_cell n 10 0) = None"
proof -
  have "row_cell n 10 0 = word_of_nat (10 * n)" by (simp add: row_cell_def)
  then have "unat (row_cell n 10 0) = 10 * n" using assms(2) by (simp only: word_of_nat_unat)
  then show ?thesis using assms(1) bits.get_out by simp
qed

lemma taker_own:
  assumes "taker_step n t s = Some s'" and "u \<noteq> t"
  shows "q_i s' u = q_i s u" "q_pc s' u = q_pc s u"
  using assms by (cases "q_pc s t"; auto simp: taker_step_def tgoto_def split: option.splits if_splits)+

lemma ten_taken_keeps:
  assumes tt: "ten_taken u s" and st: "taker_step n t s = Some s'" and r: "bit_room (q_matrix s) \<le> 10 * n"
    and n: "10 * n < 2 ^ 32" and k: "q_k s = 0"
  shows "ten_taken u s'"
proof (cases "u = t")
  case False
  then show ?thesis using tt taker_own [OF st False] by (simp add: ten_taken_def)
next
  case True
  then have i: "q_i s t = Some 10" and pc: "q_pc s t = TUnlockQ \<or> q_pc s t = TRead \<or> q_pc s t = TFault"
    using tt by (auto simp: ten_taken_def)
  from pc show ?thesis
  proof (elim disjE)
    assume "q_pc s t = TUnlockQ"
    then show ?thesis using st i True by (auto simp: taker_step_def ten_taken_def tgoto_def)
  next
    assume "q_pc s t = TRead"
    then have "s' = tgoto t TFault s" using st i k row_ten_outside [OF r n] by (simp add: taker_step_def)
    then show ?thesis using i True by (simp add: ten_taken_def)
  next
    assume "q_pc s t = TFault"
    then show ?thesis using st by (simp add: taker_step_def)
  qed
qed

lemma taker_queue:
  assumes "taker_step n t s = Some s'"
  shows "q_queue s' = q_queue s \<and> (q_queue s \<noteq> - 1 \<longrightarrow> q_pc s' t \<noteq> TBarrier) \<or>
    q_i s' t = Some (q_queue s) \<and> q_pc s' t = TUnlockQ"
  using assms
  by (cases "q_pc s t") (auto simp: taker_step_def tgoto_def split: option.splits if_splits)

lemma ten_inv_taker:
  assumes v: "ten_inv n T s" and n: "10 * n < 2 ^ 32" and t: "t < T" and st: "taker_step n t s = Some s'"
    and ph: "phase_inv T s"
  shows "ten_inv n T s'"
proof -
  have f: "q_main s' = q_main s" "q_k s' = q_k s" "bit_room (q_matrix s') = bit_room (q_matrix s)"
    using taker_frame [OF st] taker_room [OF st] by simp_all
  have r: "bit_room (q_matrix s) \<le> 10 * n" "q_k s = 0" using v by (simp_all add: ten_inv_def)
  have "q_queue s' = 10 \<and> (\<forall>t<T. q_pc s' t \<noteq> TBarrier) \<or> (\<exists>t<T. ten_taken t s')" if b: "q_main s = FBarrier"
  proof (cases "\<exists>u<T. ten_taken u s")
    case True
    then show ?thesis using ten_taken_keeps [OF _ st r(1) n r(2)] by blast
  next
    case False
    then have q: "q_queue s = 10" "\<forall>t<T. q_pc s t \<noteq> TBarrier" using v b by (auto simp: ten_inv_def)
    from taker_queue [OF st] show ?thesis
    proof (elim disjE conjE)
      assume "q_queue s' = q_queue s" "q_queue s \<noteq> - 1 \<longrightarrow> q_pc s' t \<noteq> TBarrier"
      then have "q_pc s' u \<noteq> TBarrier" if "u < T" for u
        using q taker_own(2) [OF st, of u] that by (cases "u = t") auto
      then show ?thesis using q(1) \<open>q_queue s' = q_queue s\<close> by simp
    next
      assume "q_i s' t = Some (q_queue s)" "q_pc s' t = TUnlockQ"
      then have "ten_taken t s'" using q(1) by (simp add: ten_taken_def)
      then show ?thesis using t by blast
    qed
  qed
  moreover have "q_main s \<in> {FUnlockQ, FKBarrierA} \<Longrightarrow> q_queue s' = q_queue s"
  proof -
    assume m: "q_main s \<in> {FUnlockQ, FKBarrierA}"
    then have "q_pc s t \<in> {TNew, TTest, TKBarrierA, TExit}" using ph t by (auto simp: phase_inv_def)
    then have "\<not> in_bag (q_pc s t)" by (auto simp: in_bag_def)
    then show "q_queue s' = q_queue s" using st by (cases "q_pc s t") (auto simp: taker_step_def in_bag_def)
  qed
  ultimately show ?thesis using v f unfolding ten_inv_def by simp
qed

lemma ten_inv_filler:
  assumes v: "ten_inv n T s" and n: "1 \<le> n" and st: "filler_step n T s = Some s'"
  shows "ten_inv n T s'"
  using assms by (cases "q_main s") (auto simp: filler_step_def ten_inv_def tgoto_def split: if_splits)

lemma ten_inv_barrier:
  assumes v: "ten_inv n T s" and T: "0 < T" and ph: "phase_inv T s" and st: "btt_barrier_step T s = Some s'"
  shows "ten_inv n T s'"
proof (cases "q_main s")
  case FKBarrierA
  then have s': "s' = s\<lparr>q_pc := (\<lambda>t. past_kbarrier (q_pc s t)), q_main := FBarrier\<rparr>"
    using st by (auto simp: btt_barrier_step_def split: if_splits)
  have "\<forall>t<T. q_pc s t \<noteq> TBarrier" using ph FKBarrierA by (auto simp: phase_inv_def)
  then have "\<forall>t<T. past_kbarrier (q_pc s t) \<noteq> TBarrier" by (simp add: past_kbarrier_def)
  then show ?thesis using v FKBarrierA by (simp add: s' ten_inv_def)
next
  case FBarrier
  then have "\<forall>t<T. q_pc s t = TBarrier"
    using st by (auto simp: btt_barrier_step_def list_all_iff split: if_splits)
  moreover have "(\<forall>t<T. q_pc s t \<noteq> TBarrier) \<or> (\<exists>t<T. ten_taken t s)" using v FBarrier by (auto simp: ten_inv_def)
  ultimately have False using T by (auto simp: ten_taken_def)
  then show ?thesis ..
qed (use v st in \<open>auto simp: btt_barrier_step_def ten_inv_def\<close>)

section \<open>Properties\<close>

text \<open>
  With more than 11 nodes \<^verbatim>\<open>wtc_btthr\<close> never touches the rows from the twelfth on: in every reachable
  state, the last one included, they hold the input edges, so the printed matrix is in general not the
  transitive closure.
\<close>

theorem btt_rows_behind_ten_untouched:
  assumes "(btt_step n T)\<^sup>*\<^sup>* (btt_init n m) s" and "bit_fits n m" and "11 \<le> i" and "i < n" and "j < n"
  shows "bit_edge n (q_matrix s) i j = bit_edge n m i j"
proof -
  have n: "11 \<le> n" using assms(3,4) by simp
  let ?I = "\<lambda>s. phase_inv T s \<and> rows_inv n T (bit_edge n m) s"
  have "?I s"
  proof (rule rtranclp_invariant [where I = ?I, OF assms(1)])
    show "?I (btt_init n m)" using phase_inv_init rows_inv_init [OF assms(2)] by blast
    show "?I u \<Longrightarrow> btt_step n T u v \<Longrightarrow> ?I v" for u v
      using phase_inv_step rows_inv_step [OF n] by metis
  qed
  then show ?thesis using assms(3-5) by (simp add: rows_inv_def)
qed

text \<open>
  With fewer than 10 nodes \<^verbatim>\<open>wtc_btthr\<close> has no defined run to its end: in the first round row 10 is handed
  out, whose cells are outside the bit array that \<^verbatim>\<open>read_file\<close> allocates, and the worker that gets it
  reads there before anybody can pass the barrier.
\<close>

theorem btt_small_graph_undefined:
  assumes "(btt_step n T)\<^sup>*\<^sup>* (btt_init n m) s" and "1 \<le> n" and "n \<le> 9" and "0 < T"
    and "length m = n * n div 8 + 1"
  shows "q_main s \<noteq> FDone \<and> (q_main s = FBarrier \<longrightarrow> q_queue s = 10 \<or> (\<exists>t<T. ten_taken t s))"
proof -
  have "n \<in> {1, 2, 3, 4, 5, 6, 7, 8, 9}" using assms(2,3) by auto
  then have room: "bit_room m \<le> 10 * n" using assms(5) by (auto simp: bit_room_def)
  have small: "10 * n < 2 ^ 32" using assms(3) by simp
  let ?I = "\<lambda>s. phase_inv T s \<and> ten_inv n T s"
  have "?I s"
  proof (rule rtranclp_invariant [where I = ?I, OF assms(1)])
    show "?I (btt_init n m)" using phase_inv_init room by (simp add: ten_inv_def btt_init_def)
    fix u v assume u: "?I u" and st: "btt_step n T u v"
    from st have "ten_inv n T v"
      using u ten_inv_taker [OF _ small] ten_inv_filler [OF _ assms(2)] ten_inv_barrier [OF _ assms(4)]
      by cases metis+
    then show "?I v" using u st phase_inv_step by metis
  qed
  then show ?thesis by (auto simp: ten_inv_def)
qed

section \<open>Concrete runs\<close>

text \<open>Twelve nodes, one worker, the edges \<open>11 \<rightarrow> 1\<close> and \<open>12 \<rightarrow> 1\<close>: the worker is at row 11, row 12 stays.\<close>

definition btt_start :: "btt_mover list" where
  "btt_start = replicate 4 Filler @ [Taker 0] @ replicate 3 Filler @ [Gather] @ replicate 5 (Taker 0)"

definition twelve :: bit_array where
  "twelve = replicate 15 0 @ [1, 16, 0, 0]"

lemma btt_start_pc: "map_option (\<lambda>s. q_pc s 0) (btt_run 12 1 btt_start (btt_init 12 twelve)) = Some (TCol 1 0)"
  by code_simp

theorem btt_rows_behind_ten_untouched_witness:
  "\<exists>s. (btt_step 12 1)\<^sup>*\<^sup>* (btt_init 12 twelve) s \<and> q_pc s 0 = TCol 1 0 \<and> bit_edge 12 (q_matrix s) 11 0"
proof -
  obtain s where s: "btt_run 12 1 btt_start (btt_init 12 twelve) = Some s" "q_pc s 0 = TCol 1 0"
    using btt_start_pc by auto
  have "bit_fits 12 twelve" by (simp add: bit_fits_def bit_room_def twelve_def)
  from btt_rows_behind_ten_untouched [OF btt_run_steps [OF s(1)] this, of 11 0]
  have "bit_edge 12 (q_matrix s) 11 0 = bit_edge 12 twelve 11 0" by simp
  moreover have "bit_edge 12 twelve 11 0" by code_simp
  ultimately show ?thesis using s(2) btt_run_steps [OF s(1)] by blast
qed

lemma btt_small_fault: "map_option (\<lambda>s. q_pc s 0) (btt_run 2 1 btt_start (btt_init 2 [6])) = Some TFault"
  by code_simp

theorem btt_small_graph_undefined_witness:
  "\<exists>s. (btt_step 2 1)\<^sup>*\<^sup>* (btt_init 2 [6]) s \<and> q_pc s 0 = TFault \<and> q_main s \<noteq> FDone"
proof -
  obtain s where s: "btt_run 2 1 btt_start (btt_init 2 [6]) = Some s" "q_pc s 0 = TFault"
    using btt_small_fault by auto
  from btt_small_graph_undefined [OF btt_run_steps [OF s(1)]] s btt_run_steps [OF s(1)] show ?thesis by auto
qed

end
