(* ===== verification/Proc_Closure.thy ===== *)
theory Proc_Closure
  imports Matrix_Cells
begin

text \<open>
  The closure processes of \<^verbatim>\<open>Project_1/Stuff/wtc_proc.c\<close>: the parent forks one child per slot, child
  \<open>x\<close> owns the columns \<open>x * rowsPer \<dots> (x + 1) * rowsPer - 1\<close> of the integer matrix in shared memory
  and works on one column at a time under the semaphore; every process counts the rounds in its
  own \<^verbatim>\<open>k\<close>, and one barrier per round keeps the counts together. At the end the parent kills the
  children and prints the matrix.
\<close>

section \<open>State\<close>

record proc_cfg =
  threadCount :: nat
  lineCount :: nat

definition rowsPer :: "proc_cfg \<Rightarrow> nat" where
  "rowsPer c = lineCount c div threadCount c"

text \<open>
  A child that does not exist yet; at the test of the loop over \<^verbatim>\<open>k\<close>; at the test of the loop over \<^verbatim>\<open>y\<close>;
  at \<^verbatim>\<open>sem_wait\<close>; in the loop over \<^verbatim>\<open>j\<close> inside the critical section; at \<^verbatim>\<open>sem_post\<close>; waiting at the
  barrier; returned; killed; stopped by an access outside the matrix.
\<close>

datatype child_pc =
    CNone | CTest nat | CCols nat nat | CWait nat nat | CEntry nat nat nat | CPost nat nat
  | CBarrier nat | CExit | CKilled | CFault

datatype parent_pc = PFork nat | PTest nat | PBarrier nat | PKill nat | PDone | PErrExit | PDivZero

record proc_state =
  p_matrix :: int_matrix
  p_sem :: nat
  p_child :: "nat \<Rightarrow> child_pc"
  p_parent :: parent_pc

definition proc_init :: "int_matrix \<Rightarrow> proc_state" where
  "proc_init m = \<lparr>p_matrix = m, p_sem = 1, p_child = (\<lambda>_. CNone), p_parent = PFork 0\<rparr>"

section \<open>Steps\<close>

text \<open>
  \<^verbatim>\<open>matrix[y + j*n] = matrix[y + j*n] || (matrix[y + k*n] && matrix[k + j*n])\<close>, with the reads that
  the short-circuit operators skip left out. The cell is the edge from \<open>j\<close> to \<open>y\<close>.
\<close>

definition update_entry :: "nat \<Rightarrow> nat \<Rightarrow> nat \<Rightarrow> nat \<Rightarrow> int_matrix \<Rightarrow> int_matrix option" where
  "update_entry n k y j m =
     do { old \<leftarrow> int_get m (j * n + y);
          new \<leftarrow> (if old \<noteq> 0 then Some 1
                  else do { ky \<leftarrow> int_get m (k * n + y);
                            if ky = 0 then Some 0
                            else do { jk \<leftarrow> int_get m (j * n + k);
                                      Some (if jk \<noteq> 0 then 1 else 0) } });
          int_put m (j * n + y) new }"

definition child_goto :: "nat \<Rightarrow> child_pc \<Rightarrow> proc_state \<Rightarrow> proc_state" where
  "child_goto x pc s = s\<lparr>p_child := (p_child s)(x := pc)\<rparr>"

definition child_step :: "proc_cfg \<Rightarrow> nat \<Rightarrow> proc_state \<Rightarrow> proc_state option" where
  "child_step c x s =
     (let n = lineCount c
      in case p_child s x of
        CTest k \<Rightarrow> Some (child_goto x (if k < n then CCols k (x * rowsPer c) else CExit) s)
      | CCols k y \<Rightarrow>
          Some (child_goto x (if y < (x + 1) * rowsPer c then CWait k y else CBarrier k) s)
      | CWait k y \<Rightarrow>
          if p_sem s = 0 then None
          else Some (child_goto x (CEntry k y 0) (s\<lparr>p_sem := p_sem s - 1\<rparr>))
      | CEntry k y j \<Rightarrow>
          if j < n
          then (case update_entry n k y j (p_matrix s) of
                  None \<Rightarrow> Some (child_goto x CFault s)
                | Some m \<Rightarrow> Some (child_goto x (CEntry k y (j + 1)) (s\<lparr>p_matrix := m\<rparr>)))
          else Some (child_goto x (CPost k y) s)
      | CPost k y \<Rightarrow> Some (child_goto x (CCols k (y + 1)) (s\<lparr>p_sem := p_sem s + 1\<rparr>))
      | _ \<Rightarrow> None)"

text \<open>
  The parent: \<^verbatim>\<open>fork\<close> gives a new child or fails (\<^verbatim>\<open>err_exit2\<close>, status 1); the division that gives \<^verbatim>\<open>rowsPer\<close>
  is done by every process, and with no children the parent divides by zero; after its \<^verbatim>\<open>lineCount\<close> turns at
  the barrier it sends every child \<^verbatim>\<open>SIGKILL\<close>.
\<close>

datatype fork_result = Forked | ForkFailed

definition parent_step :: "proc_cfg \<Rightarrow> fork_result \<Rightarrow> proc_state \<Rightarrow> proc_state option" where
  "parent_step c r s =
     (case p_parent s of
        PFork x \<Rightarrow>
          if x < threadCount c
          then (case r of Forked \<Rightarrow> Some ((child_goto x (CTest 0) s)\<lparr>p_parent := PFork (x + 1)\<rparr>)
                        | ForkFailed \<Rightarrow> Some (s\<lparr>p_parent := PErrExit\<rparr>))
          else Some (s\<lparr>p_parent := (if threadCount c = 0 then PDivZero else PTest 0)\<rparr>)
      | PTest k \<Rightarrow> Some (s\<lparr>p_parent := (if k < lineCount c then PBarrier k else PKill 0)\<rparr>)
      | PKill z \<Rightarrow>
          if z < threadCount c
          then Some ((child_goto z CKilled s)\<lparr>p_parent := PKill (z + 1)\<rparr>)
          else Some (s\<lparr>p_parent := PDone\<rparr>)
      | _ \<Rightarrow> None)"

fun at_barrier :: "child_pc \<Rightarrow> bool" where
  "at_barrier (CBarrier _) = True"
| "at_barrier _ = False"

fun past_barrier :: "child_pc \<Rightarrow> child_pc" where
  "past_barrier (CBarrier k) = CTest (k + 1)"
| "past_barrier pc = pc"

text \<open>The barrier is initialised for \<^verbatim>\<open>threadCount + 1\<close> processes.\<close>

definition proc_barrier_step :: "proc_cfg \<Rightarrow> proc_state \<Rightarrow> proc_state option" where
  "proc_barrier_step c s =
     (case p_parent s of
        PBarrier k \<Rightarrow>
          if list_all (\<lambda>x. at_barrier (p_child s x)) [0..<threadCount c]
          then Some (s\<lparr>p_child := (\<lambda>x. past_barrier (p_child s x)), p_parent := PTest (k + 1)\<rparr>)
          else None
      | _ \<Rightarrow> None)"

inductive proc_step :: "proc_cfg \<Rightarrow> proc_state \<Rightarrow> proc_state \<Rightarrow> bool" for c where
  child: "x < threadCount c \<Longrightarrow> child_step c x s = Some s' \<Longrightarrow> proc_step c s s'"
| parent: "parent_step c r s = Some s' \<Longrightarrow> proc_step c s s'"
| meet: "proc_barrier_step c s = Some s' \<Longrightarrow> proc_step c s s'"

datatype proc_mover = Child nat | Parent fork_result | Meet

definition proc_move :: "proc_cfg \<Rightarrow> proc_mover \<Rightarrow> proc_state \<Rightarrow> proc_state option" where
  "proc_move c a s =
     (case a of Child x \<Rightarrow> if x < threadCount c then child_step c x s else None
      | Parent r \<Rightarrow> parent_step c r s
      | Meet \<Rightarrow> proc_barrier_step c s)"

definition proc_run :: "proc_cfg \<Rightarrow> proc_mover list \<Rightarrow> proc_state \<Rightarrow> proc_state option" where
  "proc_run c = runs (proc_move c)"

lemma proc_run_steps: "proc_run c as s = Some s' \<Longrightarrow> (proc_step c)\<^sup>*\<^sup>* s s'"
  unfolding proc_run_def
  by (erule runs_steps) (auto simp: proc_move_def split: proc_mover.splits if_splits intro: proc_step.intros)

section \<open>The round invariant\<close>

definition proc_cells :: "proc_cfg \<Rightarrow> cells" where
  "proc_cells c i j \<longleftrightarrow> j < threadCount c * rowsPer c"

definition proc_graph :: "proc_cfg \<Rightarrow> graph \<Rightarrow> nat \<Rightarrow> graph" where
  "proc_graph c E k = wrounds (proc_cells c) k E"

lemma columns_total: "threadCount c * rowsPer c \<le> lineCount c"
  by (simp add: rowsPer_def)

lemma own_columns:
  assumes "x < threadCount c" and "y < (x + 1) * rowsPer c"
  shows "proc_cells c i y" and "y < lineCount c"
proof -
  have "(x + 1) * rowsPer c \<le> threadCount c * rowsPer c"
    using assms(1) by (intro mult_right_mono) auto
  then have y: "y < threadCount c * rowsPer c" using assms(2) by linarith
  then show "proc_cells c i y" by (simp add: proc_cells_def)
  show "y < lineCount c" using y columns_total [of c] by linarith
qed

lemma column_owner:
  assumes "proc_cells c i y"
  shows "\<exists>x<threadCount c. x * rowsPer c \<le> y \<and> y < (x + 1) * rowsPer c"
proof -
  have y: "y < threadCount c * rowsPer c" using assms by (simp add: proc_cells_def)
  then have r: "0 < rowsPer c" by (cases "rowsPer c") auto
  have "y div rowsPer c < threadCount c" using y by (simp add: less_mult_imp_div_less)
  moreover have "y div rowsPer c * rowsPer c \<le> y" by simp
  moreover have "y < (y div rowsPer c + 1) * rowsPer c"
    using r by (simp add: dividend_less_div_times)
  ultimately show ?thesis by blast
qed

text \<open>The cells child \<open>x\<close> has finished, and what its program counter says, in round \<open>k\<close>.\<close>

fun child_done :: "proc_cfg \<Rightarrow> nat \<Rightarrow> child_pc \<Rightarrow> cells" where
  "child_done c x (CCols k y) i j \<longleftrightarrow> x * rowsPer c \<le> j \<and> j < y"
| "child_done c x (CWait k y) i j \<longleftrightarrow> x * rowsPer c \<le> j \<and> j < y"
| "child_done c x (CEntry k y r) i j \<longleftrightarrow> x * rowsPer c \<le> j \<and> (j < y \<or> j = y \<and> i < r)"
| "child_done c x (CPost k y) i j \<longleftrightarrow> x * rowsPer c \<le> j \<and> j < Suc y"
| "child_done c x (CBarrier k) i j \<longleftrightarrow> x * rowsPer c \<le> j \<and> j < (x + 1) * rowsPer c"
| "child_done c x _ i j \<longleftrightarrow> False"

fun child_ok :: "proc_cfg \<Rightarrow> nat \<Rightarrow> nat \<Rightarrow> child_pc \<Rightarrow> bool" where
  "child_ok c k x CNone \<longleftrightarrow> k = 0"
| "child_ok c k x (CTest k') \<longleftrightarrow> k' = k"
| "child_ok c k x (CCols k' y) \<longleftrightarrow> k' = k \<and> k < lineCount c \<and> x * rowsPer c \<le> y \<and> y \<le> (x + 1) * rowsPer c"
| "child_ok c k x (CWait k' y) \<longleftrightarrow> k' = k \<and> k < lineCount c \<and> x * rowsPer c \<le> y \<and> y < (x + 1) * rowsPer c"
| "child_ok c k x (CEntry k' y j) \<longleftrightarrow>
     k' = k \<and> k < lineCount c \<and> x * rowsPer c \<le> y \<and> y < (x + 1) * rowsPer c \<and> j \<le> lineCount c"
| "child_ok c k x (CPost k' y) \<longleftrightarrow> k' = k \<and> k < lineCount c \<and> x * rowsPer c \<le> y \<and> y < (x + 1) * rowsPer c"
| "child_ok c k x (CBarrier k') \<longleftrightarrow> k' = k \<and> k < lineCount c"
| "child_ok c k x CExit \<longleftrightarrow> k = lineCount c"
| "child_ok c k x CKilled \<longleftrightarrow> k = lineCount c"
| "child_ok c k x CFault \<longleftrightarrow> False"

definition proc_done :: "proc_cfg \<Rightarrow> proc_state \<Rightarrow> cells" where
  "proc_done c s i j \<longleftrightarrow> (\<exists>x<threadCount c. child_done c x (p_child s x) i j)"

definition proc_working :: "proc_cfg \<Rightarrow> graph \<Rightarrow> nat \<Rightarrow> proc_state \<Rightarrow> bool" where
  "proc_working c E k s \<longleftrightarrow>
     int_fits (lineCount c) (p_matrix s) \<and>
     (\<forall>x<threadCount c. child_ok c k x (p_child s x)) \<and>
     (if k < lineCount c
      then in_round (lineCount c) (proc_cells c) k (proc_graph c E k) (proc_done c s)
             (int_edge (lineCount c) (p_matrix s))
      else k = lineCount c \<and> agree (lineCount c) (proc_graph c E k) (int_edge (lineCount c) (p_matrix s)))"

definition proc_inv :: "proc_cfg \<Rightarrow> graph \<Rightarrow> proc_state \<Rightarrow> bool" where
  "proc_inv c E s \<longleftrightarrow>
     (case p_parent s of
        PFork _ \<Rightarrow> proc_working c E 0 s
      | PErrExit \<Rightarrow> proc_working c E 0 s
      | PDivZero \<Rightarrow> proc_working c E 0 s
      | PTest k \<Rightarrow> proc_working c E k s
      | PBarrier k \<Rightarrow> proc_working c E k s \<and> k < lineCount c
      | PKill _ \<Rightarrow> proc_working c E (lineCount c) s
      | PDone \<Rightarrow> proc_working c E (lineCount c) s)"

lemma child_goto_simps [simp]:
  "p_child (child_goto x pc s) = (p_child s)(x := pc)" "p_matrix (child_goto x pc s) = p_matrix s"
  "p_sem (child_goto x pc s) = p_sem s" "p_parent (child_goto x pc s) = p_parent s"
  by (simp_all add: child_goto_def)

lemma proc_working_move:
  assumes w: "proc_working c E k s" and x: "x < threadCount c"
    and pc: "child_ok c k x pc" and pcs: "p_child s' = (p_child s)(x := pc)"
    and fit: "int_fits (lineCount c) (p_matrix s')"
    and add: "\<And>i j. i < lineCount c \<Longrightarrow> j < lineCount c \<Longrightarrow>
      child_done c x pc i j \<Longrightarrow> child_done c x (p_child s x) i j \<or> X i j"
    and m: "k < lineCount c \<Longrightarrow>
      in_round (lineCount c) (proc_cells c) k (proc_graph c E k) (proc_done c s)
        (int_edge (lineCount c) (p_matrix s)) \<Longrightarrow>
      in_round (lineCount c) (proc_cells c) k (proc_graph c E k)
        (\<lambda>i j. proc_done c s i j \<or> X i j) (int_edge (lineCount c) (p_matrix s'))"
    and m': "\<not> k < lineCount c \<Longrightarrow> p_matrix s' = p_matrix s"
  shows "proc_working c E k s'"
proof (cases "k < lineCount c")
  case True
  have "in_round (lineCount c) (proc_cells c) k (proc_graph c E k) (proc_done c s')
          (int_edge (lineCount c) (p_matrix s'))"
  proof (rule in_round_weaken [OF m [OF True]])
    show "in_round (lineCount c) (proc_cells c) k (proc_graph c E k) (proc_done c s)
        (int_edge (lineCount c) (p_matrix s))"
      using w True by (simp add: proc_working_def)
    fix i j assume ij: "i < lineCount c" "j < lineCount c" "proc_done c s' i j"
    then obtain u where "u < threadCount c" "child_done c u (p_child s' u) i j"
      by (auto simp: proc_done_def)
    then show "proc_done c s i j \<or> X i j"
      using add [OF ij(1,2)] x by (cases "u = x") (auto simp: proc_done_def pcs)
  qed
  then show ?thesis using True w pc x fit by (auto simp: proc_working_def pcs)
next
  case False
  then show ?thesis using w pc x m' fit by (auto simp: proc_working_def pcs)
qed

text \<open>One entry of a column.\<close>

lemma update_entry_round:
  assumes k: "k < n" and y: "y < n" and j: "j < n" and P: "P j y" and fit: "int_fits n m"
    and r: "in_round n P k E0 D (int_edge n m)"
  shows "\<exists>m'. update_entry n k y j m = Some m' \<and> int_fits n m' \<and>
     in_round n P k E0 (\<lambda>a b. D a b \<or> a = j \<and> b = y) (int_edge n m')"
proof -
  let ?b = "int_edge n m j y \<or> int_edge n m j k \<and> int_edge n m k y"
  have get: "a < n \<Longrightarrow> b < n \<Longrightarrow> int_get m (a * n + b) = Some (m ! (a * n + b))" for a b
    using index_in_matrix [OF fit] by (simp add: int_get_def)
  obtain m' where m': "int_put m (j * n + y) (if ?b then 1 else 0) = Some m'"
    using index_in_matrix [OF fit j y] by (simp add: int_put_def)
  have "update_entry n k y j m = Some m'"
    using m' get [OF j y] get [OF k y] get [OF j k]
    by (cases "m ! (j * n + y) = 0"; cases "m ! (k * n + y) = 0"; cases "m ! (j * n + k) = 0")
      (simp_all add: update_entry_def int_edge_def)
  moreover note int_write_edge [OF fit j y _ m']
  moreover have "in_round n P k E0 (\<lambda>a b. D a b \<or> a = j \<and> b = y) (int_edge n m')"
  proof (cases ?b)
    case True
    then have "E0 j y \<or> P j y \<and> E0 j k \<and> E0 k y \<or> int_edge n m j y"
      using in_round_row [OF r k y] in_round_column [OF r k j] P by auto
    then have "E0 j y \<or> P j y \<and> E0 j k \<and> E0 k y"
      using r j y by (auto simp: in_round_def wround_def)
    from in_round_connect [OF r this] calculation(3) True show ?thesis by simp
  next
    case False
    then have "\<not> (E0 j k \<and> E0 k y)"
      using in_round_row [OF r k y] in_round_column [OF r k j] by auto
    moreover have "agree n (int_edge n m') (int_edge n m)"
      using int_write_edge(2) [OF fit j y _ m'] False by simp
    ultimately show ?thesis
      using in_round_keep [OF r] by (auto simp: in_round_def agree_def)
  qed
  ultimately show ?thesis by auto
qed


lemma child_step_working:
  assumes w: "proc_working c E k s" and x: "x < threadCount c" and st: "child_step c x s = Some s'"
  shows "proc_working c E k s'"
proof -
  have ok: "child_ok c k x (p_child s x)" and fit: "int_fits (lineCount c) (p_matrix s)" and kn: "k \<le> lineCount c"
    using w x by (auto simp: proc_working_def split: if_splits)
  note move = proc_working_move [OF w x, where X = "\<lambda>_ _. False"]
  show ?thesis
  proof (cases "p_child s x")
    case (CTest k')
    with ok st have s': "s' = child_goto x (if k < lineCount c then CCols k (x * rowsPer c) else CExit) s"
      by (simp add: child_step_def Let_def)
    show ?thesis
      by (rule move [where pc = "if k < lineCount c then CCols k (x * rowsPer c) else CExit"])
        (use fit kn in \<open>auto simp: s' split: if_splits\<close>)
  next
    case (CEntry k' y j)
    then have e: "k' = k" "k < lineCount c" "x * rowsPer c \<le> y" "y < (x + 1) * rowsPer c" "j \<le> lineCount c"
      using ok by auto
    have y: "proc_cells c j y" "y < lineCount c" using own_columns [OF x e(4)] by simp_all
    show ?thesis
    proof (cases "j < lineCount c")
      case True
      have "in_round (lineCount c) (proc_cells c) k (proc_graph c E k) (proc_done c s)
             (int_edge (lineCount c) (p_matrix s))"
        using w e(2) by (simp add: proc_working_def)
      from update_entry_round [where P = "proc_cells c", OF e(2) y(2) True y(1) fit this]
      obtain m' where m': "update_entry (lineCount c) k y j (p_matrix s) = Some m'"
        "int_fits (lineCount c) m'"
        "in_round (lineCount c) (proc_cells c) k (proc_graph c E k)
          (\<lambda>a b. proc_done c s a b \<or> a = j \<and> b = y) (int_edge (lineCount c) m')" by blast
      then have s': "s' = child_goto x (CEntry k y (j + 1)) (s\<lparr>p_matrix := m'\<rparr>)"
        using st CEntry e(1) True by (simp add: child_step_def Let_def)
      show ?thesis
        by (rule proc_working_move [OF w x, where X = "\<lambda>a b. a = j \<and> b = y" and pc = "CEntry k y (j + 1)"])
          (use e m' True CEntry in \<open>auto simp: s' child_goto_def\<close>)
    next
      case False
      then show ?thesis using st fit CEntry e
        by (auto simp: child_step_def Let_def intro!: move)
    qed
  qed (use st fit ok in \<open>auto simp: child_step_def Let_def intro!: move split: if_splits\<close>)
qed

lemma child_step_frame [frame]:
  "child_step c x s = Some s' \<Longrightarrow> p_parent s' = p_parent s"
  by (auto simp: child_step_def Let_def split: child_pc.splits option.splits if_splits)

lemma proc_inv_child:
  "proc_inv c E s \<Longrightarrow> x < threadCount c \<Longrightarrow> child_step c x s = Some s' \<Longrightarrow> proc_inv c E s'"
  using child_step_working child_step_frame unfolding proc_inv_def
  by (cases "p_parent s") force+

lemma proc_working_cong:
  assumes "p_child s' = p_child s" and "p_matrix s' = p_matrix s"
  shows "proc_working c E k s' = proc_working c E k s"
proof -
  have "proc_done c s' = proc_done c s" using assms by (simp add: proc_done_def fun_eq_iff)
  then show ?thesis using assms by (simp add: proc_working_def)
qed

lemma proc_working_parent [simp]: "proc_working c E k (s\<lparr>p_parent := pp\<rparr>) = proc_working c E k s"
  by (rule proc_working_cong) simp_all

lemma proc_working_le: "proc_working c E k s \<Longrightarrow> k \<le> lineCount c"
  by (auto simp: proc_working_def split: if_splits)

lemma proc_inv_parent:
  assumes i: "proc_inv c E s" and st: "parent_step c r s = Some s'"
  shows "proc_inv c E s'"
proof (cases "p_parent s")
  case (PFork x)
  then have w: "proc_working c E 0 s" using i by (simp add: proc_inv_def)
  then have fit: "int_fits (lineCount c) (p_matrix s)" by (simp add: proc_working_def)
  have "x < threadCount c \<Longrightarrow> proc_working c E 0 (child_goto x (CTest 0) s)"
    by (rule proc_working_move [OF w, where X = "\<lambda>_ _. False" and pc = "CTest 0"]) (use fit in auto)
  then show ?thesis
    using PFork st w by (auto simp: proc_inv_def parent_step_def split: if_splits fork_result.splits)
next
  case (PTest k)
  with i st proc_working_le [of c E k s] show ?thesis
    by (cases "k = lineCount c") (auto simp: proc_inv_def parent_step_def)
next
  case (PKill z)
  then have w: "proc_working c E (lineCount c) s" using i by (simp add: proc_inv_def)
  then have fit: "int_fits (lineCount c) (p_matrix s)" by (simp add: proc_working_def)
  have "z < threadCount c \<Longrightarrow> proc_working c E (lineCount c) (child_goto z CKilled s)"
    by (rule proc_working_move [OF w, where X = "\<lambda>_ _. False" and pc = CKilled]) (use fit in auto)
  then show ?thesis
    using PKill st w by (auto simp: proc_inv_def parent_step_def split: if_splits)
qed (use i st in \<open>auto simp: parent_step_def\<close>)

lemma at_barrierE: "at_barrier pc \<Longrightarrow> (\<And>k. pc = CBarrier k \<Longrightarrow> P) \<Longrightarrow> P"
  by (cases pc) auto

lemma proc_inv_barrier:
  assumes i: "proc_inv c E s" and st: "proc_barrier_step c s = Some s'"
  shows "proc_inv c E s'"
proof -
  let ?n = "lineCount c"
  obtain k where k: "p_parent s = PBarrier k"
    and at: "\<forall>x<threadCount c. at_barrier (p_child s x)"
    and s': "s' = s\<lparr>p_child := (\<lambda>x. past_barrier (p_child s x)), p_parent := PTest (k + 1)\<rparr>"
    using st by (auto simp: proc_barrier_step_def list_all_iff split: parent_pc.splits if_splits)
  have w: "proc_working c E k s" and kn: "k < ?n" using i k by (simp_all add: proc_inv_def)
  have pcs: "p_child s x = CBarrier k" if "x < threadCount c" for x
  proof -
    have "child_ok c k x (p_child s x)" and "at_barrier (p_child s x)"
      using that at w by (auto simp: proc_working_def)
    then show ?thesis by (auto elim!: at_barrierE)
  qed
  have e: "agree ?n (proc_graph c E (Suc k)) (int_edge ?n (p_matrix s))"
    unfolding proc_graph_def wrounds.simps
  proof (rule in_round_end)
    show "in_round ?n (proc_cells c) k (wrounds (proc_cells c) k E) (proc_done c s) (int_edge ?n (p_matrix s))"
      using w kn by (simp add: proc_working_def proc_graph_def)
    fix i j assume "proc_cells c i j"
    from column_owner [OF this] show "proc_done c s i j"
      using pcs by (auto simp: proc_done_def)
  qed
  have "proc_done c s' = (\<lambda>_ _. False)"
    using pcs by (auto simp: s' proc_done_def fun_eq_iff)
  with in_round_start [OF e] e kn pcs w have "proc_working c E (Suc k) s'"
    by (cases "Suc k = ?n") (simp_all add: proc_working_def s')
  then show ?thesis by (simp add: proc_inv_def s')
qed

lemma proc_inv_init:
  assumes "int_fits (lineCount c) m"
  shows "proc_inv c (int_edge (lineCount c) m) (proc_init m)"
proof -
  have "in_round (lineCount c) (proc_cells c) 0 (int_edge (lineCount c) m)
    (proc_done c (proc_init m)) (int_edge (lineCount c) m)"
    by (rule in_round_weaken [OF in_round_start [OF agree_refl]])
      (simp add: proc_done_def proc_init_def)
  then show ?thesis
    using assms by (auto simp: proc_inv_def proc_init_def proc_working_def proc_graph_def)
qed

lemma proc_inv_step: "proc_inv c E s \<Longrightarrow> proc_step c s s' \<Longrightarrow> proc_inv c E s'"
  by (auto elim!: proc_step.cases intro: proc_inv_child proc_inv_parent proc_inv_barrier)

lemma proc_inv_reachable:
  assumes "(proc_step c)\<^sup>*\<^sup>* (proc_init m) s" and "int_fits (lineCount c) m"
  shows "proc_inv c (int_edge (lineCount c) m) s"
  by (rule rtranclp_invariant [where I = "proc_inv c (int_edge (lineCount c) m)", OF assms(1)])
    (use assms(2) in \<open>auto intro: proc_inv_init proc_inv_step\<close>)

section \<open>Forking and the semaphore\<close>

text \<open>Children exist in the order of their creation.\<close>

definition proc_created :: "proc_cfg \<Rightarrow> proc_state \<Rightarrow> bool" where
  "proc_created c s \<longleftrightarrow>
     (case p_parent s of
        PFork x \<Rightarrow> x \<le> threadCount c \<and> (\<forall>y. p_child s y = CNone \<longleftrightarrow> x \<le> y)
      | PErrExit \<Rightarrow> True
      | _ \<Rightarrow> \<forall>y<threadCount c. p_child s y \<noteq> CNone)"

fun holding :: "child_pc \<Rightarrow> bool" where
  "holding (CEntry _ _ _) = True"
| "holding (CPost _ _) = True"
| "holding CFault = True"
| "holding _ = False"

definition sem_inv :: "proc_cfg \<Rightarrow> proc_state \<Rightarrow> bool" where
  "sem_inv c s \<longleftrightarrow> sem_counts (threadCount c) holding (p_sem s) (p_child s)"

lemma child_step_shape:
  assumes "child_step c x s = Some s'"
  shows "\<exists>pc. p_child s' = (p_child s)(x := pc) \<and> p_child s x \<noteq> CNone \<and> pc \<noteq> CNone \<and>
    sem_move holding (p_sem s) (p_sem s') (p_child s x) pc"
  using assms unfolding child_step_def Let_def sem_move_def
  by (cases "p_child s x") (auto split: option.splits if_splits)

lemma sem_inv_child:
  assumes "sem_inv c s" and "x < threadCount c" and "child_step c x s = Some s'"
  shows "sem_inv c s'"
proof -
  obtain pc where "p_child s' = (p_child s)(x := pc)"
    "sem_move holding (p_sem s) (p_sem s') (p_child s x) pc"
    using child_step_shape [OF assms(3)] by blast
  with sem_counts_move assms(1,2) show ?thesis unfolding sem_inv_def by metis
qed

lemma sem_inv_same:
  assumes "sem_inv c s" and "p_sem s' = p_sem s"
    and "\<And>x. x < threadCount c \<Longrightarrow> holding (p_child s' x) = holding (p_child s x)"
  shows "sem_inv c s'"
  using sem_counts_cong [of "threadCount c" holding "p_sem s" "p_child s" "p_child s'"] assms
  by (simp add: sem_inv_def)

lemma not_holding:
  assumes "proc_working c E k s" and "x < threadCount c" and "k = lineCount c \<or> p_child s x = CNone"
  shows "\<not> holding (p_child s x)"
  using assms by (cases "p_child s x") (auto simp: proc_working_def)

lemma sem_inv_parent:
  assumes i: "sem_inv c s" and p: "proc_inv c E s" and cr: "proc_created c s"
    and st: "parent_step c r s = Some s'"
  shows "sem_inv c s'"
proof (rule sem_inv_same [OF i])
  show "p_sem s' = p_sem s"
    using st by (auto simp: parent_step_def split: parent_pc.splits fork_result.splits if_splits)
  fix x assume x: "x < threadCount c"
  show "holding (p_child s' x) = holding (p_child s x)"
  proof (cases "p_parent s")
    case (PFork y)
    then have "p_child s y = CNone" using cr by (simp add: proc_created_def)
    moreover have "p_child s' = (p_child s)(y := CTest 0) \<or> p_child s' = p_child s"
      using st PFork by (cases r) (auto simp: parent_step_def split: if_splits)
    ultimately show ?thesis by (cases "x = y") auto
  next
    case (PKill z)
    then have "proc_working c E (lineCount c) s" using p by (simp add: proc_inv_def)
    then have "\<not> holding (p_child s x)" using x by (rule not_holding) simp
    moreover have "p_child s' = (p_child s)(z := CKilled) \<or> p_child s' = p_child s"
      using st PKill by (auto simp: parent_step_def split: if_splits)
    ultimately show ?thesis by (cases "x = z") auto
  qed (use st in \<open>auto simp: parent_step_def\<close>)
qed

lemma holding_past [simp]: "holding (past_barrier pc) = holding pc" "past_barrier pc = CNone \<longleftrightarrow> pc = CNone"
  by (cases pc; simp)+

lemma sem_inv_barrier: "sem_inv c s \<Longrightarrow> proc_barrier_step c s = Some s' \<Longrightarrow> sem_inv c s'"
  by (erule sem_inv_same) (auto simp: proc_barrier_step_def split: parent_pc.splits if_splits)

lemma proc_created_child:
  assumes cr: "proc_created c s" and st: "child_step c x s = Some s'"
  shows "proc_created c s'"
proof -
  obtain pc where "p_child s' = (p_child s)(x := pc)" "p_child s x \<noteq> CNone" "pc \<noteq> CNone"
    using child_step_shape [OF st] by blast
  then have "p_child s' y = CNone \<longleftrightarrow> p_child s y = CNone" for y by simp
  then show ?thesis
    using cr child_step_frame [OF st] by (simp add: proc_created_def split: parent_pc.splits)
qed

lemma proc_created_parent:
  assumes cr: "proc_created c s" and st: "parent_step c r s = Some s'"
  shows "proc_created c s'"
proof (cases "p_parent s")
  case (PFork x)
  then have x: "x \<le> threadCount c" and n: "\<And>y. p_child s y = CNone \<longleftrightarrow> x \<le> y"
    using cr by (simp_all add: proc_created_def)
  show ?thesis
  proof (cases "x < threadCount c")
    case True
    show ?thesis
    proof (cases r)
      case Forked
      with PFork True st have s': "s' = (child_goto x (CTest 0) s)\<lparr>p_parent := PFork (x + 1)\<rparr>"
        by (simp add: parent_step_def)
      have "p_child s' y = CNone \<longleftrightarrow> Suc x \<le> y" for y using n [of y] by (cases "y = x") (auto simp: s')
      with True show ?thesis by (simp add: proc_created_def s' del: child_goto_simps)
    next
      case ForkFailed
      with PFork True st show ?thesis by (auto simp: parent_step_def proc_created_def)
    qed
  next
    case False
    with PFork st have "s' = s\<lparr>p_parent := (if threadCount c = 0 then PDivZero else PTest 0)\<rparr>"
      by (simp add: parent_step_def)
    then show ?thesis using n False by (simp add: proc_created_def)
  qed
next
  case (PKill z)
  then have "\<And>y. y < threadCount c \<Longrightarrow> p_child s y \<noteq> CNone" using cr by (simp add: proc_created_def)
  with PKill st show ?thesis by (auto simp: parent_step_def proc_created_def split: if_splits)
next
  case (PTest k)
  then have "\<And>y. y < threadCount c \<Longrightarrow> p_child s y \<noteq> CNone" using cr by (simp add: proc_created_def)
  with PTest st show ?thesis by (auto simp: parent_step_def proc_created_def split: if_splits)
qed (use st cr in \<open>simp_all add: parent_step_def proc_created_def split: parent_pc.splits if_splits\<close>)

lemma proc_created_barrier:
  assumes cr: "proc_created c s" and st: "proc_barrier_step c s = Some s'"
  shows "proc_created c s'"
proof (cases "p_parent s")
  case (PBarrier k)
  then show ?thesis
    using cr st by (simp add: proc_barrier_step_def proc_created_def split: if_splits)
      (erule subst, simp)
qed (use st in \<open>simp_all add: proc_barrier_step_def\<close>)

definition proc_sync :: "proc_cfg \<Rightarrow> graph \<Rightarrow> proc_state \<Rightarrow> bool" where
  "proc_sync c E s \<longleftrightarrow> proc_inv c E s \<and> proc_created c s \<and> sem_inv c s"

lemma proc_sync_step: "proc_sync c E s \<Longrightarrow> proc_step c s s' \<Longrightarrow> proc_sync c E s'"
  unfolding proc_sync_def
  by (elim proc_step.cases conjE; intro conjI)
    (blast intro: proc_inv_step proc_step.intros proc_created_child proc_created_parent
      proc_created_barrier sem_inv_child sem_inv_parent sem_inv_barrier)+

lemma proc_sync_init:
  assumes "int_fits (lineCount c) m"
  shows "proc_sync c (int_edge (lineCount c) m) (proc_init m)"
proof -
  have "proc_created c (proc_init m)" "sem_inv c (proc_init m)"
    by (simp_all add: proc_created_def sem_inv_def sem_counts_def proc_init_def)
  with proc_inv_init [OF assms] show ?thesis by (simp add: proc_sync_def)
qed

lemma proc_sync_reachable:
  assumes "(proc_step c)\<^sup>*\<^sup>* (proc_init m) s" and "int_fits (lineCount c) m"
  shows "proc_sync c (int_edge (lineCount c) m) s"
  by (rule rtranclp_invariant [where I = "proc_sync c (int_edge (lineCount c) m)",
        OF assms(1) proc_sync_init [OF assms(2)] proc_sync_step])

section \<open>Progress and termination\<close>

lemma child_moves:
  assumes "child_step c x s = None"
  shows "p_child s x \<in> {CNone, CExit, CKilled, CFault} \<or> at_barrier (p_child s x) \<or>
         p_sem s = 0 \<and> (\<exists>k y. p_child s x = CWait k y)"
  using assms by (cases "p_child s x") (auto simp: child_step_def Let_def split: option.splits if_splits)

lemma children_blocked:
  assumes w: "proc_working c E k s" and m: "sem_inv c s" and x: "x < threadCount c"
    and b: "\<And>u. u < threadCount c \<Longrightarrow> child_step c u s = None"
  shows "p_child s x \<in> {CNone, CExit, CKilled} \<or> at_barrier (p_child s x)"
proof -
  have nf: "u < threadCount c \<Longrightarrow> p_child s u \<noteq> CFault" for u using w by (auto simp: proc_working_def)
  have "p_sem s \<noteq> 0"
  proof
    assume "p_sem s = 0"
    with m obtain u where u: "u < threadCount c" "holding (p_child s u)"
      using sem_counts_held [of "threadCount c" holding "p_child s"] by (auto simp: sem_inv_def)
    with child_moves [OF b [OF u(1)]] nf [OF u(1)] show False by (cases "p_child s u") auto
  qed
  with child_moves [OF b [OF x]] nf [OF x] show ?thesis by auto
qed

definition proc_over :: "proc_state \<Rightarrow> bool" where
  "proc_over s \<longleftrightarrow> p_parent s \<in> {PDone, PErrExit, PDivZero}"

lemma proc_progress:
  assumes y: "proc_sync c E s" and nd: "\<not> proc_over s"
  shows "\<exists>s'. proc_step c s s'"
proof (cases "p_parent s")
  case (PBarrier k)
  show ?thesis
  proof (rule ccontr)
    assume "\<nexists>s'. proc_step c s s'"
    then have st: "\<not> proc_step c s s'" for s' by blast
    have ch: "u < threadCount c \<Longrightarrow> child_step c u s = None" for u
      using st by (metis not_None_eq proc_step.child)
    have w: "proc_working c E k s" "k < lineCount c" and cr: "\<forall>x<threadCount c. p_child s x \<noteq> CNone"
      using y PBarrier by (simp_all add: proc_sync_def proc_inv_def proc_created_def)
    have "at_barrier (p_child s x)" if x: "x < threadCount c" for x
    proof -
      have "child_ok c k x (p_child s x)" using w(1) x by (simp add: proc_working_def)
      then show ?thesis
        using children_blocked [OF w(1) _ x ch] y cr x w(2) by (auto simp: proc_sync_def)
    qed
    then have "proc_barrier_step c s \<noteq> None"
      using PBarrier by (simp add: proc_barrier_step_def list_all_iff)
    with st show False by (metis not_None_eq proc_step.meet)
  qed
next
  case (PFork x)
  then have "\<exists>s'. parent_step c Forked s = Some s'" by (auto simp: parent_step_def)
  then show ?thesis by (blast intro: proc_step.parent)
next
  case (PTest k)
  then have "\<exists>s'. parent_step c Forked s = Some s'" by (auto simp: parent_step_def)
  then show ?thesis by (blast intro: proc_step.parent)
next
  case (PKill z)
  then have "\<exists>s'. parent_step c Forked s = Some s'" by (auto simp: parent_step_def)
  then show ?thesis by (blast intro: proc_step.parent)
qed (use nd in \<open>auto simp: proc_over_def\<close>)

definition parent_left :: "proc_cfg \<Rightarrow> proc_state \<Rightarrow> nat" where
  "parent_left c s =
     (case p_parent s of
        PFork x \<Rightarrow> (threadCount c - x) + 2 * lineCount c + threadCount c + 5
      | PTest k \<Rightarrow> 2 * (lineCount c - k) + threadCount c + 3
      | PBarrier k \<Rightarrow> 2 * (lineCount c - k) + threadCount c + 2
      | PKill z \<Rightarrow> (threadCount c - z) + 1
      | _ \<Rightarrow> 0)"

definition child_left :: "proc_cfg \<Rightarrow> nat \<Rightarrow> child_pc \<Rightarrow> nat" where
  "child_left c x pc =
     (let n = lineCount c; stop = (x + 1) * rowsPer c
      in case pc of
        CTest _ \<Rightarrow> rowsPer c * (n + 5) + 3
      | CCols _ y \<Rightarrow> (stop - y) * (n + 5) + 2
      | CWait _ y \<Rightarrow> (stop - y - 1) * (n + 5) + n + 5
      | CEntry _ y j \<Rightarrow> (stop - y - 1) * (n + 5) + (n - j) + 4
      | CPost _ y \<Rightarrow> (stop - y - 1) * (n + 5) + 3
      | CBarrier _ \<Rightarrow> 1
      | _ \<Rightarrow> 0)"

definition proc_order :: "proc_cfg \<Rightarrow> (proc_state \<times> proc_state) set" where
  "proc_order c = measures [parent_left c, \<lambda>s. \<Sum>x<threadCount c. child_left c x (p_child s x)]"

lemma wf_proc_order: "wf (proc_order c)"
  by (simp add: proc_order_def)

lemma stop_minus: "(y::nat) < stop \<Longrightarrow> (stop - y) * m = (stop - y - 1) * m + m"
  by (metis Suc_diff_Suc Suc_eq_plus1 add.commute diff_diff_left mult_Suc)

lemma child_decreases:
  assumes ok: "child_ok c k x (p_child s x)" and st: "child_step c x s = Some s'"
  shows "child_left c x (p_child s' x) < child_left c x (p_child s x)"
proof (cases "p_child s x")
  case (CCols k' y)
  then show ?thesis
    using st stop_minus [of y "(x + 1) * rowsPer c" "lineCount c + 5"]
    by (auto simp: child_step_def child_left_def Let_def split: if_splits)
qed (use st ok in \<open>auto simp: child_step_def child_left_def Let_def split: option.splits if_splits\<close>)

lemma proc_step_order:
  assumes y: "proc_sync c E s" and st: "proc_step c s s'"
  shows "(s', s) \<in> proc_order c"
  using st
proof cases
  case (child x)
  obtain pc where pcs: "p_child s' = (p_child s)(x := pc)" using child_step_shape [OF child(2)] by blast
  obtain k where "proc_working c E k s"
    using y by (cases "p_parent s") (auto simp: proc_sync_def proc_inv_def)
  then have "child_ok c k x (p_child s x)" using child(1) by (simp add: proc_working_def)
  from child_decreases [OF this child(2)] have "child_left c x pc < child_left c x (p_child s x)"
    by (simp add: pcs)
  from sum_one_less [where g = "child_left c", OF pcs child(1) this] child_step_frame [OF child(2)]
  show ?thesis by (simp add: proc_order_def parent_left_def)
next
  case (parent r)
  then have "parent_left c s' < parent_left c s"
    by (cases "p_parent s"; cases r) (auto simp: parent_step_def parent_left_def split: if_splits)
  then show ?thesis by (simp add: proc_order_def)
next
  case meet
  then obtain k where k: "p_parent s = PBarrier k" "p_parent s' = PTest (k + 1)"
    by (auto simp: proc_barrier_step_def split: parent_pc.splits if_splits)
  then have "k < lineCount c" using y by (simp add: proc_sync_def proc_inv_def)
  then have "parent_left c s' < parent_left c s" by (simp add: k parent_left_def)
  then show ?thesis by (simp add: proc_order_def)
qed

section \<open>The shared memory segment\<close>

text \<open>
  The byte layout of the segment of \<^verbatim>\<open>size\<close> bytes: the matrix, \<^verbatim>\<open>matrixLock\<close>, and \<^verbatim>\<open>barrier1\<close> at
  \<^verbatim>\<open>matrixLock + semOffset\<close>, a number of \<^verbatim>\<open>int\<close>s added to a pointer to \<^verbatim>\<open>sem_t\<close>. The sizes of \<^verbatim>\<open>sem_t\<close> and
  \<^verbatim>\<open>pthread_barrier_t\<close> are parameters; \<^verbatim>\<open>sizeof(int)\<close> is 4.
\<close>

definition segment_size :: "nat \<Rightarrow> nat \<Rightarrow> nat \<Rightarrow> nat" where
  "segment_size sem_t barrier_t n = 4 * n * n + sem_t + barrier_t"

definition lock_offset :: "nat \<Rightarrow> nat" where
  "lock_offset n = 4 * (n * n)"

definition semOffset :: "nat \<Rightarrow> nat" where
  "semOffset sem_t = sem_t div 4"

definition barrier_offset :: "nat \<Rightarrow> nat \<Rightarrow> nat" where
  "barrier_offset sem_t n = lock_offset n + semOffset sem_t * sem_t"

section \<open>The result\<close>

lemma proc_end_working:
  "proc_inv c E s \<Longrightarrow> \<exists>k. proc_working c E k s \<and> (p_parent s = PDone \<longrightarrow> k = lineCount c)"
  by (cases "p_parent s") (auto simp: proc_inv_def)

lemma proc_done_graph:
  assumes "proc_inv c E s" and "p_parent s = PDone"
  shows "agree (lineCount c) (proc_graph c E (lineCount c)) (int_edge (lineCount c) (p_matrix s))"
proof -
  from assms have "proc_working c E (lineCount c) s" by (simp add: proc_inv_def)
  then show ?thesis unfolding proc_working_def by simp
qed

lemma columns_covered:
  assumes "threadCount c dvd lineCount c"
  shows "covers (lineCount c) (proc_cells c)"
  using assms by (simp add: covers_def proc_cells_def rowsPer_def)

lemma wrounds_column:
  "(\<And>i. \<not> P i j) \<Longrightarrow> wrounds P k E i j = E i j"
  by (induction k) (auto simp: wround_def)

lemma idle_column:
  assumes i: "proc_inv c E s" and j: "threadCount c * rowsPer c \<le> j" "j < lineCount c"
    and i': "i < lineCount c"
  shows "int_edge (lineCount c) (p_matrix s) i j = E i j"
proof -
  have P: "\<not> proc_cells c a j" for a using j(1) by (simp add: proc_cells_def)
  then have g: "proc_graph c E k i j = E i j" for k
    unfolding proc_graph_def by (rule wrounds_column)
  obtain k where w: "proc_working c E k s" using proc_end_working [OF i] by blast
  show ?thesis
  proof (cases "k < lineCount c")
    case True
    with w have "in_round (lineCount c) (proc_cells c) k (proc_graph c E k) (proc_done c s)
        (int_edge (lineCount c) (p_matrix s))" by (simp add: proc_working_def)
    then show ?thesis using g P j i' unfolding in_round_def wround_def by metis
  next
    case False
    with w have "agree (lineCount c) (proc_graph c E k) (int_edge (lineCount c) (p_matrix s))"
      unfolding proc_working_def by metis
    from agreeD [OF this i' j(2)] g show ?thesis by simp
  qed
qed

text \<open>The parent gets past the division exactly when there is a child.\<close>

definition proc_divided :: "proc_cfg \<Rightarrow> proc_state \<Rightarrow> bool" where
  "proc_divided c s \<longleftrightarrow>
     (case p_parent s of PFork _ \<Rightarrow> True | PDivZero \<Rightarrow> threadCount c = 0 | _ \<Rightarrow> 0 < threadCount c)"

lemma proc_divided_reachable:
  assumes "(proc_step c)\<^sup>*\<^sup>* (proc_init m) s"
  shows "proc_divided c s"
proof (rule rtranclp_invariant [where I = "proc_divided c", OF assms])
  show "proc_divided c (proc_init m)" by (simp add: proc_divided_def proc_init_def)
  fix u v assume i: "proc_divided c u" and "proc_step c u v"
  from this(2) show "proc_divided c v"
    by cases (use i in \<open>auto simp: proc_divided_def parent_step_def proc_barrier_step_def dest!: child_step_frame
      split: parent_pc.splits fork_result.splits if_splits\<close>)
qed

interpretation proc_ending: ending "proc_step c" "\<lambda>s. \<exists>m. s = proc_init m \<and> int_fits (lineCount c) m"
    "\<lambda>s. \<exists>E. proc_sync c E s" proc_over "proc_order c" for c
proof unfold_locales
  show "\<exists>m. s = proc_init m \<and> int_fits (lineCount c) m \<Longrightarrow> \<exists>E. proc_sync c E s" for s
    using proc_sync_reachable by blast
qed (use proc_sync_step proc_progress proc_step_order wf_proc_order in blast)+

section \<open>Properties\<close>

text \<open>
  When the number of children divides the number of nodes and no \<^verbatim>\<open>fork\<close> fails, the parent of
  \<^verbatim>\<open>wtc_proc\<close> prints exactly the transitive closure of the input graph, for every interleaving of the
  children.
\<close>

theorem proc_computes_closure:
  assumes "(proc_step c)\<^sup>*\<^sup>* (proc_init m) s" and "p_parent s = PDone"
    and "int_fits (lineCount c) m" and "threadCount c dvd lineCount c"
    and "i < lineCount c" and "j < lineCount c"
  shows "int_edge (lineCount c) (p_matrix s) i j \<longleftrightarrow>
         path_closure (lineCount c) (int_edge (lineCount c) m) i j"
  using agreeD [OF proc_done_graph [OF proc_inv_reachable [OF assms(1,3)] assms(2)] assms(5,6)]
    wrounds_closure [OF columns_covered [OF assms(4)] assms(5,6)]
  by (simp add: proc_graph_def)


text \<open>
  The children of \<^verbatim>\<open>wtc_proc\<close> stay inside the matrix, and at most one of them is between \<^verbatim>\<open>sem_wait\<close>
  and \<^verbatim>\<open>sem_post\<close>.
\<close>

theorem proc_exclusive_and_safe:
  assumes "(proc_step c)\<^sup>*\<^sup>* (proc_init m) s" and "int_fits (lineCount c) m"
    and "x < threadCount c" and "y < threadCount c"
  shows "p_child s x \<noteq> CFault \<and> (holding (p_child s x) \<and> holding (p_child s y) \<longrightarrow> x = y)"
proof -
  have y: "proc_sync c (int_edge (lineCount c) m) s" using proc_sync_reachable assms(1,2) .
  then have "p_child s x \<noteq> CFault"
    using proc_end_working [of c _ s] assms(3) by (fastforce simp: proc_sync_def proc_working_def)
  moreover have "sem_counts (threadCount c) holding (p_sem s) (p_child s)"
    using y by (simp add: proc_sync_def sem_inv_def)
  ultimately show ?thesis using sem_counts_one_holder assms(3,4) by metis
qed

text \<open>
  When a \<^verbatim>\<open>fork\<close> fails, the parent of \<^verbatim>\<open>wtc_proc\<close> exits and the children it already has never return
  (for a graph with a node): they wait at a barrier that needs the parent.
\<close>

theorem proc_fork_failure_strands_children:
  assumes "(proc_step c)\<^sup>*\<^sup>* (proc_init m) s" and "int_fits (lineCount c) m" and "p_parent s = PErrExit"
    and "0 < lineCount c" and "(proc_step c)\<^sup>*\<^sup>* s s'" and "x < threadCount c"
  shows "p_parent s' = PErrExit \<and> p_child s' x \<noteq> CExit"
proof -
  have "p_parent s' = PErrExit" using assms(5,3)
  proof (induction rule: rtranclp_induct)
    case (step u v)
    from step(2) step(3) [OF step.prems] show ?case
      by cases (auto dest: child_step_frame simp: parent_step_def proc_barrier_step_def)
  qed
  moreover have "proc_inv c (int_edge (lineCount c) m) s'"
    using proc_inv_reachable [OF rtranclp_trans [OF assms(1,5)] assms(2)] .
  ultimately show ?thesis using assms(4,6) by (fastforce simp: proc_inv_def proc_working_def)
qed

text \<open>
  The columns from \<open>T * (n div T)\<close> on belong to no child: \<^verbatim>\<open>rowsPer\<close> is rounded down, so the edges into
  these vertices are those of the input when the result is printed.
\<close>

theorem proc_remainder_columns_untouched:
  assumes "(proc_step c)\<^sup>*\<^sup>* (proc_init m) s" and "int_fits (lineCount c) m"
    and "threadCount c * rowsPer c \<le> j" and "j < lineCount c" and "i < lineCount c"
  shows "int_edge (lineCount c) (p_matrix s) i j = int_edge (lineCount c) m i j"
  using idle_column [OF proc_inv_reachable [OF assms(1,2)] assms(3-5)] .

text \<open>
  \<^verbatim>\<open>semOffset\<close> counts ints but is added to a pointer to \<^verbatim>\<open>sem_t\<close>: for a \<^verbatim>\<open>sem_t\<close> of at least 8 bytes and
  a barrier no larger than it (32 bytes both with glibc on x86-64) the barrier of \<^verbatim>\<open>wtc_proc\<close> lies
  completely behind the segment that was asked for.
\<close>

theorem proc_barrier_outside_segment:
  assumes "8 \<le> sem_t" and "barrier_t \<le> sem_t"
  shows "segment_size sem_t barrier_t n \<le> barrier_offset sem_t n"
proof -
  have "2 * sem_t \<le> semOffset sem_t * sem_t"
    using assms(1) by (intro mult_right_mono) (simp_all add: semOffset_def)
  then have "sem_t + barrier_t \<le> semOffset sem_t * sem_t" using assms(2) by linarith
  then show ?thesis by (simp add: segment_size_def barrier_offset_def lock_offset_def)
qed

section \<open>Concrete runs\<close>

definition proc_sample :: proc_cfg where
  "proc_sample = \<lparr>threadCount = 2, lineCount = 2\<rparr>"

definition forks :: "proc_mover list" where
  "forks = [Parent Forked, Parent Forked, Parent Forked, Parent Forked]"

definition kills :: "proc_mover list" where
  "kills = [Parent Forked, Parent Forked, Parent Forked]"

definition proc_sample_run :: "proc_mover list" where
  "proc_sample_run =
     forks @ replicate 4 (Child 0) @ replicate 2 (Child 1) @ replicate 4 (Child 0) @ replicate 6 (Child 1) @
     [Meet, Parent Forked] @
     replicate 8 (Child 1) @ replicate 8 (Child 0) @ [Meet, Parent Forked, Child 0] @ kills"

lemma proc_sample_end:
  "map_option (\<lambda>s. (p_parent s, p_matrix s)) (proc_run proc_sample proc_sample_run (proc_init [0, 1, 1, 0])) =
   Some (PDone, [1, 1, 1, 1])"
  by code_simp

lemma proc_sample_fits: "int_fits (lineCount proc_sample) [0, 1, 1, 0]"
  by (simp add: int_fits_def proc_sample_def)

lemma proc_sample_reached:
  "\<exists>s. (proc_step proc_sample)\<^sup>*\<^sup>* (proc_init [0, 1, 1, 0]) s \<and> p_parent s = PDone \<and> p_matrix s = [1, 1, 1, 1]"
  using proc_sample_end by (auto intro: proc_run_steps)

theorem proc_computes_closure_witness:
  "\<exists>s. (proc_step proc_sample)\<^sup>*\<^sup>* (proc_init [0, 1, 1, 0]) s \<and> p_parent s = PDone \<and>
       (int_edge 2 (p_matrix s) 1 1 \<longleftrightarrow> path_closure 2 (int_edge 2 [0, 1, 1, 0]) 1 1)"
proof -
  obtain s where s: "(proc_step proc_sample)\<^sup>*\<^sup>* (proc_init [0, 1, 1, 0]) s" "p_parent s = PDone"
    using proc_sample_reached by blast
  have "int_edge 2 (p_matrix s) 1 1 \<longleftrightarrow> path_closure 2 (int_edge 2 [0, 1, 1, 0]) 1 1"
    using proc_computes_closure [OF s proc_sample_fits, of 1 1] by (simp add: proc_sample_def)
  with s show ?thesis by blast
qed


lemma proc_sample_holding:
  "map_option (\<lambda>s. holding (p_child s 0)) (proc_run proc_sample (take 10 proc_sample_run) (proc_init [0, 1, 1, 0])) =
   Some True"
  by code_simp

theorem proc_exclusive_and_safe_witness:
  "\<exists>s. (proc_step proc_sample)\<^sup>*\<^sup>* (proc_init [0, 1, 1, 0]) s \<and> holding (p_child s 0) \<and> \<not> holding (p_child s 1)"
proof -
  obtain s where s: "proc_run proc_sample (take 10 proc_sample_run) (proc_init [0, 1, 1, 0]) = Some s"
    "holding (p_child s 0)"
    using proc_sample_holding by auto
  have "holding (p_child s 0) \<and> holding (p_child s 1) \<longrightarrow> 0 = (1::nat)"
    using proc_exclusive_and_safe [OF proc_run_steps [OF s(1)] proc_sample_fits, of 0 1]
    by (simp add: proc_sample_def)
  then show ?thesis using s(2) proc_run_steps [OF s(1)] by auto
qed

lemma proc_sample_fork_fails:
  "map_option p_parent (proc_run proc_sample [Parent Forked, Parent ForkFailed] (proc_init [0, 1, 1, 0])) =
   Some PErrExit"
  by code_simp

theorem proc_fork_failure_strands_children_witness:
  "\<exists>s. (proc_step proc_sample)\<^sup>*\<^sup>* (proc_init [0, 1, 1, 0]) s \<and>
       (\<forall>s'. (proc_step proc_sample)\<^sup>*\<^sup>* s s' \<longrightarrow> p_child s' 0 \<noteq> CExit)"
proof -
  obtain s where s: "proc_run proc_sample [Parent Forked, Parent ForkFailed] (proc_init [0, 1, 1, 0]) = Some s"
    "p_parent s = PErrExit"
    using proc_sample_fork_fails by auto
  have "(proc_step proc_sample)\<^sup>*\<^sup>* s s' \<Longrightarrow> p_child s' 0 \<noteq> CExit" for s'
    using proc_fork_failure_strands_children [OF proc_run_steps [OF s(1)] proc_sample_fits s(2), of s' 0]
    by (simp add: proc_sample_def)
  then show ?thesis using proc_run_steps [OF s(1)] by blast
qed

text \<open>
  Two children and three vertices, edges \<open>1 \<rightarrow> 2\<close> and \<open>2 \<rightarrow> 3\<close>: the edge \<open>1 \<rightarrow> 3\<close> of the closure is missing.
\<close>

definition proc_uneven :: proc_cfg where
  "proc_uneven = \<lparr>threadCount = 2, lineCount = 3\<rparr>"

definition proc_uneven_run :: "proc_mover list" where
  "proc_uneven_run =
     forks @ concat (replicate 3 (replicate 9 (Child 0) @ replicate 9 (Child 1) @ [Meet, Parent Forked])) @ kills"

lemma proc_uneven_end:
  "map_option p_parent (proc_run proc_uneven proc_uneven_run (proc_init [0, 1, 0, 0, 0, 1, 0, 0, 0])) = Some PDone"
  by code_simp

theorem proc_remainder_columns_untouched_witness:
  "\<exists>s. (proc_step proc_uneven)\<^sup>*\<^sup>* (proc_init [0, 1, 0, 0, 0, 1, 0, 0, 0]) s \<and> p_parent s = PDone \<and>
       \<not> int_edge 3 (p_matrix s) 0 2 \<and> path_closure 3 (int_edge 3 [0, 1, 0, 0, 0, 1, 0, 0, 0]) 0 2"
proof -
  obtain s where s: "(proc_step proc_uneven)\<^sup>*\<^sup>* (proc_init [0, 1, 0, 0, 0, 1, 0, 0, 0]) s" "p_parent s = PDone"
    using proc_uneven_end by (auto intro: proc_run_steps)
  have fits: "int_fits (lineCount proc_uneven) [0, 1, 0, 0, 0, 1, 0, 0, 0]"
    by (simp add: int_fits_def proc_uneven_def)
  have "int_edge 3 (p_matrix s) 0 2 = int_edge 3 [0, 1, 0, 0, 0, 1, 0, 0, 0] 0 2"
    using proc_remainder_columns_untouched [OF s(1) fits, of 2 0]
    by (simp add: proc_uneven_def rowsPer_def)
  moreover have "\<not> int_edge 3 [0, 1, 0, 0, 0, 1, 0, 0, 0] 0 2" "int_edge 3 [0, 1, 0, 0, 0, 1, 0, 0, 0] 0 1"
    "int_edge 3 [0, 1, 0, 0, 0, 1, 0, 0, 0] 1 2"
    by code_simp+
  moreover from this(2,3) have "path_closure 3 (int_edge 3 [0, 1, 0, 0, 0, 1, 0, 0, 0]) 0 2"
    unfolding path_closure_def by (intro trancl_into_trancl [OF r_into_trancl, of 0 1]) simp_all
  ultimately show ?thesis using s by blast
qed

theorem proc_barrier_outside_segment_witness:
  "segment_size 32 32 5 \<le> barrier_offset 32 5"
  by (rule proc_barrier_outside_segment) (simp_all add: semOffset_def)

end
