(* ===== verification/Proc_Bag.thy ===== *)
theory Proc_Bag
  imports Proc_Closure
begin

text \<open>
  The bag-of-tasks processes of \<^verbatim>\<open>Project_1/Stuff/wtc_btproc.c\<close>: the columns of the round are taken one
  by one from a queue in shared memory, an array \<open>0 \<dots> n - 1, -1\<close> with a cursor \<^verbatim>\<open>qNum\<close> under its own
  semaphore; two barriers enclose the parent's reset of the cursor between the rounds. The update of
  an entry and the parent's forks and kills are those of \<open>Proc_Closure\<close>.
\<close>

section \<open>State\<close>

definition setQueue :: "nat \<Rightarrow> int list" where
  "setQueue n = map int [0..<n] @ [- 1]"

text \<open>
  A child at the test of its loop over \<^verbatim>\<open>k\<close>; at \<^verbatim>\<open>sem_wait(queueLock)\<close>; before the pop; after it with the
  value read; at \<^verbatim>\<open>sem_wait(matrixLock)\<close>; in the loop over \<^verbatim>\<open>j\<close>; at \<^verbatim>\<open>sem_post(matrixLock)\<close>; at each of the
  two barriers.
\<close>

datatype bag_pc =
    BNone | BTest nat | BPop nat | BPopIn nat | BPopPost nat int | BWait nat nat
  | BEntry nat nat nat | BPost nat nat | BBarrier1 nat | BBarrier2 nat | BExit | BKilled | BFault

datatype bag_parent =
    QFork nat | QTest nat | QBarrier1 nat | QReset nat | QBarrier2 nat | QKill nat | QDone | QErrExit

record bag_state =
  b_matrix :: int_matrix
  b_matrixLock :: nat
  b_queue :: "int list"
  b_queueLock :: nat
  b_qNum :: nat
  b_child :: "nat \<Rightarrow> bag_pc"
  b_parent :: bag_parent

definition initShm :: "nat \<Rightarrow> int_matrix \<Rightarrow> bag_state" where
  "initShm n m = \<lparr>b_matrix = m, b_matrixLock = 1, b_queue = setQueue n, b_queueLock = 1, b_qNum = 0,
                  b_child = (\<lambda>_. BNone), b_parent = QFork 0\<rparr>"

section \<open>Steps\<close>

definition bag_goto :: "nat \<Rightarrow> bag_pc \<Rightarrow> bag_state \<Rightarrow> bag_state" where
  "bag_goto x pc s = s\<lparr>b_child := (b_child s)(x := pc)\<rparr>"

text \<open>\<^verbatim>\<open>queuePop\<close> between its \<^verbatim>\<open>sem_wait\<close> and \<^verbatim>\<open>sem_post\<close>; the semaphore makes it one step.\<close>

definition queuePop :: "bag_state \<Rightarrow> (int \<times> bag_state) option" where
  "queuePop s =
     (if b_qNum s < length (b_queue s)
      then (let y = b_queue s ! b_qNum s
            in Some (y, if y \<noteq> - 1 then s\<lparr>b_qNum := b_qNum s + 1\<rparr> else s))
      else None)"

definition bag_child_step :: "nat \<Rightarrow> nat \<Rightarrow> bag_state \<Rightarrow> bag_state option" where
  "bag_child_step n x s =
     (case b_child s x of
        BTest k \<Rightarrow> Some (bag_goto x (if k < n then BPop k else BExit) s)
      | BPop k \<Rightarrow>
          if b_queueLock s = 0 then None
          else Some (bag_goto x (BPopIn k) (s\<lparr>b_queueLock := b_queueLock s - 1\<rparr>))
      | BPopIn k \<Rightarrow>
          (case queuePop s of None \<Rightarrow> Some (bag_goto x BFault s)
                            | Some (y, s1) \<Rightarrow> Some (bag_goto x (BPopPost k y) s1))
      | BPopPost k y \<Rightarrow>
          Some (bag_goto x (if y = - 1 then BBarrier1 k else BWait k (nat y))
                 (s\<lparr>b_queueLock := b_queueLock s + 1\<rparr>))
      | BWait k y \<Rightarrow>
          if b_matrixLock s = 0 then None
          else Some (bag_goto x (BEntry k y 0) (s\<lparr>b_matrixLock := b_matrixLock s - 1\<rparr>))
      | BEntry k y j \<Rightarrow>
          if j < n
          then (case update_entry n k y j (b_matrix s) of
                  None \<Rightarrow> Some (bag_goto x BFault s)
                | Some m \<Rightarrow> Some (bag_goto x (BEntry k y (j + 1)) (s\<lparr>b_matrix := m\<rparr>)))
          else Some (bag_goto x (BPost k y) s)
      | BPost k y \<Rightarrow> Some (bag_goto x (BPop k) (s\<lparr>b_matrixLock := b_matrixLock s + 1\<rparr>))
      | _ \<Rightarrow> None)"

definition bag_parent_step :: "nat \<Rightarrow> nat \<Rightarrow> fork_result \<Rightarrow> bag_state \<Rightarrow> bag_state option" where
  "bag_parent_step n T r s =
     (case b_parent s of
        QFork x \<Rightarrow>
          if x < T
          then (case r of Forked \<Rightarrow> Some ((bag_goto x (BTest 0) s)\<lparr>b_parent := QFork (x + 1)\<rparr>)
                        | ForkFailed \<Rightarrow> Some (s\<lparr>b_parent := QErrExit\<rparr>))
          else Some (s\<lparr>b_parent := QTest 0\<rparr>)
      | QTest k \<Rightarrow> Some (s\<lparr>b_parent := (if k < n then QBarrier1 k else QKill 0)\<rparr>)
      | QReset k \<Rightarrow> Some (s\<lparr>b_qNum := 0, b_parent := QBarrier2 k\<rparr>)
      | QKill z \<Rightarrow>
          if z < T then Some ((bag_goto z BKilled s)\<lparr>b_parent := QKill (z + 1)\<rparr>)
          else Some (s\<lparr>b_parent := QDone\<rparr>)
      | _ \<Rightarrow> None)"

text \<open>The two barriers, each for \<^verbatim>\<open>threadCount + 1\<close> processes.\<close>

fun at_barrier1 :: "bag_pc \<Rightarrow> bool" where
  "at_barrier1 (BBarrier1 _) = True"
| "at_barrier1 _ = False"

fun at_barrier2 :: "bag_pc \<Rightarrow> bool" where
  "at_barrier2 (BBarrier2 _) = True"
| "at_barrier2 _ = False"

fun past_bag_barrier :: "bag_pc \<Rightarrow> bag_pc" where
  "past_bag_barrier (BBarrier1 k) = BBarrier2 k"
| "past_bag_barrier (BBarrier2 k) = BTest (k + 1)"
| "past_bag_barrier pc = pc"

definition bag_barrier_step :: "nat \<Rightarrow> bag_state \<Rightarrow> bag_state option" where
  "bag_barrier_step T s =
     (case b_parent s of
        QBarrier1 k \<Rightarrow>
          if list_all (\<lambda>x. at_barrier1 (b_child s x)) [0..<T]
          then Some (s\<lparr>b_child := (\<lambda>x. past_bag_barrier (b_child s x)), b_parent := QReset k\<rparr>)
          else None
      | QBarrier2 k \<Rightarrow>
          if list_all (\<lambda>x. at_barrier2 (b_child s x)) [0..<T]
          then Some (s\<lparr>b_child := (\<lambda>x. past_bag_barrier (b_child s x)), b_parent := QTest (k + 1)\<rparr>)
          else None
      | _ \<Rightarrow> None)"

inductive bag_step :: "nat \<Rightarrow> nat \<Rightarrow> bag_state \<Rightarrow> bag_state \<Rightarrow> bool" for n T where
  bag_child: "x < T \<Longrightarrow> bag_child_step n x s = Some s' \<Longrightarrow> bag_step n T s s'"
| bag_parent: "bag_parent_step n T r s = Some s' \<Longrightarrow> bag_step n T s s'"
| bag_meet: "bag_barrier_step T s = Some s' \<Longrightarrow> bag_step n T s s'"

definition bag_move :: "nat \<Rightarrow> nat \<Rightarrow> proc_mover \<Rightarrow> bag_state \<Rightarrow> bag_state option" where
  "bag_move n T a s =
     (case a of Child x \<Rightarrow> if x < T then bag_child_step n x s else None
      | Parent r \<Rightarrow> bag_parent_step n T r s
      | Meet \<Rightarrow> bag_barrier_step T s)"

definition bag_run :: "nat \<Rightarrow> nat \<Rightarrow> proc_mover list \<Rightarrow> bag_state \<Rightarrow> bag_state option" where
  "bag_run n T = runs (bag_move n T)"

lemma bag_run_steps: "bag_run n T as s = Some s' \<Longrightarrow> (bag_step n T)\<^sup>*\<^sup>* s s'"
  unfolding bag_run_def
  by (erule runs_steps) (auto simp: bag_move_def split: proc_mover.splits if_splits intro: bag_step.intros)

section \<open>The round invariant\<close>

text \<open>
  Every cell is visited. A child owes the cells of the column it has taken and not yet processed; the
  columns before the cursor are done but for what is owed.
\<close>

definition everywhere :: cells where
  "everywhere i j \<longleftrightarrow> True"

fun owes :: "bag_pc \<Rightarrow> cells" where
  "owes (BPopPost k y) i j \<longleftrightarrow> int j = y"
| "owes (BWait k y) i j \<longleftrightarrow> j = y"
| "owes (BEntry k y r) i j \<longleftrightarrow> j = y \<and> r \<le> i"
| "owes _ i j \<longleftrightarrow> False"

definition bag_done :: "nat \<Rightarrow> bag_state \<Rightarrow> cells" where
  "bag_done T s i j \<longleftrightarrow> j < b_qNum s \<and> \<not> (\<exists>x<T. owes (b_child s x) i j)"

definition bag_graph :: "graph \<Rightarrow> nat \<Rightarrow> graph" where
  "bag_graph E k = wrounds everywhere k E"

fun bag_ok :: "nat \<Rightarrow> nat \<Rightarrow> nat \<Rightarrow> bag_pc \<Rightarrow> bool" where
  "bag_ok n k q BNone \<longleftrightarrow> k = 0"
| "bag_ok n k q (BTest k') \<longleftrightarrow> k' = k"
| "bag_ok n k q (BPop k') \<longleftrightarrow> k' = k \<and> k < n"
| "bag_ok n k q (BPopIn k') \<longleftrightarrow> k' = k \<and> k < n"
| "bag_ok n k q (BPopPost k' y) \<longleftrightarrow> k' = k \<and> k < n \<and> (y = - 1 \<and> q = n \<or> 0 \<le> y \<and> y < int q)"
| "bag_ok n k q (BWait k' y) \<longleftrightarrow> k' = k \<and> k < n \<and> y < q"
| "bag_ok n k q (BEntry k' y j) \<longleftrightarrow> k' = k \<and> k < n \<and> y < q \<and> j \<le> n"
| "bag_ok n k q (BPost k' y) \<longleftrightarrow> k' = k \<and> k < n \<and> y < q"
| "bag_ok n k q (BBarrier1 k') \<longleftrightarrow> k' = k \<and> k < n \<and> q = n"
| "bag_ok n k q (BBarrier2 k') \<longleftrightarrow> False"
| "bag_ok n k q BExit \<longleftrightarrow> k = n"
| "bag_ok n k q BKilled \<longleftrightarrow> k = n"
| "bag_ok n k q BFault \<longleftrightarrow> False"

definition bag_fits :: "nat \<Rightarrow> bag_state \<Rightarrow> bool" where
  "bag_fits n s \<longleftrightarrow> int_fits n (b_matrix s) \<and> b_queue s = setQueue n \<and> b_qNum s \<le> n"

definition bag_working :: "nat \<Rightarrow> nat \<Rightarrow> graph \<Rightarrow> nat \<Rightarrow> bag_state \<Rightarrow> bool" where
  "bag_working n T E k s \<longleftrightarrow>
     (\<forall>x<T. bag_ok n k (b_qNum s) (b_child s x)) \<and>
     (if k < n
      then in_round n everywhere k (bag_graph E k) (bag_done T s) (int_edge n (b_matrix s))
      else k = n \<and> agree n (bag_graph E k) (int_edge n (b_matrix s)))"

definition bag_turning :: "nat \<Rightarrow> nat \<Rightarrow> graph \<Rightarrow> nat \<Rightarrow> bag_state \<Rightarrow> bool" where
  "bag_turning n T E k s \<longleftrightarrow> k < n \<and> (\<forall>x<T. b_child s x = BBarrier2 k) \<and>
     agree n (bag_graph E (Suc k)) (int_edge n (b_matrix s))"

definition bag_inv :: "nat \<Rightarrow> nat \<Rightarrow> graph \<Rightarrow> bag_state \<Rightarrow> bool" where
  "bag_inv n T E s \<longleftrightarrow> bag_fits n s \<and>
     (case b_parent s of
        QFork _ \<Rightarrow> bag_working n T E 0 s
      | QErrExit \<Rightarrow> bag_working n T E 0 s
      | QTest k \<Rightarrow> bag_working n T E k s
      | QBarrier1 k \<Rightarrow> bag_working n T E k s \<and> k < n
      | QReset k \<Rightarrow> bag_turning n T E k s
      | QBarrier2 k \<Rightarrow> bag_turning n T E k s \<and> b_qNum s = 0
      | QKill _ \<Rightarrow> bag_working n T E n s
      | QDone \<Rightarrow> bag_working n T E n s)"

lemma bag_goto_simps [simp]:
  "b_child (bag_goto x pc s) = (b_child s)(x := pc)" "b_matrix (bag_goto x pc s) = b_matrix s"
  "b_qNum (bag_goto x pc s) = b_qNum s" "b_queue (bag_goto x pc s) = b_queue s"
  "b_matrixLock (bag_goto x pc s) = b_matrixLock s" "b_queueLock (bag_goto x pc s) = b_queueLock s"
  "b_parent (bag_goto x pc s) = b_parent s"
  by (simp_all add: bag_goto_def)

lemma bag_working_move:
  assumes w: "bag_working n T E k s" and x: "x < T"
    and q: "b_qNum s' = b_qNum s \<or> b_qNum s' = Suc (b_qNum s) \<and> b_qNum s < n"
    and pc: "bag_ok n k (b_qNum s') pc" and pcs: "b_child s' = (b_child s)(x := pc)"
    and add: "\<And>i j. i < n \<Longrightarrow> j < n \<Longrightarrow> j < b_qNum s' \<Longrightarrow> \<not> owes pc i j \<Longrightarrow>
      j < b_qNum s \<and> \<not> owes (b_child s x) i j \<or> X i j"
    and m: "k < n \<Longrightarrow>
      in_round n everywhere k (bag_graph E k) (bag_done T s) (int_edge n (b_matrix s)) \<Longrightarrow>
      in_round n everywhere k (bag_graph E k) (\<lambda>i j. bag_done T s i j \<or> X i j) (int_edge n (b_matrix s'))"
    and m': "\<not> k < n \<Longrightarrow> b_matrix s' = b_matrix s"
  shows "bag_working n T E k s'"
proof -
  have old: "bag_ok n k (b_qNum s) (b_child s u)" if "u < T" for u using w that by (simp add: bag_working_def)
  have "bag_ok n k (b_qNum s') (b_child s u)" if "u < T" for u
    using q old [OF that] by (cases "b_child s u") auto
  then have ok: "\<forall>u<T. bag_ok n k (b_qNum s') (b_child s' u)" using pc by (simp add: pcs)
  show ?thesis
  proof (cases "k < n")
    case True
    have "in_round n everywhere k (bag_graph E k) (bag_done T s') (int_edge n (b_matrix s'))"
    proof (rule in_round_weaken [OF m [OF True]])
      show "in_round n everywhere k (bag_graph E k) (bag_done T s) (int_edge n (b_matrix s))"
        using w True by (simp add: bag_working_def)
      fix i j assume ij: "i < n" "j < n" and d: "bag_done T s' i j"
      then have "j < b_qNum s'" "\<not> owes pc i j" and others: "\<And>u. u < T \<Longrightarrow> u \<noteq> x \<Longrightarrow> \<not> owes (b_child s u) i j"
        using x by (auto simp: bag_done_def pcs)
      with add [OF ij] show "bag_done T s i j \<or> X i j" unfolding bag_done_def by metis
    qed
    then show ?thesis using True ok by (simp add: bag_working_def)
  next
    case False
    then show ?thesis using w ok m' unfolding bag_working_def by metis
  qed
qed

lemma queuePop_effect:
  assumes "bag_fits n s"
  shows "\<exists>y s1. queuePop s = Some (y, s1) \<and>
    (b_qNum s < n \<and> y = int (b_qNum s) \<and> s1 = s\<lparr>b_qNum := Suc (b_qNum s)\<rparr> \<or>
     b_qNum s = n \<and> y = - 1 \<and> s1 = s)"
proof -
  have q: "b_queue s = map int [0..<n] @ [- 1]" "b_qNum s \<le> n"
    using assms by (simp_all add: bag_fits_def setQueue_def)
  show ?thesis
  proof (cases "b_qNum s < n")
    case True
    then have "b_queue s ! b_qNum s = int (b_qNum s)" by (simp add: q nth_append)
    with True show ?thesis by (simp add: queuePop_def q(1) Let_def)
  next
    case False
    then have e: "b_qNum s = n" using q(2) by simp
    then have "b_queue s ! n = - 1" by (simp add: q nth_append)
    with e show ?thesis by (simp add: queuePop_def q(1) Let_def)
  qed
qed

lemma bag_entry_working:
  assumes w: "bag_working n T E k s" and fit: "bag_fits n s" and x: "x < T"
    and st: "bag_child_step n x s = Some s'" and BEntry: "b_child s x = BEntry k' y j"
  shows "bag_working n T E k s' \<and> bag_fits n s'"
proof -
  have ok: "bag_ok n k (b_qNum s) (BEntry k' y j)" using w x BEntry by (auto simp: bag_working_def)
  note move = bag_working_move [OF w x, where X = "\<lambda>_ _. False"]
  from ok have e: "k' = k" "k < n" "y < b_qNum s" "j \<le> n" by auto
  have y: "y < n" using e(3) fit by (simp add: bag_fits_def)
  show ?thesis
  proof (cases "j < n")
    case True
    have "in_round n everywhere k (bag_graph E k) (bag_done T s) (int_edge n (b_matrix s))"
      using w e(2) by (simp add: bag_working_def)
    from update_entry_round [where P = everywhere, OF e(2) y True _ _ this] fit
    obtain m' where m': "update_entry n k y j (b_matrix s) = Some m'" "int_fits n m'"
      "in_round n everywhere k (bag_graph E k) (\<lambda>a b. bag_done T s a b \<or> a = j \<and> b = y) (int_edge n m')"
      by (auto simp: everywhere_def bag_fits_def)
    then have s': "s' = bag_goto x (BEntry k y (j + 1)) (s\<lparr>b_matrix := m'\<rparr>)"
      using st BEntry e(1) True by (simp add: bag_child_step_def)
    have "bag_working n T E k s'"
      by (rule bag_working_move [OF w x, where X = "\<lambda>a b. a = j \<and> b = y" and pc = "BEntry k y (j + 1)"])
        (use e m' True BEntry in \<open>auto simp: s' bag_goto_def\<close>)
    with fit m'(2) show ?thesis by (simp add: s' bag_fits_def)
  next
    case False
    then have s': "s' = bag_goto x (BPost k y) s" using st BEntry e(1) by (simp add: bag_child_step_def)
    have "bag_working n T E k s'"
      by (rule move [where pc = "BPost k y"]) (use BEntry e False in \<open>auto simp: s' bag_goto_def\<close>)
    with fit show ?thesis by (simp add: s' bag_fits_def)
  qed
qed

lemma bag_child_working:
  assumes w: "bag_working n T E k s" and fit: "bag_fits n s" and x: "x < T"
    and st: "bag_child_step n x s = Some s'"
  shows "bag_working n T E k s' \<and> bag_fits n s'"
proof -
  have ok: "bag_ok n k (b_qNum s) (b_child s x)" and kn: "k \<le> n"
    using w x by (auto simp: bag_working_def split: if_splits)
  note move = bag_working_move [OF w x, where X = "\<lambda>_ _. False"]
  show ?thesis
  proof (cases "b_child s x")
    case (BTest k')
    with ok st have s': "s' = bag_goto x (if k < n then BPop k else BExit) s"
      by (simp add: bag_child_step_def)
    have "bag_working n T E k s'"
      by (rule move [where pc = "if k < n then BPop k else BExit"]) (use BTest kn in \<open>auto simp: s'\<close>)
    with fit show ?thesis by (simp add: s' bag_fits_def)
  next
    case (BPop k')
    with ok st have s': "s' = bag_goto x (BPopIn k) (s\<lparr>b_queueLock := b_queueLock s - 1\<rparr>)"
      by (simp add: bag_child_step_def split: if_splits)
    have "bag_working n T E k s'"
      by (rule move [where pc = "BPopIn k"]) (use BPop ok in \<open>auto simp: s' bag_goto_def\<close>)
    with fit show ?thesis by (simp add: s' bag_fits_def)
  next
    case (BPopIn k')
    obtain y s1 where y: "queuePop s = Some (y, s1)"
      and d: "b_qNum s < n \<and> y = int (b_qNum s) \<and> s1 = s\<lparr>b_qNum := Suc (b_qNum s)\<rparr> \<or>
        b_qNum s = n \<and> y = - 1 \<and> s1 = s"
      using queuePop_effect [OF fit] by blast
    with BPopIn ok st have s': "s' = bag_goto x (BPopPost k y) s1" by (simp add: bag_child_step_def)
    have "bag_working n T E k s'"
      by (rule move [where pc = "BPopPost k y"]) (use BPopIn ok d in \<open>auto simp: s' bag_goto_def\<close>)
    with fit d show ?thesis by (auto simp: s' bag_fits_def)
  next
    case (BPopPost k' y)
    let ?pc = "if y = - 1 then BBarrier1 k else BWait k (nat y)"
    have s': "s' = bag_goto x ?pc (s\<lparr>b_queueLock := b_queueLock s + 1\<rparr>)"
      using BPopPost ok st by (simp add: bag_child_step_def)
    have "bag_working n T E k s'"
      by (rule move [where pc = ?pc]) (use BPopPost ok in \<open>auto simp: s' bag_goto_def split: if_splits\<close>)
    with fit show ?thesis by (simp add: s' bag_fits_def)
  next
    case (BWait k' y)
    with ok st have s': "s' = bag_goto x (BEntry k y 0) (s\<lparr>b_matrixLock := b_matrixLock s - 1\<rparr>)"
      by (simp add: bag_child_step_def split: if_splits)
    have "bag_working n T E k s'"
      by (rule move [where pc = "BEntry k y 0"]) (use BWait ok in \<open>auto simp: s' bag_goto_def\<close>)
    with fit show ?thesis by (simp add: s' bag_fits_def)
  next
    case (BEntry k' y j)
    from bag_entry_working [OF w fit x st this] show ?thesis .
  next
    case (BPost k' y)
    with ok st have s': "s' = bag_goto x (BPop k) (s\<lparr>b_matrixLock := b_matrixLock s + 1\<rparr>)"
      by (simp add: bag_child_step_def)
    have "bag_working n T E k s'"
      by (rule move [where pc = "BPop k"]) (use BPost ok in \<open>auto simp: s' bag_goto_def\<close>)
    with fit show ?thesis by (simp add: s' bag_fits_def)
  qed (use st in \<open>simp_all add: bag_child_step_def\<close>)
qed

lemma bag_child_frame [frame]: "bag_child_step n x s = Some s' \<Longrightarrow> b_parent s' = b_parent s"
  by (auto simp: bag_child_step_def queuePop_def Let_def split: bag_pc.splits option.splits if_splits)

lemma bag_child_turning:
  assumes "bag_turning n T E k s" and "x < T" and "bag_child_step n x s = Some s'"
  shows False
  using assms by (auto simp: bag_turning_def bag_child_step_def)

lemma bag_inv_child:
  assumes "bag_inv n T E s" and "x < T" and "bag_child_step n x s = Some s'"
  shows "bag_inv n T E s'"
  using assms(1) bag_child_frame [OF assms(3)] bag_child_working [OF _ _ assms(2,3)]
    bag_child_turning [OF _ assms(2,3)]
  unfolding bag_inv_def by (cases "b_parent s") (simp_all, blast+)

lemma bag_cong:
  assumes "b_child s' = b_child s" and "b_matrix s' = b_matrix s"
  shows "b_qNum s' = b_qNum s \<Longrightarrow> bag_working n T E k s' = bag_working n T E k s"
    and "bag_turning n T E k s' = bag_turning n T E k s"
proof -
  show "bag_turning n T E k s' = bag_turning n T E k s" using assms by (simp add: bag_turning_def)
  assume "b_qNum s' = b_qNum s"
  moreover from this have "bag_done T s' = bag_done T s" using assms by (simp add: bag_done_def fun_eq_iff)
  ultimately show "bag_working n T E k s' = bag_working n T E k s" using assms by (simp add: bag_working_def)
qed

lemma bag_parent_update [simp]:
  "bag_working n T E k (s\<lparr>b_parent := pp\<rparr>) = bag_working n T E k s"
  "bag_turning n T E k (s\<lparr>b_parent := pp\<rparr>) = bag_turning n T E k s"
  "bag_turning n T E k (s\<lparr>b_qNum := q\<rparr>) = bag_turning n T E k s"
  "bag_fits n (s\<lparr>b_parent := pp\<rparr>) = bag_fits n s"
  by (rule bag_cong; simp)+ (simp add: bag_fits_def)

lemma bag_working_le: "bag_working n T E k s \<Longrightarrow> k \<le> n"
  by (auto simp: bag_working_def split: if_splits)

lemma bag_fits_goto [simp]:
  "bag_fits n (bag_goto x pc s) = bag_fits n s" "bag_fits n (s\<lparr>b_child := f\<rparr>) = bag_fits n s"
  "bag_fits n (s\<lparr>b_qNum := 0, b_parent := pp\<rparr>) = (bag_fits n (s\<lparr>b_qNum := 0\<rparr>))"
  "bag_fits n (s\<lparr>b_child := f, b_parent := pp\<rparr>) = bag_fits n s"
  by (simp_all add: bag_fits_def bag_goto_def)

text \<open>Children exist in the order of their creation.\<close>

definition bag_created :: "nat \<Rightarrow> bag_state \<Rightarrow> bool" where
  "bag_created T s \<longleftrightarrow>
     (case b_parent s of
        QFork x \<Rightarrow> x \<le> T \<and> (\<forall>y. b_child s y = BNone \<longleftrightarrow> x \<le> y)
      | QErrExit \<Rightarrow> True
      | _ \<Rightarrow> \<forall>y<T. b_child s y \<noteq> BNone)"

lemma bag_inv_parent:
  assumes i: "bag_inv n T E s" and cr: "bag_created T s" and st: "bag_parent_step n T r s = Some s'"
  shows "bag_inv n T E s'"
proof (cases "b_parent s")
  case (QFork x)
  then have w: "bag_working n T E 0 s" and f: "bag_fits n s" using i by (simp_all add: bag_inv_def)
  have none: "b_child s x = BNone" using cr QFork by (simp add: bag_created_def)
  have "x < T \<Longrightarrow> bag_working n T E 0 (bag_goto x (BTest 0) s)"
    by (rule bag_working_move [OF w, where X = "\<lambda>_ _. False" and pc = "BTest 0" and x = x])
      (use none in auto)
  then show ?thesis
    using QFork st w f by (auto simp: bag_inv_def bag_parent_step_def split: if_splits fork_result.splits)
next
  case (QTest k)
  with i st bag_working_le [of n T E k s] show ?thesis
    by (cases "k = n") (auto simp: bag_inv_def bag_parent_step_def)
next
  case (QReset k)
  with i st show ?thesis by (auto simp: bag_inv_def bag_parent_step_def bag_fits_def)
next
  case (QKill z)
  then have w: "bag_working n T E n s" and f: "bag_fits n s" using i by (simp_all add: bag_inv_def)
  have "z < T \<Longrightarrow> bag_working n T E n (bag_goto z BKilled s)"
    by (rule bag_working_move [OF w, where X = "\<lambda>_ _. True" and pc = BKilled and x = z]) auto
  then show ?thesis
    using QKill st w f by (auto simp: bag_inv_def bag_parent_step_def split: if_splits)
qed (use i st in \<open>auto simp: bag_parent_step_def\<close>)

lemma at_barrier1E: "at_barrier1 pc \<Longrightarrow> (\<And>k. pc = BBarrier1 k \<Longrightarrow> P) \<Longrightarrow> P"
  by (cases pc) auto

lemma at_barrier2E: "at_barrier2 pc \<Longrightarrow> (\<And>k. pc = BBarrier2 k \<Longrightarrow> P) \<Longrightarrow> P"
  by (cases pc) auto

lemma bag_inv_barrier:
  assumes i: "bag_inv n T E s" and T: "0 < T" and st: "bag_barrier_step T s = Some s'"
  shows "bag_inv n T E s'"
proof (cases "b_parent s")
  case (QBarrier1 k)
  then have at: "\<forall>x<T. at_barrier1 (b_child s x)"
    and s': "s' = s\<lparr>b_child := (\<lambda>x. past_bag_barrier (b_child s x)), b_parent := QReset k\<rparr>"
    using st by (auto simp: bag_barrier_step_def list_all_iff split: if_splits)
  have w: "bag_working n T E k s" and kn: "k < n" and f: "bag_fits n s"
    using i QBarrier1 by (simp_all add: bag_inv_def)
  have pcs: "b_child s x = BBarrier1 k" "b_qNum s = n" if "x < T" for x
  proof -
    have "bag_ok n k (b_qNum s) (b_child s x)" and "at_barrier1 (b_child s x)"
      using that at w by (auto simp: bag_working_def)
    then show "b_child s x = BBarrier1 k" and "b_qNum s = n" by (auto elim!: at_barrier1E)
  qed
  have q: "b_qNum s = n" using pcs(2) T .
  have "agree n (bag_graph E (Suc k)) (int_edge n (b_matrix s))"
    unfolding bag_graph_def wrounds.simps
  proof (rule in_round_end)
    show "in_round n everywhere k (wrounds everywhere k E) (bag_done T s) (int_edge n (b_matrix s))"
      using w kn by (simp add: bag_working_def bag_graph_def)
    fix i j assume "i < n" "j < n"
    then show "bag_done T s i j" using pcs(1) q by (simp add: bag_done_def)
  qed
  then have "bag_turning n T E k s'" using pcs(1) kn by (simp add: bag_turning_def s')
  then show ?thesis using f by (simp add: bag_inv_def s')
next
  case (QBarrier2 k)
  then have s': "s' = s\<lparr>b_child := (\<lambda>x. past_bag_barrier (b_child s x)), b_parent := QTest (k + 1)\<rparr>"
    using st by (auto simp: bag_barrier_step_def split: if_splits)
  have t: "bag_turning n T E k s" and q: "b_qNum s = 0" and f: "bag_fits n s"
    using i QBarrier2 by (simp_all add: bag_inv_def)
  then have e: "agree n (bag_graph E (Suc k)) (int_edge n (b_matrix s))" and kn: "k < n"
    and pcs: "\<forall>x<T. b_child s x = BBarrier2 k" by (simp_all add: bag_turning_def)
  have "bag_done T s' = (\<lambda>_ _. False)" using q by (simp add: s' bag_done_def fun_eq_iff)
  with in_round_start [OF e] e kn pcs have "bag_working n T E (Suc k) s'"
    by (cases "Suc k = n") (simp_all add: bag_working_def s')
  then show ?thesis using f by (simp add: bag_inv_def s')
qed (use st in \<open>auto simp: bag_barrier_step_def\<close>)

lemma bag_inv_init:
  assumes "int_fits n m"
  shows "bag_inv n T (int_edge n m) (initShm n m)"
proof -
  have "in_round n everywhere 0 (int_edge n m) (bag_done T (initShm n m)) (int_edge n m)"
    by (rule in_round_weaken [OF in_round_start [OF agree_refl]]) (simp add: bag_done_def initShm_def)
  then show ?thesis
    using assms by (auto simp: bag_inv_def initShm_def bag_working_def bag_graph_def bag_fits_def)
qed

lemma bag_inv_step:
  "0 < T \<Longrightarrow> bag_inv n T E s \<Longrightarrow> bag_created T s \<Longrightarrow> bag_step n T s s' \<Longrightarrow> bag_inv n T E s'"
  by (auto elim!: bag_step.cases intro: bag_inv_child bag_inv_parent bag_inv_barrier)

section \<open>Forking and the two semaphores\<close>

fun has_matrix :: "bag_pc \<Rightarrow> bool" where
  "has_matrix (BEntry _ _ _) = True"
| "has_matrix (BPost _ _) = True"
| "has_matrix BFault = True"
| "has_matrix _ = False"

fun has_queue :: "bag_pc \<Rightarrow> bool" where
  "has_queue (BPopIn _) = True"
| "has_queue (BPopPost _ _) = True"
| "has_queue _ = False"

definition bag_sems :: "nat \<Rightarrow> bag_state \<Rightarrow> bool" where
  "bag_sems T s \<longleftrightarrow> sem_counts T has_matrix (b_matrixLock s) (b_child s) \<and>
     sem_counts T has_queue (b_queueLock s) (b_child s)"

lemma bag_child_shape:
  assumes "bag_child_step n x s = Some s'" and "bag_fits n s"
  shows "\<exists>pc. b_child s' = (b_child s)(x := pc) \<and> b_child s x \<noteq> BNone \<and> pc \<noteq> BNone \<and>
    sem_move has_matrix (b_matrixLock s) (b_matrixLock s') (b_child s x) pc \<and>
    sem_move has_queue (b_queueLock s) (b_queueLock s') (b_child s x) pc"
proof (cases "b_child s x")
  case (BPopIn k)
  obtain y s1 where "queuePop s = Some (y, s1)" "s1 = s\<lparr>b_qNum := Suc (b_qNum s)\<rparr> \<or> s1 = s"
    using queuePop_effect [OF assms(2)] by blast
  then show ?thesis using assms(1) BPopIn by (auto simp: bag_child_step_def sem_move_def)
qed (use assms(1) in \<open>auto simp: bag_child_step_def sem_move_def split: option.splits if_splits\<close>)

lemma bag_sems_child:
  assumes "bag_sems T s" and "bag_fits n s" and "x < T" and "bag_child_step n x s = Some s'"
  shows "bag_sems T s'"
proof -
  obtain pc where "b_child s' = (b_child s)(x := pc)"
    "sem_move has_matrix (b_matrixLock s) (b_matrixLock s') (b_child s x) pc"
    "sem_move has_queue (b_queueLock s) (b_queueLock s') (b_child s x) pc"
    using bag_child_shape [OF assms(4,2)] by blast
  with sem_counts_move assms(1,3) show ?thesis unfolding bag_sems_def by metis
qed

lemma bag_sems_same:
  assumes "bag_sems T s" and "b_matrixLock s' = b_matrixLock s" and "b_queueLock s' = b_queueLock s"
    and "\<And>x. x < T \<Longrightarrow> has_matrix (b_child s' x) = has_matrix (b_child s x)"
    and "\<And>x. x < T \<Longrightarrow> has_queue (b_child s' x) = has_queue (b_child s x)"
  shows "bag_sems T s'"
  using sem_counts_cong [of T has_matrix "b_matrixLock s" "b_child s" "b_child s'"]
    sem_counts_cong [of T has_queue "b_queueLock s" "b_child s" "b_child s'"] assms
  by (simp add: bag_sems_def)

lemma holds_nothing:
  assumes "bag_working n T E k s" and "x < T" and "k = n \<or> b_child s x = BNone"
  shows "\<not> has_matrix (b_child s x)" "\<not> has_queue (b_child s x)"
  using assms by (cases "b_child s x"; auto simp: bag_working_def)+

lemma bag_sems_parent:
  assumes i: "bag_sems T s" and p: "bag_inv n T E s" and cr: "bag_created T s"
    and st: "bag_parent_step n T r s = Some s'"
  shows "bag_sems T s'"
proof (cases "b_parent s")
  case (QFork y)
  then have y: "b_child s y = BNone" using cr by (simp add: bag_created_def)
  have "b_child s' = (b_child s)(y := BTest 0) \<or> b_child s' = b_child s"
    "b_matrixLock s' = b_matrixLock s" "b_queueLock s' = b_queueLock s"
    using st QFork by (cases r; auto simp: bag_parent_step_def split: if_splits)+
  then show ?thesis using y by (elim disjE; intro bag_sems_same [OF i]; auto)
next
  case (QKill z)
  then have w: "bag_working n T E n s" using p by (simp add: bag_inv_def)
  have "z < T \<and> b_child s' = (b_child s)(z := BKilled) \<or> b_child s' = b_child s"
    "b_matrixLock s' = b_matrixLock s" "b_queueLock s' = b_queueLock s"
    using st QKill by (auto simp: bag_parent_step_def split: if_splits)
  then show ?thesis using holds_nothing [OF w] by (elim disjE conjE; intro bag_sems_same [OF i]; auto)
qed (use st in \<open>auto simp: bag_parent_step_def intro: bag_sems_same [OF i]\<close>)

lemma past_bag_simps [simp]:
  "has_matrix (past_bag_barrier pc) = has_matrix pc" "has_queue (past_bag_barrier pc) = has_queue pc"
  "past_bag_barrier pc = BNone \<longleftrightarrow> pc = BNone"
  by (cases pc; simp)+

lemma bag_sems_barrier: "bag_sems T s \<Longrightarrow> bag_barrier_step T s = Some s' \<Longrightarrow> bag_sems T s'"
  by (erule bag_sems_same) (auto simp: bag_barrier_step_def split: bag_parent.splits if_splits)

lemma bag_created_child:
  assumes cr: "bag_created T s" and f: "bag_fits n s" and st: "bag_child_step n x s = Some s'"
  shows "bag_created T s'"
proof -
  obtain pc where "b_child s' = (b_child s)(x := pc)" "b_child s x \<noteq> BNone" "pc \<noteq> BNone"
    using bag_child_shape [OF st f] by blast
  then have "b_child s' y = BNone \<longleftrightarrow> b_child s y = BNone" for y by simp
  then show ?thesis
    using cr bag_child_frame [OF st] by (simp add: bag_created_def split: bag_parent.splits)
qed

lemma bag_created_parent:
  assumes cr: "bag_created T s" and st: "bag_parent_step n T r s = Some s'"
  shows "bag_created T s'"
proof (cases "b_parent s")
  case (QFork x)
  then have x: "x \<le> T" and n: "\<And>y. b_child s y = BNone \<longleftrightarrow> x \<le> y"
    using cr by (simp_all add: bag_created_def)
  show ?thesis
  proof (cases "x < T")
    case True
    show ?thesis
    proof (cases r)
      case Forked
      with QFork True st have s': "s' = (bag_goto x (BTest 0) s)\<lparr>b_parent := QFork (x + 1)\<rparr>"
        by (simp add: bag_parent_step_def)
      have "b_child s' y = BNone \<longleftrightarrow> Suc x \<le> y" for y using n [of y] by (cases "y = x") (auto simp: s')
      with True show ?thesis by (simp add: bag_created_def s' del: bag_goto_simps)
    next
      case ForkFailed
      with QFork True st show ?thesis by (auto simp: bag_parent_step_def bag_created_def)
    qed
  next
    case False
    with QFork st have s': "s' = s\<lparr>b_parent := QTest 0\<rparr>" by (simp add: bag_parent_step_def)
    show ?thesis using n False by (simp add: bag_created_def s')
  qed
next
  case (QKill z)
  then have "\<And>y. y < T \<Longrightarrow> b_child s y \<noteq> BNone" using cr by (simp add: bag_created_def)
  with QKill st show ?thesis by (auto simp: bag_parent_step_def bag_created_def split: if_splits)
next
  case (QTest k)
  then have "\<And>y. y < T \<Longrightarrow> b_child s y \<noteq> BNone" using cr by (simp add: bag_created_def)
  with QTest st show ?thesis by (auto simp: bag_parent_step_def bag_created_def split: if_splits)
next
  case (QReset k)
  then have "\<And>y. y < T \<Longrightarrow> b_child s y \<noteq> BNone" using cr by (simp add: bag_created_def)
  with QReset st show ?thesis by (auto simp: bag_parent_step_def bag_created_def split: if_splits)
qed (use st in \<open>simp_all add: bag_parent_step_def\<close>)

lemma bag_created_barrier:
  assumes cr: "bag_created T s" and st: "bag_barrier_step T s = Some s'"
  shows "bag_created T s'"
proof (cases "b_parent s")
  case (QBarrier1 k)
  then have "\<And>y. y < T \<Longrightarrow> b_child s y \<noteq> BNone" using cr by (simp add: bag_created_def)
  with QBarrier1 st show ?thesis by (auto simp: bag_barrier_step_def bag_created_def split: if_splits)
next
  case (QBarrier2 k)
  then have "\<And>y. y < T \<Longrightarrow> b_child s y \<noteq> BNone" using cr by (simp add: bag_created_def)
  with QBarrier2 st show ?thesis by (auto simp: bag_barrier_step_def bag_created_def split: if_splits)
qed (use st in \<open>simp_all add: bag_barrier_step_def\<close>)

definition bag_sync :: "nat \<Rightarrow> nat \<Rightarrow> graph \<Rightarrow> bag_state \<Rightarrow> bool" where
  "bag_sync n T E s \<longleftrightarrow> bag_inv n T E s \<and> bag_created T s \<and> bag_sems T s"

lemma bag_inv_fits: "bag_inv n T E s \<Longrightarrow> bag_fits n s"
  by (simp add: bag_inv_def)

lemma bag_sync_step:
  assumes "0 < T" and "bag_sync n T E s" and "bag_step n T s s'"
  shows "bag_sync n T E s'"
  using assms(3)
proof cases
  case (bag_child x)
  then show ?thesis
    using assms bag_inv_step bag_created_child bag_sems_child bag_inv_fits unfolding bag_sync_def by metis
next
  case (bag_parent r)
  then show ?thesis
    using assms bag_inv_step bag_created_parent bag_sems_parent unfolding bag_sync_def by metis
next
  case bag_meet
  then show ?thesis
    using assms bag_inv_step bag_created_barrier bag_sems_barrier unfolding bag_sync_def by metis
qed

lemma bag_sync_init:
  assumes "int_fits n m"
  shows "bag_sync n T (int_edge n m) (initShm n m)"
proof -
  have "bag_created T (initShm n m)" "bag_sems T (initShm n m)"
    by (simp_all add: bag_created_def bag_sems_def sem_counts_def initShm_def)
  with bag_inv_init [OF assms] show ?thesis by (simp add: bag_sync_def)
qed

lemma bag_sync_reachable:
  assumes "(bag_step n T)\<^sup>*\<^sup>* (initShm n m) s" and "int_fits n m" and "0 < T"
  shows "bag_sync n T (int_edge n m) s"
  by (rule rtranclp_invariant [where I = "bag_sync n T (int_edge n m)",
        OF assms(1) bag_sync_init [OF assms(2)] bag_sync_step [OF assms(3)]])

section \<open>Progress and termination\<close>

lemma bag_child_moves:
  assumes "bag_child_step n x s = None"
  shows "b_child s x \<in> {BNone, BExit, BKilled, BFault} \<or> at_barrier1 (b_child s x) \<or> at_barrier2 (b_child s x) \<or>
    b_queueLock s = 0 \<and> (\<exists>k. b_child s x = BPop k) \<or> b_matrixLock s = 0 \<and> (\<exists>k y. b_child s x = BWait k y)"
  using assms by (cases "b_child s x") (auto simp: bag_child_step_def split: option.splits if_splits)

lemma bag_children_blocked:
  assumes w: "bag_working n T E k s" and m: "bag_sems T s" and x: "x < T"
    and b: "\<And>u. u < T \<Longrightarrow> bag_child_step n u s = None"
  shows "b_child s x \<in> {BNone, BExit, BKilled} \<or> at_barrier1 (b_child s x)"
proof -
  have ok: "u < T \<Longrightarrow> bag_ok n k (b_qNum s) (b_child s u)" for u using w by (simp add: bag_working_def)
  have q: "b_queueLock s \<noteq> 0"
  proof
    assume "b_queueLock s = 0"
    with m obtain u where "u < T" "has_queue (b_child s u)"
      using sem_counts_held [of T has_queue "b_child s"] by (auto simp: bag_sems_def)
    with bag_child_moves [OF b] show False by (cases "b_child s u") fastforce+
  qed
  have "b_matrixLock s \<noteq> 0"
  proof
    assume "b_matrixLock s = 0"
    with m obtain u where "u < T" "has_matrix (b_child s u)"
      using sem_counts_held [of T has_matrix "b_child s"] by (auto simp: bag_sems_def)
    with bag_child_moves [OF b] ok show False by (cases "b_child s u") fastforce+
  qed
  with q bag_child_moves [OF b [OF x]] ok [OF x] show ?thesis by (cases "b_child s x") auto
qed

lemma bag_progress:
  assumes y: "bag_sync n T E s" and nd: "b_parent s \<noteq> QDone" "b_parent s \<noteq> QErrExit"
  shows "\<exists>s'. bag_step n T s s'"
proof -
  have parent: "(\<exists>s'. bag_parent_step n T Forked s = Some s') \<Longrightarrow> ?thesis" by (blast intro: bag_step.bag_parent)
  show ?thesis
  proof (cases "b_parent s")
    case (QBarrier1 k)
    show ?thesis
    proof (rule ccontr)
      assume "\<nexists>s'. bag_step n T s s'"
      then have st: "\<not> bag_step n T s s'" for s' by blast
      have ch: "u < T \<Longrightarrow> bag_child_step n u s = None" for u
        using st by (metis not_None_eq bag_step.bag_child)
      have w: "bag_working n T E k s" "k < n" and cr: "\<forall>x<T. b_child s x \<noteq> BNone"
        using y QBarrier1 by (simp_all add: bag_sync_def bag_inv_def bag_created_def)
      have "at_barrier1 (b_child s x)" if x: "x < T" for x
      proof -
        have "bag_ok n k (b_qNum s) (b_child s x)" using w(1) x by (simp add: bag_working_def)
        then show ?thesis
          using bag_children_blocked [OF w(1) _ x ch] y cr x w(2) by (auto simp: bag_sync_def)
      qed
      then have "bag_barrier_step T s \<noteq> None"
        using QBarrier1 by (simp add: bag_barrier_step_def list_all_iff)
      with st show False by (metis not_None_eq bag_step.bag_meet)
    qed
  next
    case (QBarrier2 k)
    then have "bag_turning n T E k s" using y by (simp add: bag_sync_def bag_inv_def)
    then have "bag_barrier_step T s \<noteq> None"
      using QBarrier2 by (simp add: bag_turning_def bag_barrier_step_def list_all_iff)
    then show ?thesis by (metis not_None_eq bag_step.bag_meet)
  qed (use nd in \<open>auto simp: bag_parent_step_def intro!: parent\<close>)
qed

definition bag_parent_left :: "nat \<Rightarrow> nat \<Rightarrow> bag_state \<Rightarrow> nat" where
  "bag_parent_left n T s =
     (case b_parent s of
        QFork x \<Rightarrow> (T - x) + 4 * n + T + 7
      | QTest k \<Rightarrow> 4 * (n - k) + T + 5
      | QBarrier1 k \<Rightarrow> 4 * (n - k) + T + 4
      | QReset k \<Rightarrow> 4 * (n - k) + T + 3
      | QBarrier2 k \<Rightarrow> 4 * (n - k) + T + 2
      | QKill z \<Rightarrow> (T - z) + 1
      | _ \<Rightarrow> 0)"

definition bag_child_left :: "nat \<Rightarrow> bag_pc \<Rightarrow> nat" where
  "bag_child_left n pc =
     (case pc of
        BTest _ \<Rightarrow> 7
      | BPop _ \<Rightarrow> 6
      | BPopIn _ \<Rightarrow> 5
      | BPopPost _ y \<Rightarrow> if y = - 1 then 4 else n + 12
      | BWait _ _ \<Rightarrow> n + 11
      | BEntry _ _ j \<Rightarrow> (n - j) + 9
      | BPost _ _ \<Rightarrow> 8
      | BBarrier1 _ \<Rightarrow> 3
      | _ \<Rightarrow> 0)"

definition bag_order :: "nat \<Rightarrow> nat \<Rightarrow> (bag_state \<times> bag_state) set" where
  "bag_order n T = measures [bag_parent_left n T, \<lambda>s. n - b_qNum s, \<lambda>s. \<Sum>x<T. bag_child_left n (b_child s x)]"

lemma wf_bag_order: "wf (bag_order n T)"
  by (simp add: bag_order_def)

lemma bag_child_decreases:
  assumes f: "bag_fits n s" and st: "bag_child_step n x s = Some s'"
  shows "n - b_qNum s' < n - b_qNum s \<or>
    b_qNum s' = b_qNum s \<and> bag_child_left n (b_child s' x) < bag_child_left n (b_child s x)"
proof (cases "b_child s x")
  case (BPopIn k)
  obtain y s1 where "queuePop s = Some (y, s1)"
    "b_qNum s < n \<and> s1 = s\<lparr>b_qNum := Suc (b_qNum s)\<rparr> \<or> y = - 1 \<and> s1 = s"
    using queuePop_effect [OF f] by blast
  then show ?thesis using st BPopIn by (auto simp: bag_child_step_def bag_child_left_def)
qed (use st in \<open>auto simp: bag_child_step_def bag_child_left_def split: option.splits if_splits\<close>)

lemma bag_step_order:
  assumes y: "bag_sync n T E s" and st: "bag_step n T s s'"
  shows "(s', s) \<in> bag_order n T"
  using st
proof cases
  case (bag_child x)
  have f: "bag_fits n s" using y bag_inv_fits unfolding bag_sync_def by blast
  obtain pc where pcs: "b_child s' = (b_child s)(x := pc)" using bag_child_shape [OF bag_child(2) f] by blast
  have p: "bag_parent_left n T s' = bag_parent_left n T s"
    using bag_child_frame [OF bag_child(2)] by (simp add: bag_parent_left_def)
  have sum: "bag_child_left n pc < bag_child_left n (b_child s x) \<Longrightarrow>
      (\<Sum>u<T. bag_child_left n (b_child s' u)) < (\<Sum>u<T. bag_child_left n (b_child s u))"
    using sum_one_less [OF pcs bag_child(1), where g = "\<lambda>_. bag_child_left n"] by simp
  show ?thesis
    using bag_child_decreases [OF f bag_child(2)] p sum pcs by (auto simp: bag_order_def)
next
  case (bag_parent r)
  then have "bag_parent_left n T s' < bag_parent_left n T s"
    by (cases "b_parent s"; cases r) (auto simp: bag_parent_step_def bag_parent_left_def split: if_splits)
  then show ?thesis by (simp add: bag_order_def)
next
  case bag_meet
  have "b_parent s = QBarrier2 k \<Longrightarrow> k < n" for k
    using y by (simp add: bag_sync_def bag_inv_def bag_turning_def)
  with bag_meet have "bag_parent_left n T s' < bag_parent_left n T s"
    by (cases "b_parent s") (auto simp: bag_barrier_step_def bag_parent_left_def split: if_splits)
  then show ?thesis by (simp add: bag_order_def)
qed

interpretation bag_ending: ending "bag_step n T" "\<lambda>s. 0 < T \<and> (\<exists>m. s = initShm n m \<and> int_fits n m)"
    "\<lambda>s. 0 < T \<and> (\<exists>E. bag_sync n T E s)" "\<lambda>s. b_parent s = QDone \<or> b_parent s = QErrExit" "bag_order n T" for n T
proof unfold_locales
  show "0 < T \<and> (\<exists>m. s = initShm n m \<and> int_fits n m) \<Longrightarrow> 0 < T \<and> (\<exists>E. bag_sync n T E s)" for s
    using bag_sync_reachable by blast
qed (use bag_sync_step bag_progress bag_step_order wf_bag_order in blast)+

section \<open>The shared memory segment\<close>

text \<open>
  Where the objects of the segment lie (offset and length in bytes), as \<^verbatim>\<open>initShm\<close> and \<^verbatim>\<open>wtc_btproc\<close>
  compute their pointers one from the other, and the \<^verbatim>\<open>size\<close> of the segment.
\<close>

definition bag_size :: "nat \<Rightarrow> nat \<Rightarrow> nat \<Rightarrow> nat" where
  "bag_size sem_t barrier_t n = (4 * n * n + sem_t * 2 + 4 * (2 + n)) + 2 * barrier_t"

definition bag_layout :: "nat \<Rightarrow> nat \<Rightarrow> nat \<Rightarrow> (nat \<times> nat) list" where
  "bag_layout sem_t barrier_t n =
     (let matrixLock = 4 * (n * n); queue = matrixLock + sem_t; queueLock = queue + 4 * (n + 1);
          qNum = queueLock + sem_t; barrier1 = qNum + 4; barrier2 = barrier1 + barrier_t
      in [(0, 4 * (n * n)), (matrixLock, sem_t), (queue, 4 * length (setQueue n)), (queueLock, sem_t),
          (qNum, 4), (barrier1, barrier_t), (barrier2, barrier_t)])"

fun adjacent :: "nat \<Rightarrow> (nat \<times> nat) list \<Rightarrow> nat option" where
  "adjacent start [] = Some start"
| "adjacent start ((off, len) # rs) = (if off = start then adjacent (off + len) rs else None)"

section \<open>Properties\<close>

text \<open>
  C4. With at least one child and no failing \<^verbatim>\<open>fork\<close>, \<^verbatim>\<open>wtc_btproc\<close> prints exactly the transitive closure,
  however the children race for the columns and whether or not their number divides that of the
  nodes.
\<close>

theorem bag_computes_closure:
  assumes "(bag_step n T)\<^sup>*\<^sup>* (initShm n m) s" and "b_parent s = QDone"
    and "int_fits n m" and "0 < T" and "i < n" and "j < n"
  shows "int_edge n (b_matrix s) i j \<longleftrightarrow> path_closure n (int_edge n m) i j"
proof -
  have "bag_working n T (int_edge n m) n s"
    using bag_sync_reachable [OF assms(1,3,4)] assms(2) by (simp add: bag_sync_def bag_inv_def)
  then have "agree n (bag_graph (int_edge n m) n) (int_edge n (b_matrix s))" unfolding bag_working_def by simp
  from agreeD [OF this assms(5,6)] show ?thesis
    using wrounds_closure [of n everywhere i j "int_edge n m"] assms(5,6)
    by (simp add: bag_graph_def covers_def everywhere_def)
qed

text \<open>
  C5. The parent of \<^verbatim>\<open>wtc_btproc\<close> always gets to its end: with at least one child no reachable state is
  stuck before, at the two semaphores or the two barriers, and no run is infinite.
\<close>

theorem bag_terminates:
  assumes "int_fits n m" and "0 < T"
  shows "((bag_step n T)\<^sup>*\<^sup>* (initShm n m) s \<longrightarrow> b_parent s \<noteq> QDone \<longrightarrow> b_parent s \<noteq> QErrExit \<longrightarrow>
            (\<exists>s'. bag_step n T s s')) \<and>
         \<not> (\<exists>f. f 0 = initShm n m \<and> (\<forall>i. bag_step n T (f i) (f (Suc i))))"
  using bag_ending.never_stuck [where ?s0.0 = "initShm n m"] bag_ending.no_infinite_run [where ?s0.0 = "initShm n m"] assms
  by blast

text \<open>
  The objects in the shared memory of \<^verbatim>\<open>wtc_btproc\<close> lie one behind the other, without overlap, and end
  exactly where the segment ends.
\<close>

theorem bag_layout_exact:
  "adjacent 0 (bag_layout sem_t barrier_t n) = Some (bag_size sem_t barrier_t n)"
  by (simp add: bag_layout_def bag_size_def setQueue_def Let_def)

section \<open>Concrete runs\<close>

text \<open>Three children for the two columns of the cycle \<open>1 \<rightarrow> 2 \<rightarrow> 1\<close>: child 2 takes both in the first round.\<close>

definition bag_round :: "proc_mover list" where
  "bag_round = replicate 20 (Child 2) @ replicate 4 (Child 0) @ replicate 4 (Child 1) @
     [Meet, Parent Forked, Meet, Parent Forked]"

definition bag_sample_run :: "proc_mover list" where
  "bag_sample_run = replicate 5 (Parent Forked) @ bag_round @ bag_round @ replicate 4 (Parent Forked)"

lemma bag_sample_end:
  "map_option (\<lambda>s. (b_parent s, b_matrix s)) (bag_run 2 3 bag_sample_run (initShm 2 [0, 1, 1, 0])) =
   Some (QDone, [1, 1, 1, 1])"
  by code_simp

lemma bag_sample_reached:
  "\<exists>s. (bag_step 2 3)\<^sup>*\<^sup>* (initShm 2 [0, 1, 1, 0]) s \<and> b_parent s = QDone \<and> b_matrix s = [1, 1, 1, 1]"
  using bag_sample_end by (auto intro: bag_run_steps)

theorem bag_computes_closure_witness:
  "\<exists>s. (bag_step 2 3)\<^sup>*\<^sup>* (initShm 2 [0, 1, 1, 0]) s \<and> b_parent s = QDone \<and>
       (int_edge 2 (b_matrix s) 1 1 \<longleftrightarrow> path_closure 2 (int_edge 2 [0, 1, 1, 0]) 1 1)"
proof -
  obtain s where s: "(bag_step 2 3)\<^sup>*\<^sup>* (initShm 2 [0, 1, 1, 0]) s" "b_parent s = QDone"
    using bag_sample_reached by blast
  have "int_fits 2 [0, 1, 1, 0]" by (simp add: int_fits_def)
  from bag_computes_closure [OF s this, of 1 1] s show ?thesis by auto
qed

theorem bag_terminates_witness:
  "\<not> (\<exists>f. f 0 = initShm 2 [0, 1, 1, 0] \<and> (\<forall>i. bag_step 2 3 (f i) (f (Suc i))))"
  using bag_terminates [of 2 "[0, 1, 1, 0]" 3 "initShm 2 [0, 1, 1, 0]"] by (simp add: int_fits_def)

end
