(* ===== verification/Graph_Text.thy ===== *)
theory Graph_Text
  imports Matrix_Cells
begin

text \<open>
  The text files the closure programs of \<^verbatim>\<open>Project_1/Stuff\<close> read: C streams with their end-of-file flag,
  \<^verbatim>\<open>fscanf\<close> with \<^verbatim>\<open>%d\<close> from the C standard, the decimal text of a graph, and the locale \<^verbatim>\<open>edge_reader\<close>: the
  contract of a loop that reads edges into a matrix, with what follows for the whole file.
\<close>

section \<open>C streams and \<^verbatim>\<open>fscanf\<close>\<close>

record stream =
  avail :: string
  at_eof :: bool

definition is_space :: "char \<Rightarrow> bool" where
  "is_space ch \<longleftrightarrow> (let x = (of_char ch :: nat) in x = 32 \<or> 9 \<le> x \<and> x \<le> 13)"

definition is_digit :: "char \<Rightarrow> bool" where
  "is_digit ch \<longleftrightarrow> (let x = (of_char ch :: nat) in 48 \<le> x \<and> x \<le> 57)"

definition digit_value :: "char \<Rightarrow> nat" where
  "digit_value ch = of_char ch - 48"

definition decimal :: "string \<Rightarrow> nat" where
  "decimal ds = foldl (\<lambda>v ch. 10 * v + digit_value ch) 0 ds"

text \<open>The range of a C \<^verbatim>\<open>int\<close>.\<close>

definition in_int :: "int \<Rightarrow> bool" where
  "in_int v \<longleftrightarrow> - (2 ^ 31) \<le> v \<and> v < 2 ^ 31"

definition skip_space :: "stream \<Rightarrow> stream" where
  "skip_space st =
     (let r = dropWhile is_space (avail st) in \<lparr>avail = r, at_eof = at_eof st \<or> r = []\<rparr>)"

datatype scanned = Got int | NoMatch | EndOfInput | Unrepresentable

text \<open>One \<^verbatim>\<open>%d\<close>: white space, an optional sign, digits up to the first other character.\<close>

definition scan_int :: "stream \<Rightarrow> scanned \<times> stream" where
  "scan_int st0 =
     (let st = skip_space st0; r = avail st
      in if r = [] then (EndOfInput, st)
         else
           let neg = (hd r = CHR ''-'');
               r1 = (if hd r = CHR ''-'' \<or> hd r = CHR ''+'' then tl r else r);
               ds = takeWhile is_digit r1; r2 = dropWhile is_digit r1;
               st' = \<lparr>avail = r2, at_eof = at_eof st \<or> r2 = []\<rparr>;
               v = (if neg then - int (decimal ds) else int (decimal ds))
           in if ds = [] then (NoMatch, st')
              else if in_int v then (Got v, st') else (Unrepresentable, st'))"

text \<open>\<^verbatim>\<open>fscanf(file, "%d %d", &a, &b)\<close>: a conversion that fails leaves the rest of the variables alone.\<close>

definition scan_pair :: "int \<Rightarrow> int \<Rightarrow> stream \<Rightarrow> (int \<times> int \<times> stream) option" where
  "scan_pair a b st =
     (case scan_int st of
        (Got x, st1) \<Rightarrow>
          (case scan_int (skip_space st1) of
             (Got y, st2) \<Rightarrow> Some (x, y, st2)
           | (Unrepresentable, _) \<Rightarrow> None
           | (_, st2) \<Rightarrow> Some (x, b, st2))
      | (Unrepresentable, _) \<Rightarrow> None
      | (_, st1) \<Rightarrow> Some (a, b, st1))"

section \<open>Numbers in a text\<close>

lemma of_char_digit: "d < 10 \<Longrightarrow> of_char (char_of (48 + d :: nat)) = (48 + d :: nat)"
  by simp

lemma digit_char: "d < 10 \<Longrightarrow> is_digit (char_of (48 + d :: nat)) \<and> digit_value (char_of (48 + d :: nat)) = d"
  by (simp add: is_digit_def digit_value_def)

lemma show_nat_digits: "\<forall>ch \<in> set (show_nat n). is_digit ch"
proof (induction n rule: show_nat.induct)
  case (1 n)
  then show ?case
    using digit_char by (subst show_nat.simps) auto
qed

lemma decimal_show_nat: "decimal (show_nat n) = n"
proof (induction n rule: show_nat.induct)
  case (1 n)
  show ?case
  proof (cases "n < 10")
    case True
    then show ?thesis by (simp add: show_nat.simps [of n] decimal_def digit_char)
  next
    case False
    with 1 have "decimal (show_nat (n div 10)) = n div 10" by simp
    with False show ?thesis
      by (simp add: show_nat.simps [of n] decimal_def digit_char)
  qed
qed

lemma digit_not_space: "is_digit ch \<Longrightarrow> \<not> is_space ch"
  by (auto simp: is_digit_def is_space_def Let_def)

lemma digit_not_sign: "is_digit ch \<Longrightarrow> ch \<noteq> CHR ''-'' \<and> ch \<noteq> CHR ''+''"
  by (auto simp: is_digit_def Let_def)

lemma dropWhile_all: "\<forall>x \<in> set xs. P x \<Longrightarrow> dropWhile P (xs @ ys) = dropWhile P ys"
  by (induction xs) auto

lemma takeWhile_digits:
  assumes "rest = [] \<or> \<not> is_digit (hd rest)"
  shows "takeWhile is_digit (show_nat n @ rest) = show_nat n"
    and "dropWhile is_digit (show_nat n @ rest) = rest"
proof -
  have t: "takeWhile is_digit rest = []" "dropWhile is_digit rest = rest"
    using assms by (cases rest; auto)+
  show "takeWhile is_digit (show_nat n @ rest) = show_nat n"
    using show_nat_digits [of n] t by (simp add: takeWhile_append2)
  show "dropWhile is_digit (show_nat n @ rest) = rest"
    using show_nat_digits [of n] t by (simp add: dropWhile_all)
qed

definition blank :: "string \<Rightarrow> bool" where
  "blank w \<longleftrightarrow> list_all is_space w"

lemma skip_blank:
  assumes "blank w" and "rest = [] \<or> \<not> is_space (hd rest)"
  shows "skip_space \<lparr>avail = w @ rest, at_eof = e\<rparr> = \<lparr>avail = rest, at_eof = e \<or> rest = []\<rparr>"
proof -
  have "dropWhile is_space (w @ rest) = rest"
    using assms by (cases rest) (auto simp: blank_def list_all_iff dropWhile_all)
  then show ?thesis by (simp add: skip_space_def)
qed

lemma scan_number:
  assumes w: "blank w" and n: "n < 2 ^ 31" and r: "rest = [] \<or> \<not> is_digit (hd rest)"
  shows "scan_int \<lparr>avail = w @ show_nat n @ rest, at_eof = e\<rparr> =
         (Got (int n), \<lparr>avail = rest, at_eof = e \<or> rest = []\<rparr>)"
proof -
  obtain ch cs where c: "show_nat n = ch # cs" by (cases "show_nat n") auto
  with show_nat_digits [of n] have d: "is_digit ch" by simp
  have skip: "skip_space \<lparr>avail = w @ show_nat n @ rest, at_eof = e\<rparr> =
      \<lparr>avail = show_nat n @ rest, at_eof = e\<rparr>"
    using skip_blank [OF w, of "show_nat n @ rest" e] d by (simp add: c digit_not_space)
  have "hd (show_nat n @ rest) = ch" by (simp add: c)
  with digit_not_sign [OF d] n takeWhile_digits [OF r, of n] show ?thesis
    by (simp add: scan_int_def skip Let_def decimal_show_nat in_int_def)
qed

lemma scan_end: "blank w \<Longrightarrow> scan_int \<lparr>avail = w, at_eof = e\<rparr> = (EndOfInput, \<lparr>avail = [], at_eof = True\<rparr>)"
  using skip_blank [of w "[]" e] by (simp add: scan_int_def)

section \<open>The text of a graph\<close>

text \<open>
  An edge as it stands in a file: white space, the two numbers, white space between them. A file is
  the number of threads, the number of nodes, the edges, and white space at the end.
\<close>

type_synonym edge_text = "string \<times> nat \<times> string \<times> nat"

definition edge_string :: "edge_text \<Rightarrow> string" where
  "edge_string e = (case e of (w, a, w', b) \<Rightarrow> w @ show_nat a @ w' @ show_nat b)"

definition edge_wf :: "nat \<Rightarrow> edge_text \<Rightarrow> bool" where
  "edge_wf n e \<longleftrightarrow> (case e of (w, a, w', b) \<Rightarrow>
     blank w \<and> w \<noteq> [] \<and> blank w' \<and> w' \<noteq> [] \<and> 1 \<le> a \<and> a \<le> n \<and> 1 \<le> b \<and> b \<le> n)"

definition has_edge :: "edge_text list \<Rightarrow> graph" where
  "has_edge es i j \<longleftrightarrow> (\<exists>w w'. (w, i + 1, w', j + 1) \<in> set es)"

definition graph_text :: "nat \<Rightarrow> nat \<Rightarrow> edge_text list \<Rightarrow> string \<Rightarrow> string" where
  "graph_text nt n es w = show_nat nt @ [CHR 0x0A] @ show_nat n @ concat (map edge_string es) @ w"

lemma space_not_digit: "is_space ch \<Longrightarrow> \<not> is_digit ch"
  using digit_not_space by blast

lemma edges_start:
  assumes "\<forall>e \<in> set es. edge_wf n e" and "w = [] \<or> \<not> is_digit (hd w)"
  shows "concat (map edge_string es) @ w = [] \<or> \<not> is_digit (hd (concat (map edge_string es) @ w))"
proof (cases es)
  case Nil
  then show ?thesis using assms(2) by simp
next
  case (Cons e es')
  obtain v a v' b where e: "e = (v, a, v', b)" by (cases e)
  then show ?thesis using assms(1) Cons space_not_digit
    by (cases v) (auto simp: edge_wf_def edge_string_def blank_def)
qed

lemma blank_start: "blank w \<Longrightarrow> w = [] \<or> \<not> is_digit (hd w)"
  using space_not_digit by (cases w) (auto simp: blank_def)

lemma scan_edge:
  assumes wf: "edge_wf n (w, x, w', y)" and n: "n < 2 ^ 31"
    and r: "rest = [] \<or> \<not> is_digit (hd rest)"
  shows "scan_pair a b \<lparr>avail = edge_string (w, x, w', y) @ rest, at_eof = False\<rparr> =
         Some (int x, int y, \<lparr>avail = rest, at_eof = (rest = [])\<rparr>)"
proof -
  have w: "blank w" "blank w'" "w' \<noteq> []" and xy: "x < 2 ^ 31" "y < 2 ^ 31"
    using wf n by (auto simp: edge_wf_def)
  have sp: "is_space (hd (w' @ show_nat y @ rest))"
    using w by (cases w') (auto simp: blank_def)
  have first: "scan_int \<lparr>avail = w @ show_nat x @ w' @ show_nat y @ rest, at_eof = False\<rparr> =
      (Got (int x), \<lparr>avail = w' @ show_nat y @ rest, at_eof = False\<rparr>)"
    using scan_number [OF w(1) xy(1), of "w' @ show_nat y @ rest" False] sp space_not_digit by auto
  have d: "\<not> is_space (hd (show_nat y @ rest))"
    using show_nat_digits [of y] digit_not_space by (cases "show_nat y") auto
  have "skip_space \<lparr>avail = w' @ show_nat y @ rest, at_eof = False\<rparr> =
      \<lparr>avail = show_nat y @ rest, at_eof = False\<rparr>"
    using skip_blank [OF w(2), of "show_nat y @ rest" False] d by simp
  moreover have "scan_int \<lparr>avail = show_nat y @ rest, at_eof = False\<rparr> =
      (Got (int y), \<lparr>avail = rest, at_eof = (rest = [])\<rparr>)"
    using scan_number [of "[]" y rest False] xy r by (simp add: blank_def)
  ultimately show ?thesis using first by (simp add: scan_pair_def edge_string_def)
qed

lemma scan_pair_end:
  assumes "blank w"
  shows "scan_pair a b \<lparr>avail = w, at_eof = False\<rparr> = Some (a, b, \<lparr>avail = [], at_eof = True\<rparr>)"
  by (simp add: scan_pair_def scan_end [OF assms])

text \<open>A character that no conversion accepts is never consumed.\<close>

definition stray :: "char \<Rightarrow> bool" where
  "stray ch \<longleftrightarrow> \<not> is_space ch \<and> \<not> is_digit ch \<and> ch \<noteq> CHR ''-'' \<and> ch \<noteq> CHR ''+''"

lemma scan_stray:
  assumes "stray ch" and "blank w"
  shows "scan_pair a b \<lparr>avail = w @ ch # junk, at_eof = False\<rparr> =
         Some (a, b, \<lparr>avail = ch # junk, at_eof = False\<rparr>)"
proof -
  have "skip_space \<lparr>avail = w @ ch # junk, at_eof = False\<rparr> = \<lparr>avail = ch # junk, at_eof = False\<rparr>"
    using skip_blank [OF assms(2), of "ch # junk" False] assms(1) by (simp add: stray_def)
  then have "scan_int \<lparr>avail = w @ ch # junk, at_eof = False\<rparr> = (NoMatch, \<lparr>avail = ch # junk, at_eof = False\<rparr>)"
    using assms(1) by (simp add: scan_int_def stray_def Let_def)
  then show ?thesis by (simp add: scan_pair_def)
qed

lemma header_scan:
  assumes "nt < 2 ^ 31" and "n < 2 ^ 31" and "rest = [] \<or> \<not> is_digit (hd rest)"
  shows "scan_int \<lparr>avail = show_nat nt @ [CHR 0x0A] @ show_nat n @ rest, at_eof = False\<rparr> =
           (Got (int nt), \<lparr>avail = [CHR 0x0A] @ show_nat n @ rest, at_eof = False\<rparr>)"
    and "scan_int \<lparr>avail = [CHR 0x0A] @ show_nat n @ rest, at_eof = False\<rparr> =
           (Got (int n), \<lparr>avail = rest, at_eof = (rest = [])\<rparr>)"
  using scan_number [of "[]" nt "[CHR 0x0A] @ show_nat n @ rest" False]
    scan_number [of "[CHR 0x0A]" n rest False] assms
  by (simp_all add: blank_def is_digit_def is_space_def)

section \<open>Reading edges into a matrix\<close>

text \<open>
  A loop \<^verbatim>\<open>while (!feof(file)) { fscanf(file, "%d %d", &a, &b); ... }\<close> that makes the edge \<open>(a, b)\<close>: what it
  does with two numbers, with a turn in which nothing is converted, and at the end of the file.
  \<open>known\<close> is the representation of a variable that has a value.
\<close>

locale edge_reader = edge_store edge connect fits
  for edge :: "nat \<Rightarrow> 'm \<Rightarrow> graph" and connect :: "nat \<Rightarrow> nat \<Rightarrow> nat \<Rightarrow> 'm \<Rightarrow> 'm option"
    and fits :: "nat \<Rightarrow> 'm \<Rightarrow> bool" +
  fixes loop :: "nat \<Rightarrow> 'm \<Rightarrow> 'v \<Rightarrow> 'v \<Rightarrow> stream \<Rightarrow> 'r"
    and known :: "int \<Rightarrow> 'v"
    and outcome :: "nat \<Rightarrow> 'm \<Rightarrow> 'r"
  assumes take_edge: "n * n < 2 ^ 31 \<Longrightarrow> i < n \<Longrightarrow> j < n \<Longrightarrow> connect n i j m = Some m' \<Longrightarrow> \<not> at_eof st \<Longrightarrow>
      \<forall>x y. scan_pair x y st = Some (int (i + 1), int (j + 1), st') \<Longrightarrow>
      loop n m a b st = loop n m' (known (int (i + 1))) (known (int (j + 1))) st'"
    and take_again: "n * n < 2 ^ 31 \<Longrightarrow> i < n \<Longrightarrow> j < n \<Longrightarrow> connect n i j m = Some m' \<Longrightarrow> \<not> at_eof st \<Longrightarrow>
      \<forall>x y. scan_pair x y st = Some (x, y, st') \<Longrightarrow>
      loop n m (known (int (i + 1))) (known (int (j + 1))) st =
      loop n m' (known (int (i + 1))) (known (int (j + 1))) st'"
    and at_end: "at_eof st \<Longrightarrow> loop n m a b st = outcome n m"
begin

text \<open>The edges of a file, up to whatever follows them.\<close>

lemma all_edges:
  assumes "\<forall>e \<in> set es. edge_wf n e" and "w = [] \<or> \<not> is_digit (hd w)" and n: "n * n < 2 ^ 31"
    and "fits n m"
  shows "\<exists>m' a' b'. loop n m a b
                \<lparr>avail = concat (map edge_string es) @ w, at_eof = (concat (map edge_string es) @ w = [])\<rparr>
              = loop n m' a' b' \<lparr>avail = w, at_eof = (w = [])\<rparr> \<and>
              fits n m' \<and> agree n (edge n m') (\<lambda>i j. edge n m i j \<or> has_edge es i j) \<and>
              (if es = [] then a' = a \<and> b' = b
               else \<exists>i<n. \<exists>j<n. a' = known (int (i + 1)) \<and> b' = known (int (j + 1)) \<and> edge n m' i j)"
  using assms(1,4)
proof (induction es arbitrary: m a b)
  case Nil
  have "agree n (edge n m) (\<lambda>i j. edge n m i j \<or> has_edge [] i j)"
    by (simp add: agree_def has_edge_def)
  with Nil show ?case by auto
next
  case (Cons e es)
  obtain v x v' y where e: "e = (v, x, v', y)" by (cases e)
  let ?rest = "concat (map edge_string es) @ w"
  have ewf: "edge_wf n (v, x, v', y)" and es: "\<forall>e \<in> set es. edge_wf n e" using Cons.prems e by auto
  then obtain i j where ij: "i < n" "j < n" "x = i + 1" "y = j + 1"
    by (auto simp: edge_wf_def) (metis Suc_le_D Suc_le_lessD less_eq_Suc_le)
  obtain m' where m': "connect n i j m = Some m'"
    using connect_in [OF Cons.prems(2) ij(1,2)] by blast
  note fit' = connect_fits [OF Cons.prems(2) ij(1,2) m']
  have edges: "agree n (edge n m') (\<lambda>a b. edge n m a b \<or> a = i \<and> b = j)"
    by (rule edge_connect [OF Cons.prems(2) ij(1,2) m'])
  have now: "edge n m' i j" using agreeD [OF edges ij(1,2)] by simp
  have "n < 2 ^ 31" using n by (cases n) auto
  then have "scan_pair p q \<lparr>avail = edge_string e @ ?rest, at_eof = False\<rparr> =
      Some (int (i + 1), int (j + 1), \<lparr>avail = ?rest, at_eof = (?rest = [])\<rparr>)" for p q
    using scan_edge [OF ewf _ edges_start [OF es assms(2)]] ij by (simp add: e)
  then have step: "loop n m a b \<lparr>avail = edge_string e @ ?rest, at_eof = False\<rparr> =
      loop n m' (known (int (i + 1))) (known (int (j + 1))) \<lparr>avail = ?rest, at_eof = (?rest = [])\<rparr>"
    by (intro take_edge [OF n ij(1,2) m']) simp_all
  have "edge_string e \<noteq> []" by (simp add: e edge_string_def)
  moreover obtain m2 a2 b2 where m2: "loop n m' (known (int (i + 1))) (known (int (j + 1)))
        \<lparr>avail = ?rest, at_eof = (?rest = [])\<rparr>
      = loop n m2 a2 b2 \<lparr>avail = w, at_eof = (w = [])\<rparr>" "fits n m2"
      "agree n (edge n m2) (\<lambda>i j. edge n m' i j \<or> has_edge es i j)"
    and ab: "if es = [] then a2 = known (int (i + 1)) \<and> b2 = known (int (j + 1))
       else \<exists>i<n. \<exists>j<n. a2 = known (int (i + 1)) \<and> b2 = known (int (j + 1)) \<and> edge n m2 i j"
    using Cons.IH [OF es fit', of "known (int (i + 1))" "known (int (j + 1))"] by blast
  moreover have "agree n (edge n m2) (\<lambda>i j. edge n m i j \<or> has_edge (e # es) i j)"
    using m2(3) edges ij by (auto simp: agree_def has_edge_def e)
  moreover have "\<exists>i<n. \<exists>j<n. a2 = known (int (i + 1)) \<and> b2 = known (int (j + 1)) \<and> edge n m2 i j"
    using ab ij agreeD [OF m2(3) ij(1,2)] now by (auto split: if_splits)
  moreover have "concat (map edge_string (e # es)) @ w = edge_string e @ ?rest" by simp
  ultimately show ?case using step by (intro exI [of _ m2] exI [of _ a2] exI [of _ b2]) simp
qed

text \<open>White space at the end of the file costs one more turn, which makes the last edge again.\<close>

lemma last_turn:
  assumes "blank w" and n: "n * n < 2 ^ 31" and fit: "fits n m"
    and ij: "w \<noteq> [] \<Longrightarrow> i < n \<and> j < n \<and> a = known (int (i + 1)) \<and> b = known (int (j + 1)) \<and> edge n m i j"
  shows "\<exists>m'. loop n m a b \<lparr>avail = w, at_eof = (w = [])\<rparr> = outcome n m' \<and>
              fits n m' \<and> agree n (edge n m') (edge n m)"
proof (cases "w = []")
  case True
  then show ?thesis using fit at_end by auto
next
  case False
  with ij have ij: "i < n" "j < n" "a = known (int (i + 1))" "b = known (int (j + 1))" "edge n m i j" by auto
  obtain m' where m': "connect n i j m = Some m'"
    using connect_in [OF fit ij(1,2)] by blast
  have "loop n m a b \<lparr>avail = w, at_eof = False\<rparr> = loop n m' a b \<lparr>avail = [], at_eof = True\<rparr>"
    unfolding ij(3,4) using scan_pair_end [OF assms(1)] by (intro take_again [OF n ij(1,2) m']) simp_all
  then have "loop n m a b \<lparr>avail = w, at_eof = False\<rparr> = outcome n m'" by (simp add: at_end)
  moreover have "agree n (edge n m') (edge n m)"
    using edge_connect [OF fit ij(1,2) m'] ij(5) by (auto simp: agree_def)
  ultimately show ?thesis
    using False connect_fits [OF fit ij(1,2) m'] by auto
qed

lemma whole_file:
  assumes wf: "\<forall>e \<in> set es. edge_wf n e" and w: "blank w" and n: "n * n < 2 ^ 31" and "fits n m"
    and "es \<noteq> [] \<or> w = []"
  shows "\<exists>m'. loop n m a b
        \<lparr>avail = concat (map edge_string es) @ w, at_eof = (concat (map edge_string es) @ w = [])\<rparr> = outcome n m' \<and>
      fits n m' \<and> agree n (edge n m') (\<lambda>i j. edge n m i j \<or> has_edge es i j)"
proof -
  obtain m1 a' b' where m1: "loop n m a b
        \<lparr>avail = concat (map edge_string es) @ w, at_eof = (concat (map edge_string es) @ w = [])\<rparr> =
      loop n m1 a' b' \<lparr>avail = w, at_eof = (w = [])\<rparr>" "fits n m1"
    "agree n (edge n m1) (\<lambda>i j. edge n m i j \<or> has_edge es i j)"
    and ab: "if es = [] then a' = a \<and> b' = b
      else \<exists>i<n. \<exists>j<n. a' = known (int (i + 1)) \<and> b' = known (int (j + 1)) \<and> edge n m1 i j"
    using all_edges [OF wf blank_start [OF w] n assms(4), of a b] by (elim exE conjE)
  from ab have "es \<noteq> [] \<Longrightarrow> \<exists>i<n. \<exists>j<n. a' = known (int (i + 1)) \<and> b' = known (int (j + 1)) \<and> edge n m1 i j"
    by (simp only: if_False)
  with assms(5) obtain i j where
    "w \<noteq> [] \<Longrightarrow> i < n \<and> j < n \<and> a' = known (int (i + 1)) \<and> b' = known (int (j + 1)) \<and> edge n m1 i j" by blast
  from last_turn [OF w n m1(2) this] obtain m' where
    "loop n m1 a' b' \<lparr>avail = w, at_eof = (w = [])\<rparr> = outcome n m'" "fits n m'" "agree n (edge n m') (edge n m1)" by blast
  with m1(1,3) show ?thesis by (auto simp: agree_def)
qed

end

end
