(* ===== verification/Graph_File.thy ===== *)
theory Graph_File
  imports Graph_Text
begin

text \<open>
  Reading and printing the matrix: \<^verbatim>\<open>Project_1/Stuff/functions.c\<close>. \<^verbatim>\<open>read_file\<close> is
  total: it returns a matrix, leaves through \<^verbatim>\<open>err_exit\<close>, runs into undefined behaviour (a write
  outside the bit array, a signed overflow), or loops for ever.
\<close>

section \<open>\<^verbatim>\<open>read_file\<close>\<close>

text \<open>\<^verbatim>\<open>err_exit\<close> prints the error and leaves the process with status 0.\<close>

datatype read_outcome = ReadOk bit_array int int | ErrExit | Undefined

definition index_defined :: "int \<Rightarrow> int \<Rightarrow> int \<Rightarrow> bool" where
  "index_defined n a b \<longleftrightarrow>
     in_int (a - 1) \<and> in_int (b - 1) \<and> in_int ((a - 1) * n) \<and> in_int ((a - 1) * n + (b - 1))"

definition store_pair :: "int \<Rightarrow> int \<Rightarrow> int \<Rightarrow> bit_array \<Rightarrow> bit_array option" where
  "store_pair n a b m =
     (if index_defined n a b then bit_array_set m (word_of_int ((a - 1) * n + (b - 1))) else None)"

text \<open>The loop \<^verbatim>\<open>while (!feof(file))\<close>; \<^term>\<open>None\<close> is a loop that does not end.\<close>

partial_function (option) read_loop ::
    "int \<Rightarrow> int \<Rightarrow> bit_array \<Rightarrow> int \<Rightarrow> int \<Rightarrow> stream \<Rightarrow> read_outcome option" where
  "read_loop nt n m a b st =
     (if at_eof st then Some (ReadOk m nt n)
      else case scan_pair a b st of
        None \<Rightarrow> Some Undefined
      | Some (a', b', st') \<Rightarrow>
          if a' > n \<or> b' > n then Some ErrExit
          else case store_pair n a' b' m of
            None \<Rightarrow> Some Undefined
          | Some m' \<Rightarrow> read_loop nt n m' a' b' st')"

text \<open>
  \<^verbatim>\<open>number_of_threads\<close> and \<^verbatim>\<open>number_of_nodes\<close> are globals, so a number that cannot be read leaves 0.
  The file system is a parameter: the text of a file that can be opened.
\<close>

definition scanned_or_zero :: "scanned \<Rightarrow> int" where
  "scanned_or_zero r = (case r of Got v \<Rightarrow> v | _ \<Rightarrow> 0)"

definition read_file :: "(string \<Rightarrow> string option) \<Rightarrow> string \<Rightarrow> read_outcome option" where
  "read_file fopen filename =
     (case fopen filename of
        None \<Rightarrow> Some ErrExit
      | Some text \<Rightarrow>
          let (r1, st1) = scan_int \<lparr>avail = text, at_eof = False\<rparr>;
              (r2, st2) = scan_int st1;
              nt = scanned_or_zero r1; n = scanned_or_zero r2
          in if r1 = Unrepresentable \<or> r2 = Unrepresentable \<or> \<not> in_int (n * n) then Some Undefined
             else read_loop nt n (bit_array_create (word_of_int (n * n))) 0 0 st2)"

section \<open>\<^verbatim>\<open>print_matrix\<close>\<close>

definition print_cell :: "bit_array \<Rightarrow> nat \<Rightarrow> nat \<Rightarrow> nat \<Rightarrow> string option" where
  "print_cell m n i j =
     map_option (\<lambda>v. (if v = 0 then ''0'' else ''1'') @ '' '') (bit_array_get m (cell n i j))"

definition print_line :: "bit_array \<Rightarrow> nat \<Rightarrow> nat \<Rightarrow> string option" where
  "print_line m n i =
     map_option (\<lambda>cs. concat cs @ [CHR 0x0A]) (those (map (print_cell m n i) [0..<n]))"

definition print_matrix :: "bit_array \<Rightarrow> int \<Rightarrow> string option" where
  "print_matrix m n = map_option concat (those (map (print_line m (nat n)) [0..<nat n]))"

section \<open>Reading the edges\<close>

lemma pair_index_defined:
  assumes "n * n < 2 ^ 31" and "i < n" and "j < n"
  shows "index_defined (int n) (int (i + 1)) (int (j + 1))"
proof -
  have p: "i * n + j < 2 ^ 31" using index_less [OF assms(2,3)] assms(1) by simp
  then have "i < 2 ^ 31 \<and> j < 2 ^ 31 \<and> i * n < 2 ^ 31"
    using assms by (cases n) auto
  then show ?thesis
    using p by (simp add: index_defined_def in_int_def flip: of_nat_mult of_nat_add)
qed

lemma store_pair_connect:
  assumes "n * n < 2 ^ 31" and "i < n" and "j < n"
  shows "store_pair (int n) (int (i + 1)) (int (j + 1)) m = bit_connect n i j m"
proof -
  have "(word_of_int (int i * int n + int j) :: u32) = word_of_nat (i * n + j)"
    by (simp flip: of_nat_mult of_nat_add)
  then show ?thesis
    using pair_index_defined [OF assms] by (simp add: store_pair_def bit_connect_def cell_def)
qed

interpretation bit_reader: edge_reader bit_edge bit_connect bit_fits
    "\<lambda>n m a b st. read_loop nt (int n) m a b st" "\<lambda>v. v" "\<lambda>n m. Some (ReadOk m nt (int n))" for nt
proof unfold_locales
  fix n i j :: nat and m m' and st st' :: stream and a b :: int
  assume n: "n * n < 2 ^ 31" and ij: "i < n" "j < n" and m': "bit_connect n i j m = Some m'" and st: "\<not> at_eof st"
  note s = store_pair_connect [OF n ij]
  {
    assume "\<forall>x y. scan_pair x y st = Some (int (i + 1), int (j + 1), st')"
    then show "read_loop nt (int n) m a b st = read_loop nt (int n) m' (int (i + 1)) (int (j + 1)) st'"
      using st m' s ij by (subst read_loop.simps) simp
  next
    assume "\<forall>x y. scan_pair x y st = Some (x, y, st')"
    then show "read_loop nt (int n) m (int (i + 1)) (int (j + 1)) st = read_loop nt (int n) m' (int (i + 1)) (int (j + 1)) st'"
      using st m' s ij by (subst read_loop.simps) simp
  }
qed (simp add: read_loop.simps)

lemma read_loop_stuck:
  assumes "stray ch" and "n * n < 2 ^ 31"
  shows "bit_fits n m \<Longrightarrow> blank w \<Longrightarrow> i < n \<Longrightarrow> j < n \<Longrightarrow>
    read_loop nt (int n) m (int (i + 1)) (int (j + 1)) \<lparr>avail = w @ ch # junk, at_eof = False\<rparr> = None"
proof (rule ccontr)
  assume h: "bit_fits n m" "blank w" "i < n" "j < n"
    "read_loop nt (int n) m (int (i + 1)) (int (j + 1)) \<lparr>avail = w @ ch # junk, at_eof = False\<rparr> \<noteq> None"
  then obtain r where ret: "read_loop nt (int n) m (int (i + 1)) (int (j + 1))
      \<lparr>avail = w @ ch # junk, at_eof = False\<rparr> = Some r" by blast
  let ?at = "\<lambda>nn m a b st. nn = int n \<and> bit_fits n m \<and> a = int (i + 1) \<and> b = int (j + 1) \<and>
    (\<exists>w. blank w \<and> st = \<lparr>avail = w @ ch # junk, at_eof = False\<rparr>)"
  have "?at (int n) m (int (i + 1)) (int (j + 1)) \<lparr>avail = w @ ch # junk, at_eof = False\<rparr> \<longrightarrow> False"
  proof (rule read_loop.raw_induct [where P = "\<lambda>nt nn m a b st r. ?at nn m a b st \<longrightarrow> False", OF _ ret])
    fix loop :: "int \<Rightarrow> int \<Rightarrow> bit_array \<Rightarrow> int \<Rightarrow> int \<Rightarrow> stream \<Rightarrow> read_outcome option"
      and nt' nn a b :: int and m :: bit_array and st r
    assume IH: "\<And>nt nn m a b st r. loop nt nn m a b st = Some r \<Longrightarrow> ?at nn m a b st \<longrightarrow> False"
      and eq: "(if at_eof st then Some (ReadOk m nt' nn)
        else case scan_pair a b st of None \<Rightarrow> Some Undefined
          | Some (a', b', st') \<Rightarrow> if nn < a' \<or> nn < b' then Some ErrExit
              else case store_pair nn a' b' m of None \<Rightarrow> Some Undefined
                | Some m' \<Rightarrow> loop nt' nn m' a' b' st') = Some r"
    show "?at nn m a b st \<longrightarrow> False"
    proof
      assume at: "?at nn m a b st"
      then obtain v where v: "blank v" "st = \<lparr>avail = v @ ch # junk, at_eof = False\<rparr>" by blast
      obtain m' where m': "bit_connect n i j m = Some m'" "bit_fits n m'"
        using at h bit_matrix.connect_in bit_matrix.connect_fits by blast
      have "loop nt' nn m' a b \<lparr>avail = ch # junk, at_eof = False\<rparr> = Some r"
        using eq at v scan_stray [OF assms(1) v(1)] store_pair_connect [OF assms(2) h(3,4)] m' h(3,4) by simp
      from IH [OF this] have "\<not> blank []" using at m' by fastforce
      then show False by (simp add: blank_def)
    qed
  qed
  with h show False by blast
qed

section \<open>Properties\<close>

lemma read_header:
  assumes "nt < 2 ^ 31" and n: "n * n < 2 ^ 31" and "rest = [] \<or> \<not> is_digit (hd rest)"
    and "fopen f = Some (show_nat nt @ [CHR 0x0A] @ show_nat n @ rest)"
  shows "read_file fopen f =
    read_loop (int nt) (int n) (bit_array_create (word_of_nat (n * n))) 0 0 \<lparr>avail = rest, at_eof = (rest = [])\<rparr>"
proof -
  have "n < 2 ^ 31" using n by (cases n) auto
  moreover have "in_int (int n * int n)" using n by (simp add: in_int_def flip: of_nat_mult)
  ultimately show ?thesis
    using header_scan [OF assms(1) _ assms(3), of n] assms(4)
    by (simp add: read_file_def scanned_or_zero_def)
qed

lemma created_no_edges:
  assumes "n * n < 2 ^ 31"
  shows "agree n (bit_edge n (bit_array_create (word_of_nat (n * n)))) (\<lambda>_ _. False)"
proof
  fix i j assume "i < n" "j < n"
  from get_create [OF cell_in_room [OF fits_create [OF assms] this]]
  show "bit_edge n (bit_array_create (word_of_nat (n * n))) i j = False" by (simp add: bit_edge_def)
qed

lemma graph_file_read:
  assumes "fopen f = Some (graph_text nt n es w)" and "\<forall>e \<in> set es. edge_wf n e" and "blank w"
    and "nt < 2 ^ 31" and "n * n < 2 ^ 31" and "es \<noteq> [] \<or> w = []"
  shows "\<exists>m. read_file fopen f = Some (ReadOk m (int nt) (int n)) \<and> bit_fits n m \<and>
             agree n (bit_edge n m) (has_edge es)"
proof -
  let ?m0 = "bit_array_create (word_of_nat (n * n))"
  obtain m where m: "read_loop (int nt) (int n) ?m0 0 0
        \<lparr>avail = concat (map edge_string es) @ w, at_eof = (concat (map edge_string es) @ w = [])\<rparr> =
      Some (ReadOk m (int nt) (int n))" "bit_fits n m"
    "agree n (bit_edge n m) (\<lambda>i j. bit_edge n ?m0 i j \<or> has_edge es i j)"
    using bit_reader.whole_file [OF assms(2,3,5) fits_create [OF assms(5)] assms(6), of "int nt" 0 0] by blast
  moreover from this(3) created_no_edges [OF assms(5)] have "agree n (bit_edge n m) (has_edge es)"
    by (auto simp: agree_def)
  ultimately show ?thesis
    using read_header [OF assms(4,5) edges_start [OF assms(2) blank_start [OF assms(3)]]] assms(1)
    by (simp add: graph_text_def)
qed

text \<open>
  C21. Reading back a graph file: for any text that holds the two numbers and at least one edge (or
  nothing after the numbers) in the format of the repository's inputs, with any white space,
  \<^verbatim>\<open>read_file\<close> returns, with exactly the edges of the text in the matrix.
\<close>

theorem read_file_graph:
  assumes "fopen f = Some (graph_text nt n es w)" and "\<forall>e \<in> set es. edge_wf n e" and "blank w"
    and "nt < 2 ^ 31" and "n * n < 2 ^ 31" and "es \<noteq> [] \<or> w = []"
  shows "\<exists>m. read_file fopen f = Some (ReadOk m (int nt) (int n)) \<and> bit_fits n m \<and>
             agree n (bit_edge n m) (has_edge es)"
  using graph_file_read [of fopen f nt n es w] assms by blast

text \<open>
  A graph without edges whose file ends in white space is not read: the conversions fail, \<^verbatim>\<open>a\<close> and
  \<^verbatim>\<open>b\<close> keep their initial 0, and the write of the edge \<open>(0, 0)\<close> goes to cell \<open>-(n + 1)\<close>, far outside the
  bit array.
\<close>

theorem read_file_no_edges:
  assumes "fopen f = Some (graph_text nt n [] w)" and "blank w" and "w \<noteq> []"
    and "nt < 2 ^ 31" and "n * n < 2 ^ 31"
  shows "read_file fopen f = Some Undefined"
proof -
  let ?m = "bit_array_create (word_of_nat (n * n))" and ?p = "word_of_int (- int n - 1) :: u32"
  have n: "n < 2 ^ 16"
  proof (rule ccontr)
    assume "\<not> n < 2 ^ 16"
    then have "2 ^ 16 * 2 ^ 16 \<le> n * n" by (intro mult_le_mono) simp_all
    with assms(5) show False by simp
  qed
  have "?p = word_of_int (2 ^ 32 + (- int n - 1))" by simp
  also have "2 ^ 32 + (- int n - 1) = int (2 ^ 32 - n - 1)" using n by simp
  finally have "?p = word_of_nat (2 ^ 32 - n - 1)" by (simp only: of_int_of_nat_eq)
  then have p: "unat ?p = 2 ^ 32 - n - 1" using word_of_nat_unat [of "2 ^ 32 - n - 1"] by simp
  have "bit_room ?m \<le> n * n + 8"
    using assms(5) word_of_nat_unat [of "n * n"] by (simp add: bit_room_def length_create del: of_nat_mult)
  moreover have "n * n + 8 \<le> 2 ^ 32 - n - 1" using n assms(5) by simp
  ultimately have "bit_room ?m \<le> unat ?p" unfolding p by (rule le_trans)
  then have "bit_array_set ?m ?p = None" by (rule bits.put_out)
  moreover have "(0 - 1) * int n + (0 - 1) = - int n - 1" by simp
  ultimately have "store_pair (int n) 0 0 ?m = None"
    unfolding store_pair_def by (simp only: if_cancel)
  then have "read_loop (int nt) (int n) ?m 0 0 \<lparr>avail = w, at_eof = False\<rparr> = Some Undefined"
    using scan_pair_end [OF assms(2)] by (subst read_loop.simps) simp
  then show ?thesis
    using read_header [OF assms(4,5) blank_start [OF assms(2)]] assms(1,3) by (simp add: graph_text_def)
qed

text \<open>
  C40. A stray character after the edges hangs \<^verbatim>\<open>read_file\<close>: the conversion fails without consuming it, so
  the end of the file is never seen and the loop never ends.
\<close>

theorem read_file_hangs:
  assumes "fopen f = Some (graph_text nt n es (w @ ch # junk))" and "\<forall>e \<in> set es. edge_wf n e"
    and "es \<noteq> []" and "blank w" and "stray ch" and "nt < 2 ^ 31" and "n * n < 2 ^ 31"
  shows "read_file fopen f = None"
proof -
  let ?m0 = "bit_array_create (word_of_nat (n * n))" and ?w = "w @ ch # junk"
  let ?rest = "concat (map edge_string es) @ ?w"
  have w: "?w = [] \<or> \<not> is_digit (hd ?w)"
    using blank_start [OF assms(4)] assms(5) by (cases w) (auto simp: stray_def)
  obtain m a b where "read_loop (int nt) (int n) ?m0 0 0 \<lparr>avail = ?rest, at_eof = (?rest = [])\<rparr> =
      read_loop (int nt) (int n) m a b \<lparr>avail = ?w, at_eof = (?w = [])\<rparr>" "bit_fits n m"
    and "\<exists>i<n. \<exists>j<n. a = int (i + 1) \<and> b = int (j + 1)"
    using bit_reader.all_edges [OF assms(2) w assms(7) fits_create [OF assms(7)], of "int nt" 0 0] assms(3)
    by (auto split: if_splits)
  then have "read_loop (int nt) (int n) ?m0 0 0 \<lparr>avail = ?rest, at_eof = (?rest = [])\<rparr> = None"
    using read_loop_stuck [OF assms(5,7) _ assms(4)] by auto
  then show ?thesis
    using read_header [OF assms(6,7) edges_start [OF assms(2) w]] assms(1) by (simp add: graph_text_def)
qed

text \<open>The lines \<^verbatim>\<open>print_matrix\<close> should print for a graph.\<close>

definition matrix_text :: "nat \<Rightarrow> graph \<Rightarrow> string" where
  "matrix_text n E =
     concat (map (\<lambda>i. concat (map (\<lambda>j. if E i j then ''1 '' else ''0 '') [0..<n]) @ [CHR 0x0A]) [0..<n])"

lemma those_map_Some: "(\<And>x. x \<in> set xs \<Longrightarrow> f x = Some (g x)) \<Longrightarrow> those (map f xs) = Some (map g xs)"
  by (induction xs) auto

lemma matrix_text_cong:
  assumes "agree n E F"
  shows "matrix_text n E = matrix_text n F"
  unfolding matrix_text_def using assms
  by (auto simp: agree_def intro!: arg_cong [where f = concat] map_cong)

lemma matrix_printed:
  assumes "bit_fits n m"
  shows "print_matrix m (int n) = Some (matrix_text n (bit_edge n m))"
proof -
  let ?c = "\<lambda>i j. if bit_edge n m i j then ''1 '' else ''0 ''"
  let ?l = "\<lambda>i. concat (map (?c i) [0..<n]) @ [CHR 0x0A]"
  have "those (map (print_cell m n i) [0..<n]) = Some (map (?c i) [0..<n])" if "i < n" for i
    using that by (intro those_map_Some) (simp add: print_cell_def get_bit_edge [OF assms])
  then have "those (map (print_line m n) [0..<n]) = Some (map ?l [0..<n])"
    by (intro those_map_Some) (simp add: print_line_def)
  then show ?thesis by (simp add: print_matrix_def matrix_text_def)
qed

text \<open>
  \<^verbatim>\<open>print_matrix\<close> reads only cells of the matrix and prints its \<open>n\<close> rows of 0s and 1s, one line each.
\<close>

theorem print_matrix_text:
  assumes "bit_fits n m"
  shows "print_matrix m (int n) = Some (matrix_text n (bit_edge n m))"
  using matrix_printed [OF assms] .

section \<open>Concrete files\<close>

definition sample_edges :: "edge_text list" where
  "sample_edges = [([CHR 0x0A], 1, '' '', 2), ([CHR 0x0A], 2, '' '', 1)]"

lemma sample_edges_wf: "\<forall>e \<in> set sample_edges. edge_wf 2 e"
  by (simp add: sample_edges_def edge_wf_def blank_def is_space_def)

theorem read_file_graph_witness:
  "\<exists>m. read_file (\<lambda>_. Some (graph_text 2 2 sample_edges [CHR 0x0A])) ''g'' = Some (ReadOk m 2 2) \<and>
       bit_edge 2 m 0 1 \<and> \<not> bit_edge 2 m 0 0"
proof -
  obtain m where m: "read_file (\<lambda>_. Some (graph_text 2 2 sample_edges [CHR 0x0A])) ''g'' =
      Some (ReadOk m (int 2) (int 2))" "agree 2 (bit_edge 2 m) (has_edge sample_edges)"
    using read_file_graph [of "\<lambda>_. Some (graph_text 2 2 sample_edges [CHR 0x0A])" "''g''" 2 2 sample_edges "[CHR 0x0A]"]
      sample_edges_wf by (auto simp: blank_def is_space_def sample_edges_def)
  then show ?thesis
    using agreeD [OF m(2), of 0 1] agreeD [OF m(2), of 0 0] by (simp add: has_edge_def sample_edges_def)
qed

theorem read_file_no_edges_witness:
  "read_file (\<lambda>_. Some (graph_text 2 3 [] [CHR 0x0A])) ''g'' = Some Undefined"
  by (rule read_file_no_edges [of _ _ 2 3 "[CHR 0x0A]"]) (simp_all add: blank_def is_space_def)

theorem read_file_hangs_witness:
  "read_file (\<lambda>_. Some (graph_text 2 2 sample_edges ''x'')) ''g'' = None"
  by (rule read_file_hangs [of _ _ 2 2 sample_edges "[]" "CHR ''x''" "[]"])
    (use sample_edges_wf in \<open>simp_all add: blank_def stray_def is_space_def is_digit_def sample_edges_def\<close>)

theorem print_matrix_text_witness:
  "print_matrix [6] 2 = Some (matrix_text 2 (bit_edge 2 [6]))"
  using print_matrix_text [of 2 "[6]"] by (simp add: bit_fits_def bit_room_def)

end
