(* ===== verification/Wtc.thy ===== *)
theory Wtc
  imports Thread_Closure Thread_Bag Proc_Bag Graph_File
begin

text \<open>
  The program entry \<^verbatim>\<open>main\<close> of \<^verbatim>\<open>Project_1/Stuff/wtc.c\<close>: the first argument selects one of the four
  closure programs, the second names the graph file.
\<close>

datatype selection =
    ErrArguments | RunProcesses string | RunThreads string | RunBagProcesses string | RunBagThreads string
  | BadSelection

text \<open>\<^verbatim>\<open>atoi\<close> reads like \<^verbatim>\<open>%d\<close> and gives 0 when there is no number.\<close>

definition atoi :: "string \<Rightarrow> int" where
  "atoi a = scanned_or_zero (fst (scan_int \<lparr>avail = a, at_eof = False\<rparr>))"

definition wtc_main :: "string list \<Rightarrow> selection" where
  "wtc_main argv =
     (if length argv < 3 then ErrArguments
      else let c = atoi (argv ! 1); f = argv ! 2
        in if c = 1 then RunProcesses f else if c = 2 then RunThreads f
           else if c = 3 then RunBagProcesses f else if c = 4 then RunBagThreads f else BadSelection)"

text \<open>\<^verbatim>\<open>err_exit\<close>: the exit status of the process.\<close>

definition err_exit_status :: int where
  "err_exit_status = 0"

end
