(* ===== verification/Thread_Bag_Closure.thy ===== *)
theory Thread_Bag_Closure
  imports Thread_Bag
begin

text \<open>
  What \<^verbatim>\<open>wtc_btthr.c\<close> computes when it comes to its end. A worker that passes the unlocked test of \<^verbatim>\<open>queue\<close>
  and then finds it at -1 processes its last row again, possibly one that another worker has in this
  round; the theory shows that this does no harm, and that the rounds are those of Warshall's algorithm
  on the first eleven rows, so that the result is the closure for exactly eleven nodes.
\<close>

section \<open>The round invariant\<close>

definition bag_rows :: cells where
  "bag_rows i j \<longleftrightarrow> i \<le> 10"

text \<open>Whether a worker still has to process column \<open>j\<close> of the row it holds.\<close>

fun row_owed :: "nat \<Rightarrow> taker_pc \<Rightarrow> bool" where
  "row_owed j TUnlockQ = True"
| "row_owed j TRead = True"
| "row_owed j (TCol ik c) = (c \<le> j)"
| "row_owed j (TUpdate ik c) = (c \<le> j)"
| "row_owed j (TUnlock ik c) = (c < j)"
| "row_owed j TFault = True"
| "row_owed j _ = False"

definition rows_done :: "nat \<Rightarrow> btt_state \<Rightarrow> cells" where
  "rows_done T s i j \<longleftrightarrow>
     i \<le> 10 \<and> q_queue s < int i \<and> (\<forall>t<T. q_i s t = Some (int i) \<longrightarrow> \<not> row_owed j (q_pc s t))"

text \<open>A worker in a row has read its entry for \<open>k\<close>, which does not change during the round.\<close>

fun entry_read :: "graph \<Rightarrow> nat \<Rightarrow> int option \<Rightarrow> taker_pc \<Rightarrow> bool" where
  "entry_read G k r (TCol ik c) \<longleftrightarrow> (\<exists>i. r = Some i \<and> (ik \<noteq> 0 \<longleftrightarrow> G (nat i) k))"
| "entry_read G k r (TUpdate ik c) \<longleftrightarrow> (\<exists>i. r = Some i \<and> (ik \<noteq> 0 \<longleftrightarrow> G (nat i) k))"
| "entry_read G k r (TUnlock ik c) \<longleftrightarrow> (\<exists>i. r = Some i \<and> (ik \<noteq> 0 \<longleftrightarrow> G (nat i) k))"
| "entry_read G k r _ \<longleftrightarrow> True"

definition btt_graph :: "graph \<Rightarrow> nat \<Rightarrow> graph" where
  "btt_graph E k = wrounds bag_rows k E"

definition btt_in_round :: "nat \<Rightarrow> nat \<Rightarrow> graph \<Rightarrow> btt_state \<Rightarrow> bool" where
  "btt_in_round n T E s \<longleftrightarrow>
     q_k s < n \<and>
     in_round n bag_rows (q_k s) (btt_graph E (q_k s)) (rows_done T s) (bit_edge n (q_matrix s)) \<and>
     (\<forall>t<T. entry_read (btt_graph E (q_k s)) (q_k s) (q_i s t) (q_pc s t)) \<and>
     (\<forall>t<T. q_pc s t = TBarrier \<longrightarrow> q_queue s = - 1)"

definition btt_round :: "nat \<Rightarrow> nat \<Rightarrow> graph \<Rightarrow> btt_state \<Rightarrow> bool" where
  "btt_round n T E s \<longleftrightarrow>
     (case q_main s of
        FBarrier \<Rightarrow> btt_in_round n T E s
      | FIncr \<Rightarrow> q_k s < n \<and> agree n (btt_graph E (Suc (q_k s))) (bit_edge n (q_matrix s))
      | pp \<Rightarrow> q_k s \<le> n \<and> agree n (btt_graph E (q_k s)) (bit_edge n (q_matrix s)) \<and>
          (pp \<in> {FLockQ, FFill, FUnlockQ, FKBarrierA} \<longrightarrow> q_k s < n) \<and>
          (pp = FUnlockQ \<or> pp = FKBarrierA \<longrightarrow> q_queue s = 10) \<and>
          (pp = FInit \<or> (\<exists>i. pp = FCreate i) \<longrightarrow> q_k s = 0) \<and>
          (pp = FDone \<or> (\<exists>i. pp = FJoin i) \<longrightarrow> q_k s = n))"

section \<open>Steps of a worker in the round\<close>

lemma rows_done_move:
  assumes pcs: "q_pc s' = (q_pc s)(t := pc)" and t: "t < T"
    and others: "\<And>u. u \<noteq> t \<Longrightarrow> q_i s' u = q_i s u"
    and own: "\<And>i j. i \<le> 10 \<Longrightarrow> j < n \<Longrightarrow> q_queue s' < int i \<Longrightarrow> (q_i s' t = Some (int i) \<longrightarrow> \<not> row_owed j pc) \<Longrightarrow>
      (q_queue s < int i \<and> (q_i s t = Some (int i) \<longrightarrow> \<not> row_owed j (q_pc s t))) \<or> X i j"
    and d: "rows_done T s' i j" and j: "j < n"
  shows "rows_done T s i j \<or> X i j"
proof -
  have i: "i \<le> 10" "q_queue s' < int i" and all: "\<forall>u<T. q_i s' u = Some (int i) \<longrightarrow> \<not> row_owed j (q_pc s' u)"
    using d by (simp_all add: rows_done_def)
  have "q_i s' t = Some (int i) \<longrightarrow> \<not> row_owed j pc" using all t pcs by auto
  from own [OF i(1) j i(2) this] consider
    "q_queue s < int i" "q_i s t = Some (int i) \<longrightarrow> \<not> row_owed j (q_pc s t)" | "X i j" by blast
  then show ?thesis
  proof cases
    case 1
    have "q_i s u = Some (int i) \<longrightarrow> \<not> row_owed j (q_pc s u)" if "u < T" for u
      using 1(2) all that others [of u] pcs by (cases "u = t") auto
    with 1(1) i(1) show ?thesis by (simp add: rows_done_def)
  qed blast
qed

lemma btt_in_round_move:
  assumes r: "btt_in_round n T E s" and t: "t < T" and pcs: "q_pc s' = (q_pc s)(t := pc)"
    and others: "\<And>u. u \<noteq> t \<Longrightarrow> q_i s' u = q_i s u" and k: "q_k s' = q_k s"
    and own: "\<And>i j. i \<le> 10 \<Longrightarrow> j < n \<Longrightarrow> q_queue s' < int i \<Longrightarrow> (q_i s' t = Some (int i) \<longrightarrow> \<not> row_owed j pc) \<Longrightarrow>
      (q_queue s < int i \<and> (q_i s t = Some (int i) \<longrightarrow> \<not> row_owed j (q_pc s t))) \<or> X i j"
    and m: "in_round n bag_rows (q_k s) (btt_graph E (q_k s)) (\<lambda>i j. rows_done T s i j \<or> X i j)
      (bit_edge n (q_matrix s'))"
    and e: "entry_read (btt_graph E (q_k s)) (q_k s) (q_i s' t) pc"
    and q: "q_queue s = - 1 \<Longrightarrow> q_queue s' = - 1" "pc = TBarrier \<Longrightarrow> q_queue s' = - 1"
  shows "btt_in_round n T E s'"
proof -
  have "in_round n bag_rows (q_k s) (btt_graph E (q_k s)) (rows_done T s') (bit_edge n (q_matrix s'))"
    using in_round_weaken [OF m] rows_done_move [OF pcs t others own] by blast
  moreover have "entry_read (btt_graph E (q_k s)) (q_k s) (q_i s' u) (q_pc s' u)" if "u < T" for u
    using r e that others [of u] by (cases "u = t") (auto simp: btt_in_round_def pcs)
  moreover have "q_pc s' u = TBarrier \<longrightarrow> q_queue s' = - 1" if "u < T" for u
    using r q that by (cases "u = t") (auto simp: btt_in_round_def pcs)
  ultimately show ?thesis using r by (simp add: btt_in_round_def k)
qed

text \<open>The write of a column.\<close>

lemma update_in_round:
  assumes r: "in_round n bag_rows k G D (bit_edge n m)" and fit: "bit_fits n m" and k: "k < n"
    and i: "0 \<le> i" "i \<le> 10" and n: "11 \<le> n" and j: "j < n" and ik: "ik \<noteq> 0 \<longleftrightarrow> G (nat i) k"
    and u: "update_row_cell n k i ik j m = Some m'"
  shows "in_round n bag_rows k G (\<lambda>a b. D a b \<or> a = nat i \<and> b = j) (bit_edge n m')"
proof -
  have i': "nat i < n" "nat i \<le> 10" using i n by linarith+
  have kj: "bit_array_get m (cell n k j) = Some (if G k j then 1 else 0)"
    using get_bit_edge [OF fit k j] in_round_row [OF r k j] by simp
  show ?thesis
  proof (cases "G (nat i) k \<and> G k j")
    case True
    then have "bit_connect n (nat i) j m = Some m'"
      using u ik kj by (simp add: update_row_cell_def bit_connect_def row_cell_nat [OF i(1)])
    from bit_matrix.connect_round [OF r fit i'(1) j this] show ?thesis
      using True i'(2) by (simp add: bag_rows_def)
  next
    case False
    then have "m' = m" using u ik kj by (auto simp: update_row_cell_def split: if_splits)
    then show ?thesis using in_round_keep [OF r False] by simp
  qed
qed

lemma taker_in_round:
  assumes r: "btt_in_round n T E s" and v: "rows_inv n T F s" and n: "11 \<le> n" and t: "t < T"
    and st: "taker_step n t s = Some s'"
  shows "btt_in_round n T E s'"
proof -
  let ?k = "q_k s" and ?G = "btt_graph E (q_k s)"
  have k: "?k < n" and rd: "in_round n bag_rows ?k ?G (rows_done T s) (bit_edge n (q_matrix s))"
    and e: "entry_read ?G ?k (q_i s t) (q_pc s t)" using r t by (auto simp: btt_in_round_def)
  have fit: "bit_fits n (q_matrix s)" and i: "0 \<le> i \<and> i \<le> 10" if "q_i s t = Some i" for i
    using v t that by (auto simp: rows_inv_def)
  have fr: "q_k s' = ?k" using taker_frame [OF st] by simp
  note move = btt_in_round_move [OF r t _ taker_own(1) [OF st] fr]
  note idle = move [where X = "\<lambda>_ _. False"]
  show ?thesis
  proof (cases "q_pc s t")
    case TRead
    show ?thesis
    proof (cases "q_i s t")
      case None
      then show ?thesis using st TRead rd by (intro idle) (auto simp: taker_step_def)
    next
      case (Some a)
      then have c: "row_cell n a ?k = cell n (nat a) ?k" "nat a < n" using i [OF Some] n by (auto simp: row_cell_nat)
      then have "bit_array_get (q_matrix s) (row_cell n a ?k) = Some (if ?G (nat a) ?k then 1 else 0)"
        using get_bit_edge [OF fit [OF Some] c(2) k] in_round_column [OF rd k c(2)] by simp
      then show ?thesis using st TRead rd Some by (intro idle) (auto simp: taker_step_def)
    qed
  next
    case (TUpdate ik c)
    have "col_below n (q_pc s t)" using v t by (simp add: rows_inv_def)
    then have c: "c < n" using TUpdate by simp
    obtain a where a: "q_i s t = Some a" "ik \<noteq> 0 \<longleftrightarrow> ?G (nat a) ?k" using e TUpdate by auto
    show ?thesis
    proof (cases "update_row_cell n ?k a ik c (q_matrix s)")
      case None
      then show ?thesis using st TUpdate rd a by (intro idle) (auto simp: taker_step_def)
    next
      case (Some m')
      then have s': "s' = tgoto t (TUnlock ik c) (s\<lparr>q_matrix := m'\<rparr>)" using st TUpdate a by (simp add: taker_step_def)
      from update_in_round [OF rd fit [OF a(1)] k _ _ n c a(2) Some] i [OF a(1)]
      have m': "in_round n bag_rows ?k ?G (\<lambda>x y. rows_done T s x y \<or> x = nat a \<and> y = c) (bit_edge n m')" by blast
      show ?thesis
        by (rule move [where X = "\<lambda>x y. x = nat a \<and> y = c"]) (use m' a i [OF a(1)] TUpdate in \<open>auto simp: s' tgoto_def\<close>)
    qed
  next
    case TTest
    then show ?thesis using st rd k by (intro idle) (auto simp: taker_step_def tgoto_def split: if_splits)
  next
    case TCheck
    then show ?thesis
      using st rd e by (cases "q_queue s = - 1"; intro idle) (auto simp: taker_step_def tgoto_def split: if_splits)
  next
    case TLockQ
    then show ?thesis using st rd e by (intro idle) (auto simp: taker_step_def tgoto_def split: if_splits)
  next
    case TTake
    then show ?thesis
      using st rd e by (cases "q_queue s = - 1"; intro idle) (auto simp: taker_step_def tgoto_def split: if_splits)
  next
    case TUnlockQ
    then show ?thesis using st rd e by (intro idle) (auto simp: taker_step_def tgoto_def split: if_splits)
  next
    case (TCol ik c)
    then show ?thesis
      using st rd e by (cases "c < n"; intro idle) (auto simp: taker_step_def tgoto_def split: if_splits)
  next
    case (TUnlock ik c)
    then show ?thesis using st rd e by (intro idle) (auto simp: taker_step_def tgoto_def split: if_splits)
  qed (use st in \<open>simp_all add: taker_step_def\<close>)
qed

section \<open>The rounds\<close>

lemma btt_round_taker:
  assumes r: "btt_round n T E s" and ph: "phase_inv T s" and v: "rows_inv n T F s" and n: "11 \<le> n"
    and t: "t < T" and st: "taker_step n t s = Some s'"
  shows "btt_round n T E s'"
proof (cases "q_main s = FBarrier")
  case True
  then show ?thesis using taker_in_round [OF _ v n t st] r taker_frame [OF st] by (simp add: btt_round_def)
next
  case False
  then have "\<not> in_bag (q_pc s t)" using v t by (simp add: rows_inv_def)
  then have "q_matrix s' = q_matrix s \<and> q_queue s' = q_queue s"
    using st by (cases "q_pc s t") (auto simp: taker_step_def in_bag_def)
  then show ?thesis using r False taker_frame [OF st] by (cases "q_main s") (auto simp: btt_round_def)
qed

lemma btt_round_filler: "btt_round n T E s \<Longrightarrow> filler_step n T s = Some s' \<Longrightarrow> btt_round n T E s'"
  by (cases "q_main s") (auto simp: filler_step_def btt_round_def split: if_splits)

lemma btt_round_barrier:
  assumes r: "btt_round n T E s" and T: "0 < T" and st: "btt_barrier_step T s = Some s'"
  shows "btt_round n T E s'"
proof (cases "q_main s")
  case FKBarrierA
  then have at: "\<forall>t<T. at_kbarrier (q_pc s t)"
    and s': "s' = s\<lparr>q_pc := (\<lambda>t. past_kbarrier (q_pc s t)), q_main := FBarrier\<rparr>"
    using st by (auto simp: btt_barrier_step_def list_all_iff split: if_splits)
  have k: "q_k s < n" and q: "q_queue s = 10" and e: "agree n (btt_graph E (q_k s)) (bit_edge n (q_matrix s))"
    using r FKBarrierA by (simp_all add: btt_round_def)
  have "in_round n bag_rows (q_k s) (btt_graph E (q_k s)) (rows_done T s') (bit_edge n (q_matrix s))"
    by (rule in_round_weaken [OF in_round_start [OF e]]) (use q in \<open>auto simp: rows_done_def s'\<close>)
  moreover have "past_kbarrier (q_pc s t) \<in> {TCheck, TTest}" if "t < T" for t
    using at that by (auto simp: at_kbarrier_def past_kbarrier_def)
  then have "entry_read G k i (past_kbarrier (q_pc s t)) \<and> past_kbarrier (q_pc s t) \<noteq> TBarrier" if "t < T" for t G k i
    using that by force
  ultimately show ?thesis using k by (simp add: s' btt_round_def btt_in_round_def)
next
  case FBarrier
  then have at: "\<forall>t<T. q_pc s t = TBarrier"
    and s': "s' = s\<lparr>q_pc := (\<lambda>t. if q_pc s t = TBarrier then TKBarrierC else q_pc s t), q_main := FIncr\<rparr>"
    using st by (auto simp: btt_barrier_step_def list_all_iff split: if_splits)
  have r': "btt_in_round n T E s" using r FBarrier by (simp add: btt_round_def)
  then have "q_queue s = - 1" using at T by (auto simp: btt_in_round_def)
  then have "agree n (wround bag_rows (q_k s) (btt_graph E (q_k s))) (bit_edge n (q_matrix s))"
    using r' at by (intro in_round_end [where D = "rows_done T s"]) (auto simp: btt_in_round_def bag_rows_def rows_done_def)
  then show ?thesis using r' by (simp add: s' btt_round_def btt_graph_def btt_in_round_def)
qed (use r st in \<open>auto simp: btt_barrier_step_def btt_round_def split: if_splits\<close>)

definition btt_inv :: "nat \<Rightarrow> nat \<Rightarrow> graph \<Rightarrow> btt_state \<Rightarrow> bool" where
  "btt_inv n T E s \<longleftrightarrow> phase_inv T s \<and> rows_inv n T E s \<and> btt_round n T E s"

lemma btt_inv_step:
  assumes "11 \<le> n" and "0 < T" and "btt_inv n T E s" and "btt_step n T s s'"
  shows "btt_inv n T E s'"
proof -
  have i: "phase_inv T s" "rows_inv n T E s" "btt_round n T E s" using assms(3) by (simp_all add: btt_inv_def)
  have "btt_round n T E s'"
    using assms(4) i btt_round_taker [OF i(3,1,2) assms(1)] btt_round_filler btt_round_barrier [OF i(3) assms(2)]
    by cases blast+
  then show ?thesis
    using phase_inv_step [OF i(1) assms(4)] rows_inv_step [OF assms(1) i(1,2) assms(4)] by (simp add: btt_inv_def)
qed

lemma btt_inv_init: "bit_fits n m \<Longrightarrow> btt_inv n T (bit_edge n m) (btt_init n m)"
  using phase_inv_init rows_inv_init agree_refl
  by (simp add: btt_inv_def btt_round_def btt_init_def btt_graph_def)

lemma btt_inv_reachable:
  assumes "(btt_step n T)\<^sup>*\<^sup>* (btt_init n m) s" and "bit_fits n m" and "11 \<le> n" and "0 < T"
  shows "btt_inv n T (bit_edge n m) s"
  using rtranclp_invariant [where I = "btt_inv n T (bit_edge n m)", OF assms(1) btt_inv_init [OF assms(2)]]
    btt_inv_step [OF assms(3,4)] by blast

lemma covers_eleven: "covers n bag_rows \<longleftrightarrow> n \<le> 11"
  by (cases n) (auto simp: covers_def bag_rows_def)

section \<open>The result\<close>

text \<open>
  At the end the matrix holds the Warshall rounds over the first eleven rows, in whatever order the workers
  took the rows and even though a row can be processed more than once.
\<close>

lemma btt_rounds_done:
  assumes "(btt_step n T)\<^sup>*\<^sup>* (btt_init n m) s" and "bit_fits n m" and "11 \<le> n" and "0 < T"
    and "q_main s = FDone"
  shows "bit_fits n (q_matrix s)" and "agree n (bit_edge n (q_matrix s)) (wrounds bag_rows n (bit_edge n m))"
proof -
  have "btt_inv n T (bit_edge n m) s" using btt_inv_reachable [OF assms(1-4)] .
  then show "bit_fits n (q_matrix s)" "agree n (bit_edge n (q_matrix s)) (wrounds bag_rows n (bit_edge n m))"
    using assms(5) agree_sym by (auto simp: btt_inv_def rows_inv_def btt_round_def btt_graph_def)
qed

lemma eleven_rounds: "agree 11 (wrounds bag_rows 11 E) (path_closure 11 E)"
  using wrounds_closure [of 11 bag_rows] covers_eleven by (intro agreeI) simp

end
