(* ===== verification/Thread_Bag_Progress.thy ===== *)
theory Thread_Bag_Progress
  imports Thread_Bag_Closure
begin

text \<open>
  That \<^verbatim>\<open>wtc_btthr.c\<close> comes to an end: no run is infinite, and a run is stuck only when the main thread is
  done or a worker has used its row number before it had one, or left the bit array. One worker alone
  never does that on a graph of at least 11 nodes.
\<close>

section \<open>Locks, barriers and joins\<close>

fun holds_queue :: "taker_pc \<Rightarrow> bool" where
  "holds_queue TTake = True"
| "holds_queue TUnlockQ = True"
| "holds_queue _ = False"

fun holds_matrix :: "taker_pc \<Rightarrow> bool" where
  "holds_matrix (TUpdate _ _) = True"
| "holds_matrix (TUnlock _ _) = True"
| "holds_matrix TFault = True"
| "holds_matrix _ = False"

definition mutexes_inv :: "nat \<Rightarrow> btt_state \<Rightarrow> bool" where
  "mutexes_inv T s \<longleftrightarrow>
     (\<forall>h. q_mutexqueue s = Some h \<longrightarrow>
        h < T \<and> holds_queue (q_pc s h) \<or> h = T \<and> (q_main s = FFill \<or> q_main s = FUnlockQ)) \<and>
     (\<forall>h. q_mutexmatrix s = Some h \<longrightarrow> h < T \<and> holds_matrix (q_pc s h))"

definition turns_inv :: "nat \<Rightarrow> nat \<Rightarrow> btt_state \<Rightarrow> bool" where
  "turns_inv n T s \<longleftrightarrow>
     (\<forall>t<T. q_pc s t = TNew \<longrightarrow> (\<exists>i. q_main s = FCreate i \<and> i \<le> t)) \<and>
     (\<forall>i. q_main s = FCreate i \<longrightarrow> q_k s = 0 \<and> (\<forall>t<T. i \<le> t \<longrightarrow> q_pc s t = TNew)) \<and>
     (\<forall>t<T. q_pc s t = TExit \<longrightarrow> n \<le> q_k s) \<and>
     (\<forall>t<T. q_pc s t = TKBarrierA \<longrightarrow> q_k s < n) \<and>
     (q_main s = FInit \<longrightarrow> q_k s = 0) \<and>
     (q_main s \<in> {FLockQ, FFill, FUnlockQ, FKBarrierA, FBarrier, FIncr} \<longrightarrow> q_k s < n) \<and>
     (\<forall>i. q_main s = FJoin i \<longrightarrow> n \<le> q_k s) \<and>
     (q_main s \<in> {FUnlockQ, FKBarrierA, FBarrier} \<longrightarrow> filled s)"

definition btt_sync :: "nat \<Rightarrow> nat \<Rightarrow> btt_state \<Rightarrow> bool" where
  "btt_sync n T s \<longleftrightarrow> phase_inv T s \<and> mutexes_inv T s \<and> turns_inv n T s"

lemma taker_mutexes:
  assumes "taker_step n t s = Some s'"
  shows "q_mutexqueue s' = q_mutexqueue s \<and> holds_queue (q_pc s' t) = holds_queue (q_pc s t) \<or>
      q_mutexqueue s' = Some t \<and> holds_queue (q_pc s' t) \<or> q_mutexqueue s' = None"
    and "q_mutexmatrix s' = q_mutexmatrix s \<and> (holds_matrix (q_pc s t) \<longrightarrow> holds_matrix (q_pc s' t)) \<or>
      q_mutexmatrix s' = Some t \<and> holds_matrix (q_pc s' t) \<or> q_mutexmatrix s' = None"
  using assms by (cases "q_pc s t"; auto simp: taker_step_def tgoto_def split: option.splits if_splits)+

lemma mutexes_taker:
  assumes i: "mutexes_inv T s" and t: "t < T" and st: "taker_step n t s = Some s'"
  shows "mutexes_inv T s'"
proof -
  have m: "q_main s' = q_main s" using taker_frame [OF st] by simp
  have own: "q_mutexqueue s = Some t \<Longrightarrow> holds_queue (q_pc s t)" "q_mutexmatrix s = Some t \<Longrightarrow> holds_matrix (q_pc s t)"
    using i t by (auto simp: mutexes_inv_def)
  have "h < T \<and> holds_queue (q_pc s' h) \<or> h = T \<and> (q_main s = FFill \<or> q_main s = FUnlockQ)"
    if h: "q_mutexqueue s' = Some h" for h
  proof (cases "h = t")
    case True
    then show ?thesis using taker_mutexes(1) [OF st] own(1) t h by (metis option.distinct(1))
  next
    case False
    then show ?thesis
      using taker_mutexes(1) [OF st] i h taker_own(2) [OF st False] unfolding mutexes_inv_def by (metis option.distinct(1) option.inject)
  qed
  moreover have "h < T \<and> holds_matrix (q_pc s' h)" if h: "q_mutexmatrix s' = Some h" for h
  proof (cases "h = t")
    case True
    then show ?thesis using taker_mutexes(2) [OF st] own(2) t h by (metis option.distinct(1))
  next
    case False
    then show ?thesis
      using taker_mutexes(2) [OF st] i h taker_own(2) [OF st False] unfolding mutexes_inv_def by (metis option.distinct(1) option.inject)
  qed
  ultimately show ?thesis by (simp add: mutexes_inv_def m)
qed

lemma mutexes_filler:
  assumes i: "mutexes_inv T s" and st: "filler_step n T s = Some s'" and y: "turns_inv n T s"
  shows "mutexes_inv T s'"
proof (cases "q_main s")
  case (FCreate t)
  show ?thesis
  proof (cases "t < T")
    case True
    then have "q_pc s t = TNew" using y FCreate by (simp add: turns_inv_def)
    then have "q_mutexqueue s \<noteq> Some t" "q_mutexmatrix s \<noteq> Some t"
      using i True FCreate unfolding mutexes_inv_def by force+
    then show ?thesis using i st FCreate True by (simp add: filler_step_def mutexes_inv_def tgoto_def) force
  qed (use i st FCreate in \<open>simp add: filler_step_def mutexes_inv_def; force\<close>)
next
  case FLockQ
  then show ?thesis using i st by (simp add: filler_step_def mutexes_inv_def split: if_splits) force
qed (use i st in \<open>auto simp: filler_step_def mutexes_inv_def split: if_splits\<close>)

lemma past_kbarrier_holds [simp]:
  "holds_queue (past_kbarrier pc) = holds_queue pc" "holds_matrix (past_kbarrier pc) = holds_matrix pc"
  by (auto simp: past_kbarrier_def)

lemma mutexes_barrier:
  assumes i: "mutexes_inv T s" and st: "btt_barrier_step T s = Some s'"
  shows "mutexes_inv T s'"
  using i st
  by (cases "q_main s") (auto simp: btt_barrier_step_def mutexes_inv_def split: if_splits)

lemma turns_taker:
  assumes i: "turns_inv n T s" and t: "t < T" and st: "taker_step n t s = Some s'"
  shows "turns_inv n T s'"
proof -
  have f: "q_main s' = q_main s" "q_k s' = q_k s" using taker_frame [OF st] by simp_all
  have pc: "q_pc s t \<noteq> TNew" "q_pc s' t \<noteq> TNew" "q_pc s' t = TExit \<Longrightarrow> n \<le> q_k s"
      "q_pc s' t = TKBarrierA \<Longrightarrow> q_k s < n"
    using st by (cases "q_pc s t"; auto simp: taker_step_def tgoto_def split: option.splits if_splits)+
  have q: "filled s'" if "filled s"
    using st that by (cases "q_pc s t")
      (auto simp: taker_step_def filled_def tgoto_def split: option.splits if_splits)
  have own: "q_pc s' u = q_pc s u" if "u \<noteq> t" for u using taker_own(2) [OF st that] .
  have "(\<exists>i. q_main s = FCreate i \<and> i \<le> u)" if "u < T" "q_pc s' u = TNew" for u
    using i that pc(2) own [of u] by (cases "u = t") (auto simp: turns_inv_def)
  moreover have "\<forall>i. q_main s = FCreate i \<longrightarrow> q_k s = 0 \<and> (\<forall>u<T. i \<le> u \<longrightarrow> q_pc s' u = TNew)"
    using i pc(1) t own unfolding turns_inv_def by metis
  moreover have "n \<le> q_k s" if "u < T" "q_pc s' u = TExit" for u
    using i that pc(3) own [of u] by (cases "u = t") (auto simp: turns_inv_def)
  moreover have "q_k s < n" if "u < T" "q_pc s' u = TKBarrierA" for u
    using i that pc(4) own [of u] by (cases "u = t") (auto simp: turns_inv_def)
  ultimately show ?thesis using i q unfolding turns_inv_def f by simp
qed

lemma turns_filler:
  assumes i: "turns_inv n T s" and ph: "phase_inv T s" and st: "filler_step n T s = Some s'"
  shows "turns_inv n T s'"
proof (cases "q_main s")
  case (FCreate t)
  then have k: "q_k s = 0" and new: "\<And>u. u < T \<Longrightarrow> t \<le> u \<Longrightarrow> q_pc s u = TNew"
    and old: "\<And>u. u < T \<Longrightarrow> q_pc s u = TNew \<Longrightarrow> t \<le> u"
    using i by (auto simp: turns_inv_def)
  have x: "\<And>u. u < T \<Longrightarrow> q_pc s u = TExit \<Longrightarrow> n \<le> 0" "\<And>u. u < T \<Longrightarrow> q_pc s u = TKBarrierA \<Longrightarrow> 0 < n"
    using i k by (auto simp: turns_inv_def)
  show ?thesis
  proof (cases "t < T")
    case True
    then have s': "s' = (tgoto t TTest s)\<lparr>q_main := FCreate (t + 1)\<rparr>"
      using st FCreate by (simp add: filler_step_def)
    have "t + 1 \<le> u" if "u < T" "q_pc s u = TNew" "u \<noteq> t" for u using old [OF that(1,2)] that(3) by linarith
    then show ?thesis using k new x by (simp add: s' turns_inv_def)
  next
    case False
    then have s': "s' = s\<lparr>q_main := FInit\<rparr>" using st FCreate by (simp add: filler_step_def)
    have "q_pc s u \<noteq> TNew" if "u < T" for u using old [OF that] that False by linarith
    then show ?thesis using k x by (simp add: s' turns_inv_def)
  qed
next
  case FIncr
  then have "\<forall>t<T. q_pc s t = TKBarrierC" using ph by (simp add: phase_inv_def)
  then show ?thesis using FIncr i st by (auto simp: filler_step_def turns_inv_def)
next
  case (FJoin t)
  then show ?thesis using i st by (auto simp: filler_step_def turns_inv_def split: if_splits)
qed (use i st in \<open>auto simp: filler_step_def turns_inv_def filled_def split: if_splits\<close>)

lemma turns_barrier:
  assumes i: "turns_inv n T s" and ph: "phase_inv T s" and st: "btt_barrier_step T s = Some s'"
  shows "turns_inv n T s'"
proof (cases "q_main s")
  case FKBarrierA
  then show ?thesis
    using i st by (auto simp: btt_barrier_step_def turns_inv_def filled_def past_kbarrier_def split: if_splits)
next
  case FBarrier
  then show ?thesis
    using i st by (auto simp: btt_barrier_step_def turns_inv_def split: if_splits)
next
  case FKBarrierC
  then have "\<forall>t<T. q_pc s t = TKBarrierC" using ph by (simp add: phase_inv_def)
  then show ?thesis
    using FKBarrierC i st by (auto simp: btt_barrier_step_def turns_inv_def past_kbarrier_def split: if_splits)
qed (use st in \<open>auto simp: btt_barrier_step_def\<close>)

lemma btt_sync_step:
  assumes "btt_sync n T s" and "btt_step n T s s'"
  shows "btt_sync n T s'"
  using assms(2)
proof cases
  case (taker t)
  then show ?thesis
    using assms mutexes_taker turns_taker phase_inv_step unfolding btt_sync_def by blast
next
  case filler
  then show ?thesis
    using assms mutexes_filler turns_filler phase_inv_step unfolding btt_sync_def by blast
next
  case btt_barrier
  then show ?thesis
    using assms mutexes_barrier turns_barrier phase_inv_step unfolding btt_sync_def by blast
qed

lemma btt_sync_init: "btt_sync n T (btt_init n m)"
  using phase_inv_init by (simp add: btt_sync_def mutexes_inv_def turns_inv_def btt_init_def)

section \<open>Progress\<close>

lemma taker_moves:
  assumes "taker_step n t s = None"
  shows "q_pc s t \<in> {TNew, TKBarrierA, TBarrier, TKBarrierC, TExit, TFault} \<or>
    q_pc s t = TLockQ \<and> q_mutexqueue s \<noteq> None \<or> (\<exists>ik j. q_pc s t = TCol ik j \<and> q_mutexmatrix s \<noteq> None)"
  using assms by (cases "q_pc s t") (auto simp: taker_step_def split: option.splits if_splits)

definition btt_over :: "nat \<Rightarrow> btt_state \<Rightarrow> bool" where
  "btt_over T s \<longleftrightarrow> q_main s = FDone \<or> (\<exists>t<T. q_pc s t = TFault)"

lemma takers_blocked:
  assumes y: "btt_sync n T s" and t: "t < T" and nf: "\<forall>u<T. q_pc s u \<noteq> TFault"
    and m: "filler_step n T s = None" and b: "\<And>u. u < T \<Longrightarrow> taker_step n u s = None"
  shows "q_pc s t \<in> {TNew, TKBarrierA, TBarrier, TKBarrierC, TExit}"
proof -
  have v: "mutexes_inv T s" using y by (simp add: btt_sync_def)
  have "q_mutexqueue s = None"
  proof (rule ccontr)
    assume "q_mutexqueue s \<noteq> None"
    then obtain h where "q_mutexqueue s = Some h" by auto
    then consider "h < T" "holds_queue (q_pc s h)" | "q_main s = FFill \<or> q_main s = FUnlockQ"
      using v by (auto simp: mutexes_inv_def)
    then show False
    proof cases
      case 1
      with taker_moves [OF b [OF 1(1)]] show False by (cases "q_pc s h") auto
    next
      case 2
      with m show False by (auto simp: filler_step_def)
    qed
  qed
  moreover have "q_mutexmatrix s = None"
  proof (rule ccontr)
    assume "q_mutexmatrix s \<noteq> None"
    then obtain h where "h < T" "holds_matrix (q_pc s h)" using v by (auto simp: mutexes_inv_def)
    with taker_moves [OF b [OF this(1)]] nf show False by (cases "q_pc s h") auto
  qed
  ultimately show ?thesis using taker_moves [OF b [OF t]] nf t by auto
qed

lemma btt_progress:
  assumes y: "btt_sync n T s" and no: "\<not> btt_over T s"
  shows "\<exists>s'. btt_step n T s s'"
proof (rule ccontr)
  assume "\<nexists>s'. btt_step n T s s'"
  then have st: "\<not> btt_step n T s s'" for s' by blast
  have w: "u < T \<Longrightarrow> taker_step n u s = None" for u using st by (metis not_None_eq btt_step.taker)
  have m: "filler_step n T s = None" using st by (metis not_None_eq btt_step.filler)
  have b: "btt_barrier_step T s = None" using st by (metis not_None_eq btt_step.btt_barrier)
  have pcs: "t < T \<Longrightarrow> q_pc s t \<in> {TNew, TKBarrierA, TBarrier, TKBarrierC, TExit}" for t
    using takers_blocked [OF y _ _ m w] no by (simp add: btt_over_def)
  have ph: "phase_inv T s" and v: "turns_inv n T s" and mu: "mutexes_inv T s" using y by (simp_all add: btt_sync_def)
  show False
  proof (cases "q_main s")
    case FLockQ
    then obtain h where "q_mutexqueue s = Some h" using m by (auto simp: filler_step_def split: if_splits)
    then have "h < T" "holds_queue (q_pc s h)" using mu FLockQ by (auto simp: mutexes_inv_def)
    then show False using pcs [of h] by auto
  next
    case FKBarrierA
    then have "q_pc s t = TKBarrierA" if "t < T" for t
      using pcs [OF that] that ph v by (fastforce simp: phase_inv_def turns_inv_def)
    then show False using b FKBarrierA by (simp add: btt_barrier_step_def list_all_iff at_kbarrier_def)
  next
    case FBarrier
    then have "q_pc s t = TBarrier" if "t < T" for t
      using pcs [OF that] that ph by (fastforce simp: phase_inv_def in_bag_def)
    then show False using b FBarrier by (simp add: btt_barrier_step_def list_all_iff)
  next
    case FKBarrierC
    then have "q_pc s t = TKBarrierC" if "t < T" for t using that ph by (simp add: phase_inv_def)
    then show False using b FKBarrierC by (simp add: btt_barrier_step_def list_all_iff at_kbarrier_def)
  next
    case (FJoin i)
    then have "i < T" "q_pc s i \<noteq> TExit" using m by (auto simp: filler_step_def split: if_splits)
    then show False using pcs [of i] FJoin ph v by (fastforce simp: phase_inv_def turns_inv_def)
  qed (use m no in \<open>auto simp: filler_step_def btt_over_def split: if_splits\<close>)
qed

section \<open>Termination\<close>

text \<open>
  Every step decreases, lexicographically, what is left to the main thread, the rows in the bag, and what is
  left to the workers until each of them takes a row or comes to the barrier.
\<close>

definition filler_left :: "nat \<Rightarrow> nat \<Rightarrow> btt_state \<Rightarrow> nat" where
  "filler_left n T s =
     (let r = 8 * (n - q_k s) + T
      in case q_main s of
        FCreate i \<Rightarrow> 8 * n + T + 12 + (T - i)
      | FInit \<Rightarrow> 8 * n + T + 11
      | FTest \<Rightarrow> r + 10
      | FLockQ \<Rightarrow> r + 9
      | FFill \<Rightarrow> r + 8
      | FUnlockQ \<Rightarrow> r + 7
      | FKBarrierA \<Rightarrow> r + 6
      | FBarrier \<Rightarrow> r + 5
      | FIncr \<Rightarrow> r + 4
      | FKBarrierC \<Rightarrow> r + 11
      | FJoin i \<Rightarrow> T - i + 1
      | FDone \<Rightarrow> 0)"

definition taker_left :: "nat \<Rightarrow> int \<Rightarrow> taker_pc \<Rightarrow> nat" where
  "taker_left n q pc =
     (case pc of
        TTest \<Rightarrow> 1
      | TCheck \<Rightarrow> if q = - 1 then 1 else 3
      | TLockQ \<Rightarrow> if q = - 1 then 3 * n + 8 else 2
      | TTake \<Rightarrow> if q = - 1 then 3 * n + 7 else 1
      | TUnlockQ \<Rightarrow> 3 * n + 6
      | TRead \<Rightarrow> 3 * n + 5
      | TCol ik j \<Rightarrow> 3 * (n - j) + 4
      | TUpdate ik j \<Rightarrow> 3 * (n - Suc j) + 6
      | TUnlock ik j \<Rightarrow> 3 * (n - Suc j) + 5
      | _ \<Rightarrow> 0)"

definition btt_order :: "nat \<Rightarrow> nat \<Rightarrow> (btt_state \<times> btt_state) set" where
  "btt_order n T = measures [filler_left n T, \<lambda>s. nat (q_queue s + 1), \<lambda>s. \<Sum>t<T. taker_left n (q_queue s) (q_pc s t)]"

lemma wf_btt_order: "wf (btt_order n T)"
  by (simp add: btt_order_def)

lemma taker_decreases:
  assumes st: "taker_step n t s = Some s'" and q: "q_pc s t = TTake \<Longrightarrow> - 1 \<le> q_queue s"
  shows "nat (q_queue s' + 1) < nat (q_queue s + 1) \<or>
    q_queue s' = q_queue s \<and> taker_left n (q_queue s) (q_pc s' t) < taker_left n (q_queue s) (q_pc s t)"
  using assms
  by (cases "q_pc s t") (auto simp: taker_step_def taker_left_def tgoto_def split: option.splits if_splits)

lemma btt_step_order:
  assumes y: "btt_sync n T s" and st: "btt_step n T s s'"
  shows "(s', s) \<in> btt_order n T"
  using st
proof cases
  case (taker t)
  have "q_main s = FBarrier" if "q_pc s t = TTake"
    using y that taker(1) by (cases "q_main s") (force simp: btt_sync_def phase_inv_def)+
  then have q: "q_pc s t = TTake \<Longrightarrow> - 1 \<le> q_queue s" using y by (simp add: btt_sync_def turns_inv_def filled_def)
  obtain pc where pcs: "q_pc s' = (q_pc s)(t := pc)" using taker_phase [OF taker(2)] by blast
  have m: "filler_left n T s' = filler_left n T s" using taker_frame [OF taker(2)] by (simp add: filler_left_def)
  have "taker_left n (q_queue s) pc < taker_left n (q_queue s) (q_pc s t) \<Longrightarrow>
      (\<Sum>u<T. taker_left n (q_queue s) (q_pc s' u)) < (\<Sum>u<T. taker_left n (q_queue s) (q_pc s u))"
    using sum_one_less [OF pcs taker(1), where g = "\<lambda>_. taker_left n (q_queue s)"] by simp
  then show ?thesis using taker_decreases [OF taker(2) q] m pcs by (auto simp: btt_order_def)
next
  case filler
  have "q_main s = FIncr \<Longrightarrow> q_k s < n" "\<And>i. q_main s = FCreate i \<Longrightarrow> q_k s = 0"
    using y by (simp_all add: btt_sync_def turns_inv_def)
  then have "filler_left n T s' < filler_left n T s"
    using filler by (cases "q_main s") (auto simp: filler_step_def filler_left_def split: if_splits)
  then show ?thesis by (simp add: btt_order_def)
next
  case btt_barrier
  then have "filler_left n T s' < filler_left n T s"
    by (cases "q_main s") (auto simp: btt_barrier_step_def filler_left_def split: if_splits)
  then show ?thesis by (simp add: btt_order_def)
qed

interpretation btt_ending: ending "btt_step n T" "\<lambda>s. \<exists>m. s = btt_init n m" "btt_sync n T" "btt_over T" "btt_order n T"
  for n T
  using btt_sync_init btt_sync_step btt_progress btt_step_order wf_btt_order by unfold_locales blast+

section \<open>One worker\<close>

text \<open>A single worker has taken row 10 before it can find the bag empty.\<close>

definition lone_inv :: "nat \<Rightarrow> btt_state \<Rightarrow> bool" where
  "lone_inv n s \<longleftrightarrow> q_pc s 0 \<noteq> TFault \<and>
     (q_i s 0 = None \<longrightarrow> (case q_main s of
        FBarrier \<Rightarrow> q_queue s = 10 \<and> q_pc s 0 \<in> {TCheck, TLockQ, TTake}
      | FUnlockQ \<Rightarrow> q_queue s = 10
      | FKBarrierA \<Rightarrow> q_queue s = 10
      | FIncr \<Rightarrow> False
      | FKBarrierC \<Rightarrow> False
      | _ \<Rightarrow> True))"

lemma row_access:
  assumes "bit_fits n m" and "0 \<le> i" and "i \<le> 10" and "11 \<le> n" and "j < n" and "k < n"
  shows "bit_array_get m (row_cell n i j) \<noteq> None" and "update_row_cell n k i ik j m \<noteq> None"
proof -
  have i: "nat i < n" using assms(2-4) by linarith
  show "bit_array_get m (row_cell n i j) \<noteq> None"
    using get_bit_edge [OF assms(1) i assms(5)] row_cell_nat [OF assms(2)] by simp
  show "update_row_cell n k i ik j m \<noteq> None"
    using get_bit_edge [OF assms(1,6,5)] bit_matrix.connect_in [OF assms(1) i assms(5)]
    by (auto simp: update_row_cell_def row_cell_nat [OF assms(2)] bit_connect_def)
qed

lemma lone_taker:
  assumes v: "lone_inv n s" and r: "rows_inv n T E s" and y: "btt_sync n T s" and T: "0 < T" and n: "11 \<le> n"
    and st: "taker_step n 0 s = Some s'"
  shows "lone_inv n s'"
proof -
  have ph: "phase_inv T s" and tu: "turns_inv n T s" using y by (simp_all add: btt_sync_def)
  have m: "q_main s' = q_main s" using taker_frame [OF st] by simp
  have fit: "bit_fits n (q_matrix s)" and i: "\<And>i. q_i s 0 = Some i \<Longrightarrow> 0 \<le> i \<and> i \<le> 10"
    and c: "col_below n (q_pc s 0)" using r T by (auto simp: rows_inv_def)
  show ?thesis
  proof (cases "q_main s = FBarrier")
    case True
    then have k: "q_k s < n" using tu by (simp add: turns_inv_def)
    show ?thesis
    proof (cases "q_i s 0")
      case None
      then have "q_queue s = 10" "q_pc s 0 \<in> {TCheck, TLockQ, TTake}" using v True by (simp_all add: lone_inv_def)
      then show ?thesis
        using st None m True by (auto simp: taker_step_def tgoto_def lone_inv_def split: if_splits)
    next
      case (Some a)
      note bounds = conjunct1 [OF i [OF Some]] conjunct2 [OF i [OF Some]]
      have nf: "q_pc s 0 \<noteq> TFault" using v by (simp add: lone_inv_def)
      have "q_pc s' 0 \<noteq> TFault \<and> q_i s' 0 \<noteq> None"
      proof (cases "q_pc s 0")
        case TRead
        then show ?thesis using st Some row_access(1) [OF fit bounds n k k] by (auto simp: taker_step_def)
      next
        case (TUpdate ik j)
        then have "update_row_cell n (q_k s) a ik j (q_matrix s) \<noteq> None" using row_access(2) [OF fit bounds n _ k] c by simp
        then show ?thesis using st Some TUpdate by (auto simp: taker_step_def)
      next
        case TTake
        then show ?thesis using st Some by (auto simp: taker_step_def)
      qed (use st Some nf in \<open>auto simp: taker_step_def split: if_splits\<close>)
      then show ?thesis by (auto simp: lone_inv_def)
    qed
  next
    case False
    then have "q_pc s 0 \<in> {TNew, TTest, TKBarrierA, TExit, TKBarrierC}"
      using ph T by (cases "q_main s") (auto simp: phase_inv_def)
    then show ?thesis using st v m False
      by (cases "q_main s") (auto simp: taker_step_def lone_inv_def split: if_splits)
  qed
qed

lemma lone_step:
  assumes v: "lone_inv n s" and r: "rows_inv n 1 E s" and y: "btt_sync n 1 s" and n: "11 \<le> n"
    and st: "btt_step n 1 s s'"
  shows "lone_inv n s'"
  using st
proof cases
  case (taker t)
  then show ?thesis using lone_taker [OF v r y _ n] by simp
next
  case filler
  then show ?thesis using v
    by (cases "q_main s") (auto simp: filler_step_def lone_inv_def split: if_splits)
next
  case btt_barrier
  have "q_main s = FKBarrierA \<Longrightarrow> q_pc s 0 \<in> {TNew, TTest, TKBarrierA, TExit}"
    using y by (simp add: btt_sync_def phase_inv_def)
  then show ?thesis using v btt_barrier
    by (cases "q_main s")
      (auto simp: btt_barrier_step_def lone_inv_def list_all_iff past_kbarrier_def at_kbarrier_def split: if_splits)
qed

lemma lone_reachable:
  assumes "(btt_step n 1)\<^sup>*\<^sup>* (btt_init n m) s" and "bit_fits n m" and "11 \<le> n"
  shows "lone_inv n s"
  using assms(1)
proof (induction rule: rtranclp_induct)
  case base
  show ?case by (simp add: lone_inv_def btt_init_def)
next
  case (step s s')
  have "btt_inv n 1 (bit_edge n m) s" using btt_inv_reachable [OF step.hyps(1) assms(2,3)] by simp
  then have "rows_inv n 1 (bit_edge n m) s" by (simp add: btt_inv_def)
  moreover have "btt_sync n 1 s" using btt_ending.inv_reachable step.hyps(1) by blast
  ultimately show ?case using lone_step [OF step.IH _ _ assms(3) step.hyps(2)] by blast
qed

lemma lone_can_end:
  assumes "(btt_step n 1)\<^sup>*\<^sup>* (btt_init n m) s" and "bit_fits n m" and "11 \<le> n"
  shows "\<exists>s'. (btt_step n 1)\<^sup>*\<^sup>* s s' \<and> q_main s' = FDone"
proof -
  have "btt_sync n 1 s" using btt_ending.inv_reachable assms(1) by blast
  then obtain s' where s': "(btt_step n 1)\<^sup>*\<^sup>* s s'" "btt_over 1 s'" using btt_ending.can_end by blast
  have "lone_inv n s'" using lone_reachable [OF rtranclp_trans [OF assms(1) s'(1)] assms(2,3)] .
  then show ?thesis using s' by (auto simp: btt_over_def lone_inv_def)
qed

section \<open>Two workers\<close>

text \<open>Worker 1 waits in front of the lock, without a row, while worker 0 empties the bag.\<close>

definition waits_rowless :: "btt_state \<Rightarrow> bool" where
  "waits_rowless s \<longleftrightarrow> q_main s = FBarrier \<and> q_pc s 1 = TLockQ \<and> q_i s 1 = None"

lemma no_holder:
  assumes "btt_sync n 2 s" and "waits_rowless s"
  shows "\<not> holds_queue (q_pc s 0) \<Longrightarrow> q_mutexqueue s = None" "\<not> holds_matrix (q_pc s 0) \<Longrightarrow> q_mutexmatrix s = None"
proof -
  have i: "mutexes_inv 2 s" using assms(1) by (simp add: btt_sync_def)
  have h: "h = 0" if "h < 2" "holds_queue (q_pc s h) \<or> holds_matrix (q_pc s h)" for h
    using that assms(2) by (cases "h = 1") (auto simp: waits_rowless_def)
  show "\<not> holds_queue (q_pc s 0) \<Longrightarrow> q_mutexqueue s = None"
    using i h assms(2) by (cases "q_mutexqueue s") (force simp: mutexes_inv_def waits_rowless_def)+
  show "\<not> holds_matrix (q_pc s 0) \<Longrightarrow> q_mutexmatrix s = None"
    using i h by (cases "q_mutexmatrix s") (force simp: mutexes_inv_def)+
qed

lemma empties_bag:
  assumes "btt_sync n 2 s" and "btt_inv n 2 E s" and "lone_inv n s" and "waits_rowless s" and "11 \<le> n"
  shows "\<exists>s'. (btt_step n 2)\<^sup>*\<^sup>* s s' \<and> waits_rowless s' \<and> q_queue s' = - 1 \<and> q_mutexqueue s' = None"
  using assms(1-4)
proof (induction s rule: wf_induct_rule [OF wf_btt_order [of n 2]])
  case (1 s)
  note y = 1(2) and b = 1(3) and v = 1(4) and w = 1(5)
  have r: "phase_inv 2 s" "rows_inv n 2 E s" "btt_round n 2 E s" using b by (simp_all add: btt_inv_def)
  have pc: "in_bag (q_pc s 0) \<or> q_pc s 0 = TBarrier"
    using spec [OF r(1) [unfolded phase_inv_def], of 0] v w by (simp add: waits_rowless_def lone_inv_def)
  show ?case
  proof (cases "q_pc s 0 = TBarrier")
    case True
    then have "q_queue s = - 1" using r(3) w by (force simp: btt_round_def btt_in_round_def waits_rowless_def)
    moreover have "q_mutexqueue s = None" using no_holder(1) [OF y w] True by simp
    ultimately show ?thesis using w by blast
  next
    case False
    have "taker_step n 0 s \<noteq> None"
    proof
      assume "taker_step n 0 s = None"
      from taker_moves [OF this] show False using pc False no_holder [OF y w] by (auto simp: in_bag_def)
    qed
    then obtain u where u: "taker_step n 0 s = Some u" by blast
    then have st: "btt_step n 2 s u" using btt_step.taker [of 0 2] by simp
    have wu: "waits_rowless u" using w taker_own [OF u, of 1] taker_frame [OF u] by (simp add: waits_rowless_def)
    have "btt_sync n 2 u" "btt_inv n 2 E u" "lone_inv n u"
      using btt_sync_step [OF y st] btt_inv_step [OF assms(5) _ b st] lone_taker [OF v r(2) y _ assms(5) u] by simp_all
    from 1(1) [OF btt_step_order [OF y st] this wu] st show ?thesis by (meson converse_rtranclp_into_rtranclp)
  qed
qed

definition second_waits :: "btt_mover list" where
  "second_waits = replicate 5 Filler @ [Taker 0, Taker 1] @ replicate 3 Filler @ [Gather, Taker 0, Taker 1]"

lemma second_waits_run:
  assumes "0 < n"
  shows "\<exists>s. btt_run n 2 second_waits (btt_init n m) = Some s \<and> waits_rowless s \<and> lone_inv n s"
  using assms
  by (simp add: numeral_eq_Suc second_waits_def btt_run_def btt_move_def btt_init_def filler_step_def taker_step_def
      btt_barrier_step_def tgoto_def upt_rec at_kbarrier_def past_kbarrier_def waits_rowless_def lone_inv_def)

lemma rowless_faults:
  assumes "waits_rowless s" and "q_queue s = - 1" and "q_mutexqueue s = None"
  shows "\<exists>s'. btt_run n 2 (replicate 4 (Taker 1)) s = Some s' \<and> q_pc s' 1 = TFault \<and> q_i s' 1 = None"
  using assms
  by (simp add: numeral_eq_Suc btt_run_def btt_move_def taker_step_def tgoto_def waits_rowless_def)

section \<open>Properties\<close>

text \<open>
  C13. \<^verbatim>\<open>wtc_btthr\<close> has no infinite run, and a reachable state without a next step is the end of the main
  thread or has a worker that used its row number before it had one, or left the bit array; the two
  mutexes, the two barriers and the joins never deadlock.
\<close>

theorem btt_terminates:
  "((btt_step n T)\<^sup>*\<^sup>* (btt_init n m) s \<longrightarrow> q_main s \<noteq> FDone \<longrightarrow> (\<forall>t<T. q_pc s t \<noteq> TFault) \<longrightarrow>
      (\<exists>s'. btt_step n T s s')) \<and>
   \<not> (\<exists>f. f 0 = btt_init n m \<and> (\<forall>i. btt_step n T (f i) (f (Suc i))))"
  using btt_ending.never_stuck [where ?s0.0 = "btt_init n m"] btt_ending.no_infinite_run [where ?s0.0 = "btt_init n m"]
  unfolding btt_over_def by blast

text \<open>
  C14. With two workers, on every graph of at least 11 nodes, \<^verbatim>\<open>wtc_btthr\<close> has an undefined run: a worker that
  passes the unlocked test of \<^verbatim>\<open>queue\<close> in the first round and gets the lock when the other has taken the last
  row goes on with its \<^verbatim>\<open>i\<close> uninitialised, since the code behind the second test does not skip the row.
\<close>

theorem btt_second_worker_without_row:
  assumes "11 \<le> n" and "bit_fits n m"
  shows "\<exists>s. (btt_step n 2)\<^sup>*\<^sup>* (btt_init n m) s \<and> q_pc s 1 = TFault \<and> q_i s 1 = None"
proof -
  have "0 < n" using assms(1) by simp
  then obtain s where s: "(btt_step n 2)\<^sup>*\<^sup>* (btt_init n m) s" "waits_rowless s" "lone_inv n s"
    using second_waits_run btt_run_steps by blast
  have "btt_sync n 2 s" "btt_inv n 2 (bit_edge n m) s"
    using btt_ending.inv_reachable [OF _ s(1)] btt_inv_reachable [OF s(1) assms(2,1)] by auto
  then obtain u where u: "(btt_step n 2)\<^sup>*\<^sup>* s u" "waits_rowless u" "q_queue u = - 1" "q_mutexqueue u = None"
    using empties_bag s(2,3) assms(1) by blast
  with rowless_faults btt_run_steps obtain v where "(btt_step n 2)\<^sup>*\<^sup>* u v" "q_pc v 1 = TFault" "q_i v 1 = None" by blast
  with s(1) u(1) show ?thesis by (meson rtranclp_trans)
qed

text \<open>
  With one worker, on every graph of at least 11 nodes, \<^verbatim>\<open>wtc_btthr\<close> is well defined: the worker always has
  a row and stays inside the bit array, and the program can run to its end from every reachable state.
\<close>

theorem btt_lone_worker_ends:
  assumes "(btt_step n 1)\<^sup>*\<^sup>* (btt_init n m) s" and "bit_fits n m" and "11 \<le> n"
  shows "q_pc s 0 \<noteq> TFault \<and> (\<exists>s'. (btt_step n 1)\<^sup>*\<^sup>* s s' \<and> q_main s' = FDone)"
  using lone_reachable [OF assms] lone_can_end [OF assms] by (simp add: lone_inv_def)

section \<open>Witnesses\<close>

text \<open>Eleven nodes in a row, each with an edge to the next one.\<close>

definition chain_matrix :: "bit_array" where
  "chain_matrix = [2, 32, 0, 2, 32, 0, 2, 32, 0, 2, 32, 0, 2, 32, 0, 0]"

lemma chain_fits: "bit_fits 11 chain_matrix"
  by (simp add: bit_fits_def bit_room_def chain_matrix_def)

theorem btt_terminates_witness:
  "\<exists>s'. btt_step 11 2 (btt_init 11 chain_matrix) s'"
  using btt_terminates [of 11 2 chain_matrix "btt_init 11 chain_matrix"] by (auto simp: btt_init_def less_2_cases_iff)

theorem btt_second_worker_without_row_witness:
  "\<exists>s. (btt_step 11 2)\<^sup>*\<^sup>* (btt_init 11 chain_matrix) s \<and> q_pc s 1 = TFault"
  using btt_second_worker_without_row [OF _ chain_fits] by auto

theorem btt_lone_worker_ends_witness:
  "\<exists>s'. (btt_step 11 1)\<^sup>*\<^sup>* (btt_init 11 chain_matrix) s' \<and> q_main s' = FDone"
  using btt_lone_worker_ends [OF rtranclp.rtrancl_refl chain_fits] by auto

end
