(* ===== verification/Proc_File.thy ===== *)
theory Proc_File
  imports Proc_Bag Graph_File
begin

text \<open>
  Input and output of the two process programs: \<^verbatim>\<open>openMatrix\<close> and \<^verbatim>\<open>readMatrix\<close> of
  \<^verbatim>\<open>Project_1/Stuff/wtc_btproc.c\<close> (the same statements stand in \<^verbatim>\<open>wtc_proc\<close>) and \<^verbatim>\<open>print_matrix2\<close> of
  \<^verbatim>\<open>wtc_proc.c\<close>. The numbers are local variables without an initial value and are not checked, so
  \<^term>\<open>None\<close> is the use of such a variable, a null stream, or a write outside the matrix.
\<close>

section \<open>Reading\<close>

definition scan_var :: "int option \<Rightarrow> stream \<Rightarrow> (bool \<times> int option \<times> stream) option" where
  "scan_var v st =
     (case scan_int st of
        (Got x, st') \<Rightarrow> Some (True, Some x, st')
      | (Unrepresentable, _) \<Rightarrow> None
      | (_, st') \<Rightarrow> Some (False, v, st'))"

definition scan_vars :: "int option \<Rightarrow> int option \<Rightarrow> stream \<Rightarrow> (int option \<times> int option \<times> stream) option" where
  "scan_vars a b st =
     do { (ok, a', st1) \<leftarrow> scan_var a st;
          if ok then do { (_, b', st2) \<leftarrow> scan_var b (skip_space st1); Some (a', b', st2) }
          else Some (a', b, st1) }"

definition store_entry :: "int \<Rightarrow> int option \<Rightarrow> int option \<Rightarrow> int_matrix \<Rightarrow> int_matrix option" where
  "store_entry n a b m =
     (case (a, b) of
        (Some x, Some y) \<Rightarrow>
          (let p = (x - 1) * n + (y - 1)
           in if index_defined n x y \<and> 0 \<le> p then int_put m (nat p) 1 else None)
      | _ \<Rightarrow> None)"

text \<open>The outer \<^term>\<open>None\<close> is a loop that does not end.\<close>

partial_function (option) readMatrix ::
    "int \<Rightarrow> int_matrix \<Rightarrow> int option \<Rightarrow> int option \<Rightarrow> stream \<Rightarrow> int_matrix option option" where
  "readMatrix n m a b st =
     (if at_eof st then Some (Some m)
      else case scan_vars a b st of
        None \<Rightarrow> Some None
      | Some (a', b', st') \<Rightarrow>
          (case store_entry n a' b' m of
             None \<Rightarrow> Some None
           | Some m' \<Rightarrow> readMatrix n m' a' b' st'))"

declare readMatrix.simps [code]

definition openMatrix :: "(string \<Rightarrow> string option) \<Rightarrow> string \<Rightarrow> (int \<times> int \<times> stream) option" where
  "openMatrix fopen fileName =
     (case fopen fileName of
        None \<Rightarrow> None
      | Some text \<Rightarrow>
          (case scan_int \<lparr>avail = text, at_eof = False\<rparr> of
             (Got t, st1) \<Rightarrow>
               (case scan_int st1 of (Got n, st2) \<Rightarrow> Some (t, n, st2) | _ \<Rightarrow> None)
           | _ \<Rightarrow> None))"

text \<open>
  \<open>segment\<close> gives the matrix part of the shared memory object as \<^verbatim>\<open>shm_open\<close> finds it: zeros when it is new,
  else what an earlier run has left, since \<^verbatim>\<open>ftruncate\<close> to the same size keeps it.
\<close>

definition proc_input ::
    "(string \<Rightarrow> string option) \<Rightarrow> string \<Rightarrow> (int \<Rightarrow> int_matrix) \<Rightarrow> (int \<times> int \<times> int_matrix) option option" where
  "proc_input fopen fileName segment =
     (case openMatrix fopen fileName of
        None \<Rightarrow> Some None
      | Some (t, n, st) \<Rightarrow> map_option (map_option (\<lambda>m. (t, n, m))) (readMatrix n (segment n) None None st))"

section \<open>Printing\<close>

definition print_entry :: "int_matrix \<Rightarrow> nat \<Rightarrow> nat \<Rightarrow> nat \<Rightarrow> string option" where
  "print_entry m n i j = map_option (\<lambda>v. show_int v @ '' '') (int_get m (i * n + j))"

definition print_row :: "int_matrix \<Rightarrow> nat \<Rightarrow> nat \<Rightarrow> string option" where
  "print_row m n i = map_option (\<lambda>cs. concat cs @ [CHR 0x0A]) (those (map (print_entry m n i) [0..<n]))"

definition print_matrix2 :: "int_matrix \<Rightarrow> int \<Rightarrow> string option" where
  "print_matrix2 m n = map_option concat (those (map (print_row m (nat n)) [0..<nat n]))"

section \<open>Lemmas on reading\<close>

lemma scan_vars_some: "scan_vars (Some a) (Some b) st = map_option (\<lambda>(x, y, s). (Some x, Some y, s)) (scan_pair a b st)"
  by (auto simp: scan_vars_def scan_pair_def scan_var_def split: scanned.split prod.split)

text \<open>Two conversions that do not depend on the old values have taken place.\<close>

lemma scan_vars_both:
  assumes "\<forall>x y. scan_pair x y st = Some (u, v, st')"
  shows "scan_vars a b st = Some (Some u, Some v, st')"
proof -
  have "scan_pair (u + 1) (v + 1) st = Some (u, v, st')" using assms by blast
  then show ?thesis
    by (auto simp: scan_vars_def scan_pair_def scan_var_def split: scanned.splits prod.splits)
qed

lemma store_entry_connect:
  assumes "n * n < 2 ^ 31" and "i < n" and "j < n"
  shows "store_entry (int n) (Some (int (i + 1))) (Some (int (j + 1))) m = int_connect n i j m"
proof -
  have "nat (int i * int n + int j) = i * n + j" by (simp flip: of_nat_mult of_nat_add)
  then show ?thesis
    using pair_index_defined [OF assms] by (simp add: store_entry_def int_connect_def Let_def)
qed

interpretation int_reader: edge_reader int_edge int_connect int_fits
    "\<lambda>n m a b st. readMatrix (int n) m a b st" Some "\<lambda>n m. Some (Some m)"
proof unfold_locales
  fix n i j :: nat and m m' and st st' :: stream and a b :: "int option"
  assume n: "n * n < 2 ^ 31" and ij: "i < n" "j < n" and m': "int_connect n i j m = Some m'" and st: "\<not> at_eof st"
  note s = store_entry_connect [OF n ij]
  {
    assume "\<forall>x y. scan_pair x y st = Some (int (i + 1), int (j + 1), st')"
    from scan_vars_both [OF this] show "readMatrix (int n) m a b st =
        readMatrix (int n) m' (Some (int (i + 1))) (Some (int (j + 1))) st'"
      using st m' s by (subst readMatrix.simps) simp
  next
    assume "\<forall>x y. scan_pair x y st = Some (x, y, st')"
    then show "readMatrix (int n) m (Some (int (i + 1))) (Some (int (j + 1))) st =
        readMatrix (int n) m' (Some (int (i + 1))) (Some (int (j + 1))) st'"
      using st m' s by (subst readMatrix.simps) (simp add: scan_vars_some)
  }
qed (simp add: readMatrix.simps)

lemma proc_input_reads:
  assumes "fopen f = Some (graph_text nt n es w)" and "\<forall>e \<in> set es. edge_wf n e" and "blank w"
    and "nt < 2 ^ 31" and "n * n < 2 ^ 31" and "es \<noteq> [] \<or> w = []" and "int_fits n (segment (int n))"
  shows "\<exists>m. proc_input fopen f segment = Some (Some (int nt, int n, m)) \<and> int_fits n m \<and>
    agree n (int_edge n m) (\<lambda>i j. int_edge n (segment (int n)) i j \<or> has_edge es i j)"
proof -
  have n: "n < 2 ^ 31" using assms(5) by (cases n) auto
  obtain m where m: "readMatrix (int n) (segment (int n)) None None
        \<lparr>avail = concat (map edge_string es) @ w, at_eof = (concat (map edge_string es) @ w = [])\<rparr> = Some (Some m)"
    "int_fits n m" "agree n (int_edge n m) (\<lambda>i j. int_edge n (segment (int n)) i j \<or> has_edge es i j)"
    using int_reader.whole_file [OF assms(2,3,5,7,6), of None None] by blast
  moreover have "openMatrix fopen f = Some (int nt, int n,
      \<lparr>avail = concat (map edge_string es) @ w, at_eof = (concat (map edge_string es) @ w = [])\<rparr>)"
    using header_scan [OF assms(4) n edges_start [OF assms(2) blank_start [OF assms(3)]]] assms(1)
    by (simp add: openMatrix_def graph_text_def)
  ultimately show ?thesis by (simp add: proc_input_def)
qed

section \<open>Lemmas on printing\<close>

definition zero_one :: "int_matrix \<Rightarrow> bool" where
  "zero_one m \<longleftrightarrow> set m \<subseteq> {0, 1}"

lemma show_bits: "show_int 0 = ''0''" "show_int 1 = ''1''"
  by code_simp+

lemma matrix2_printed:
  assumes "int_fits n m" and "zero_one m"
  shows "print_matrix2 m (int n) = Some (matrix_text n (int_edge n m))"
proof -
  let ?c = "\<lambda>i j. if int_edge n m i j then ''1 '' else ''0 ''"
  let ?l = "\<lambda>i. concat (map (?c i) [0..<n]) @ [CHR 0x0A]"
  have "print_entry m n i j = Some (?c i j)" if "i < n" "j < n" for i j
  proof -
    have p: "i * n + j < length m" using index_in_matrix [OF assms(1) that] .
    then have "m ! (i * n + j) \<in> {0, 1}" using assms(2) nth_mem unfolding zero_one_def by blast
    then show ?thesis using p
      by (auto simp: print_entry_def int_get_def int_edge_def show_bits)
  qed
  then have "those (map (print_entry m n i) [0..<n]) = Some (map (?c i) [0..<n])" if "i < n" for i
    using that by (intro those_map_Some) simp
  then have "those (map (print_row m n) [0..<n]) = Some (map ?l [0..<n])"
    by (intro those_map_Some) (simp add: print_row_def)
  then show ?thesis by (simp add: print_matrix2_def matrix_text_def)
qed

lemma zero_one_replicate [simp]: "zero_one (replicate k 0)"
  by (auto simp: zero_one_def)

lemma zero_one_put: "zero_one m \<Longrightarrow> v \<in> {0, 1} \<Longrightarrow> int_put m p v = Some m' \<Longrightarrow> zero_one m'"
  using set_update_subset_insert [of m p v] by (auto simp: zero_one_def int_put_def split: if_splits)

lemma length_put: "int_put m p v = Some m' \<Longrightarrow> length m' = length m"
  by (auto simp: int_put_def split: if_splits)

definition same_kind :: "int_matrix \<Rightarrow> int_matrix \<Rightarrow> bool" where
  "same_kind m m' \<longleftrightarrow> length m' = length m \<and> (zero_one m \<longrightarrow> zero_one m')"

lemma read_same_kind:
  assumes "readMatrix n m a b st = Some r"
  shows "\<forall>m'. r = Some m' \<longrightarrow> same_kind m m'"
proof (rule readMatrix.raw_induct [where P = "\<lambda>n m a b st r. \<forall>m'. r = Some m' \<longrightarrow> same_kind m m'", OF _ assms])
  fix loop :: "int \<Rightarrow> int_matrix \<Rightarrow> int option \<Rightarrow> int option \<Rightarrow> stream \<Rightarrow> int_matrix option option"
    and n m a b st r
  assume IH: "\<And>n m a b st r. loop n m a b st = Some r \<Longrightarrow> \<forall>m'. r = Some m' \<longrightarrow> same_kind m m'"
    and eq: "(if at_eof st then Some (Some m)
      else case scan_vars a b st of None \<Rightarrow> Some None
        | Some (a', b', st') \<Rightarrow> (case store_entry n a' b' m of None \<Rightarrow> Some None
            | Some m' \<Rightarrow> loop n m' a' b' st')) = Some r"
  have put: "same_kind m m'" if "store_entry n x y m = Some m'" for x y m'
    using that zero_one_put [of m 1 _ m'] length_put [of m _ 1 m']
    by (auto simp: store_entry_def Let_def same_kind_def split: option.splits if_splits)
  show "\<forall>m'. r = Some m' \<longrightarrow> same_kind m m'"
  proof (intro allI impI)
    fix m' assume r: "r = Some m'"
    show "same_kind m m'"
    proof (cases "at_eof st")
      case True
      then show ?thesis using eq r by (simp add: same_kind_def)
    next
      case False
      then obtain a' b' st' u where "store_entry n a' b' m = Some u" "loop n u a' b' st' = Some r"
        using eq r by (auto split: option.splits)
      with put IH r have "same_kind m u" "same_kind u m'" by blast+
      then show ?thesis by (simp add: same_kind_def)
    qed
  qed
qed

lemma proc_input_same_kind:
  assumes "proc_input fopen f segment = Some (Some (t, n, m))"
  shows "same_kind (segment n) m"
proof -
  obtain st where "readMatrix n (segment n) None None st = Some (Some m)"
    using assms by (auto simp: proc_input_def split: option.splits)
  from read_same_kind [OF this] show ?thesis by blast
qed

lemma zero_one_entry:
  "zero_one m \<and> length m = l \<Longrightarrow> update_entry n k y j m = Some m' \<Longrightarrow> zero_one m' \<and> length m' = l"
  by (auto simp: update_entry_def length_put elim!: zero_one_put [rotated -1] split: bind_splits if_splits)

lemma zero_one_bag:
  assumes "(bag_step n T)\<^sup>*\<^sup>* (initShm n m) s" and "zero_one m"
  shows "zero_one (b_matrix s) \<and> length (b_matrix s) = length m"
proof (rule rtranclp_invariant [where I = "\<lambda>s. zero_one (b_matrix s) \<and> length (b_matrix s) = length m", OF assms(1)])
  show "zero_one (b_matrix (initShm n m)) \<and> length (b_matrix (initShm n m)) = length m" using assms(2) by (simp add: initShm_def)
  fix u v assume z: "zero_one (b_matrix u) \<and> length (b_matrix u) = length m" and "bag_step n T u v"
  from this(2) show "zero_one (b_matrix v) \<and> length (b_matrix v) = length m"
  proof cases
    case (bag_child x)
    then show ?thesis using z zero_one_entry [OF z]
      by (auto simp: bag_child_step_def queuePop_def Let_def bag_goto_def split: bag_pc.splits if_splits option.splits)
  next
    case (bag_parent r)
    then show ?thesis using z
      by (auto simp: bag_parent_step_def bag_goto_def split: bag_parent.splits if_splits fork_result.splits)
  next
    case bag_meet
    then show ?thesis using z by (auto simp: bag_barrier_step_def split: bag_parent.splits if_splits)
  qed
qed

lemma zero_one_proc:
  assumes "(proc_step c)\<^sup>*\<^sup>* (proc_init m) s" and "zero_one m"
  shows "zero_one (p_matrix s) \<and> length (p_matrix s) = length m"
proof (rule rtranclp_invariant [where I = "\<lambda>s. zero_one (p_matrix s) \<and> length (p_matrix s) = length m", OF assms(1)])
  show "zero_one (p_matrix (proc_init m)) \<and> length (p_matrix (proc_init m)) = length m" using assms(2) by (simp add: proc_init_def)
  fix u v assume z: "zero_one (p_matrix u) \<and> length (p_matrix u) = length m" and "proc_step c u v"
  from this(2) show "zero_one (p_matrix v) \<and> length (p_matrix v) = length m"
  proof cases
    case (child x)
    then show ?thesis using z zero_one_entry [OF z]
      by (auto simp: child_step_def Let_def split: child_pc.splits if_splits option.splits)
  next
    case (parent r)
    then show ?thesis using z
      by (auto simp: parent_step_def split: parent_pc.splits if_splits fork_result.splits)
  next
    case meet
    then show ?thesis using z by (auto simp: proc_barrier_step_def split: parent_pc.splits if_splits)
  qed
qed

section \<open>Property\<close>

text \<open>
  C15. The shared memory of \<^verbatim>\<open>wtc_btproc\<close> stays what its code takes it for, in every reachable state: the matrix
  keeps its size and holds 0 and 1 only, the queue keeps its contents, its cursor points into it, and each of
  the two semaphores is 0 or 1, with no child inside its critical section when it is 1 and one at most else.
\<close>

theorem bag_memory_typed:
  assumes "(bag_step n T)\<^sup>*\<^sup>* (initShm n m) s" and "int_fits n m" and "0 < T" and "zero_one m"
  shows "length (b_matrix s) = length m \<and> zero_one (b_matrix s) \<and>
    b_queue s = setQueue n \<and> b_qNum s < length (b_queue s) \<and>
    b_matrixLock s + card {x. x < T \<and> has_matrix (b_child s x)} = 1 \<and>
    b_queueLock s + card {x. x < T \<and> has_queue (b_child s x)} = 1"
proof -
  have y: "bag_sync n T (int_edge n m) s" using bag_sync_reachable [OF assms(1-3)] .
  then have "bag_fits n s" "bag_sems T s" using bag_inv_fits unfolding bag_sync_def by blast+
  then show ?thesis using zero_one_bag [OF assms(1,4)]
    by (simp add: bag_fits_def bag_sems_def sem_counts_def setQueue_def)
qed

theorem bag_memory_typed_witness:
  "\<exists>s. (bag_step 2 3)\<^sup>*\<^sup>* (initShm 2 [0, 1, 1, 0]) s \<and> b_parent s = QDone \<and>
       length (b_matrix s) = 4 \<and> b_qNum s < length (b_queue s)"
proof -
  obtain s where s: "(bag_step 2 3)\<^sup>*\<^sup>* (initShm 2 [0, 1, 1, 0]) s" "b_parent s = QDone"
    using bag_sample_reached by blast
  have "int_fits 2 [0, 1, 1, 0]" "zero_one [0, 1, 1, 0]" by (simp_all add: int_fits_def zero_one_def)
  with bag_memory_typed [OF s(1)] s show ?thesis by auto
qed

end
