(* ===== verification/Draft_File.thy ===== *)
theory Draft_File
  imports Proc_File
begin

text \<open>
  \<^verbatim>\<open>Project_1/Stuff/functions2.c\<close>, the reading and printing of the drafts. It has the loop of \<^verbatim>\<open>functions.c\<close>
  on a matrix of ints that \<^verbatim>\<open>malloc\<close> has allocated and nothing has cleared: a cell is \<^term>\<open>None\<close> until it
  is written, and reading it then has no defined value. The echo of the edges on the terminal is left out.
\<close>

section \<open>The matrix\<close>

type_synonym raw_matrix = "int option list"

text \<open>\<^verbatim>\<open>sizeof(int)*lineCount*lineCount\<close> is computed in \<^verbatim>\<open>size_t\<close>; the allocation is assumed to succeed.\<close>

definition create_matrix :: "int \<Rightarrow> raw_matrix" where
  "create_matrix n = replicate (unat (4 * word_of_int n * word_of_int n :: u64) div 4) None"

definition raw_put :: "raw_matrix \<Rightarrow> nat \<Rightarrow> int \<Rightarrow> raw_matrix option" where
  "raw_put m p v = (if p < length m then Some (m[p := Some v]) else None)"

definition raw_get :: "raw_matrix \<Rightarrow> nat \<Rightarrow> int option" where
  "raw_get m p = (if p < length m then m ! p else None)"

section \<open>Reading\<close>

definition store_raw :: "int \<Rightarrow> int option \<Rightarrow> int option \<Rightarrow> raw_matrix \<Rightarrow> raw_matrix option" where
  "store_raw n a b m =
     (case (a, b) of
        (Some x, Some y) \<Rightarrow>
          (let p = (x - 1) * n + (y - 1)
           in if index_defined n x y \<and> 0 \<le> p then raw_put m (nat p) 1 else None)
      | _ \<Rightarrow> None)"

text \<open>The outer \<^term>\<open>None\<close> is a loop that does not end.\<close>

partial_function (option) draft_loop ::
    "int \<Rightarrow> raw_matrix \<Rightarrow> int option \<Rightarrow> int option \<Rightarrow> stream \<Rightarrow> raw_matrix option option" where
  "draft_loop n m a b st =
     (if at_eof st then Some (Some m)
      else case scan_vars a b st of
        None \<Rightarrow> Some None
      | Some (a', b', st') \<Rightarrow>
          (case store_raw n a' b' m of
             None \<Rightarrow> Some None
           | Some m' \<Rightarrow> draft_loop n m' a' b' st'))"

declare draft_loop.simps [code]

definition draft_read_file :: "(string \<Rightarrow> string option) \<Rightarrow> string \<Rightarrow> (int \<times> int \<times> raw_matrix) option option" where
  "draft_read_file fopen filename =
     (case openMatrix fopen filename of
        None \<Rightarrow> Some None
      | Some (t, n, st) \<Rightarrow> map_option (map_option (\<lambda>m. (t, n, m))) (draft_loop n (create_matrix n) None None st))"

section \<open>Printing\<close>

definition draft_print_entry :: "raw_matrix \<Rightarrow> nat \<Rightarrow> nat \<Rightarrow> nat \<Rightarrow> string option" where
  "draft_print_entry m n i j = map_option (\<lambda>v. show_int v @ '' '') (raw_get m (i * n + j))"

definition draft_print_row :: "raw_matrix \<Rightarrow> nat \<Rightarrow> nat \<Rightarrow> string option" where
  "draft_print_row m n i = map_option (\<lambda>cs. concat cs @ [CHR 0x0A]) (those (map (draft_print_entry m n i) [0..<n]))"

definition draft_print_matrix :: "raw_matrix \<Rightarrow> int \<Rightarrow> string option" where
  "draft_print_matrix m n = map_option concat (those (map (draft_print_row m (nat n)) [0..<nat n]))"

section \<open>The interface\<close>

text \<open>No cell ever has another value than 1.\<close>

definition raw_edge :: "nat \<Rightarrow> raw_matrix \<Rightarrow> graph" where
  "raw_edge n m i j \<longleftrightarrow> m ! (i * n + j) = Some 1"

definition raw_connect :: "nat \<Rightarrow> nat \<Rightarrow> nat \<Rightarrow> raw_matrix \<Rightarrow> raw_matrix option" where
  "raw_connect n i j m = raw_put m (i * n + j) 1"

definition raw_fits :: "nat \<Rightarrow> raw_matrix \<Rightarrow> bool" where
  "raw_fits n m \<longleftrightarrow> n * n \<le> length m \<and> set m \<subseteq> {None, Some 1}"

lemma index_in_raw: "raw_fits n m \<Longrightarrow> i < n \<Longrightarrow> j < n \<Longrightarrow> i * n + j < length m"
  using index_less by (metis raw_fits_def order_less_le_trans)

interpretation raw_matrix: edge_store raw_edge raw_connect raw_fits
proof unfold_locales
  fix n i j :: nat and m m' :: raw_matrix
  assume fit: "raw_fits n m" and i: "i < n" and j: "j < n"
  note p = index_in_raw [OF fit i j]
  then show "\<exists>m'. raw_connect n i j m = Some m'" by (simp add: raw_connect_def raw_put_def)
  assume m': "raw_connect n i j m = Some m'"
  then have m': "m' = m[i * n + j := Some 1]" using p by (simp add: raw_connect_def raw_put_def)
  then show "raw_fits n m'"
    using fit set_update_subset_insert [of m "i * n + j" "Some 1"] by (auto simp: raw_fits_def)
  show "agree n (raw_edge n m') (\<lambda>a b. raw_edge n m a b \<or> a = i \<and> b = j)"
    using p j by (auto simp: m' raw_edge_def agree_def nth_list_update index_inject)
qed

lemma store_raw_connect:
  assumes "n * n < 2 ^ 31" and "i < n" and "j < n"
  shows "store_raw (int n) (Some (int (i + 1))) (Some (int (j + 1))) m = raw_connect n i j m"
proof -
  have "nat (int i * int n + int j) = i * n + j" by (simp flip: of_nat_mult of_nat_add)
  then show ?thesis
    using pair_index_defined [OF assms] by (simp add: store_raw_def raw_connect_def Let_def)
qed

interpretation raw_reader: edge_reader raw_edge raw_connect raw_fits
    "\<lambda>n m a b st. draft_loop (int n) m a b st" Some "\<lambda>n m. Some (Some m)"
proof unfold_locales
  fix n i j :: nat and m m' and st st' :: stream and a b :: "int option"
  assume n: "n * n < 2 ^ 31" and ij: "i < n" "j < n" and m': "raw_connect n i j m = Some m'" and st: "\<not> at_eof st"
  note s = store_raw_connect [OF n ij]
  {
    assume "\<forall>x y. scan_pair x y st = Some (int (i + 1), int (j + 1), st')"
    from scan_vars_both [OF this] show "draft_loop (int n) m a b st =
        draft_loop (int n) m' (Some (int (i + 1))) (Some (int (j + 1))) st'"
      using st m' s by (subst draft_loop.simps) simp
  next
    assume "\<forall>x y. scan_pair x y st = Some (x, y, st')"
    then show "draft_loop (int n) m (Some (int (i + 1))) (Some (int (j + 1))) st =
        draft_loop (int n) m' (Some (int (i + 1))) (Some (int (j + 1))) st'"
      using st m' s by (subst draft_loop.simps) (simp add: scan_vars_some)
  }
qed (simp add: draft_loop.simps)

section \<open>The new matrix\<close>

lemma create_fits:
  assumes "n * n < 2 ^ 31"
  shows "raw_fits n (create_matrix (int n))" and "i < n \<Longrightarrow> j < n \<Longrightarrow> \<not> raw_edge n (create_matrix (int n)) i j"
proof -
  have "4 * word_of_int (int n) * word_of_int (int n) = (word_of_nat (4 * (n * n)) :: u64)" by simp
  moreover have "4 * (n * n) < 2 ^ 64" using assms by simp
  ultimately have "unat (4 * word_of_int (int n) * word_of_int (int n) :: u64) div 4 = n * n"
    by (simp only: unat_of_nat) simp
  then have m: "create_matrix (int n) = replicate (n * n) None" by (simp add: create_matrix_def)
  then show "raw_fits n (create_matrix (int n))" by (auto simp: raw_fits_def)
  show "i < n \<Longrightarrow> j < n \<Longrightarrow> \<not> raw_edge n (create_matrix (int n)) i j"
    using index_less [of i n j] by (simp add: m raw_edge_def)
qed

lemma those_map_None: "those (map f xs) = None \<longleftrightarrow> (\<exists>x\<in>set xs. f x = None)"
  by (induction xs) (auto split: option.splits)

lemma draft_print_undefined:
  assumes "raw_fits n m"
  shows "draft_print_matrix m (int n) = None \<longleftrightarrow> (\<exists>i<n. \<exists>j<n. \<not> raw_edge n m i j)"
proof -
  have "draft_print_entry m n i j = None \<longleftrightarrow> \<not> raw_edge n m i j" if "i < n" "j < n" for i j
  proof -
    have p: "i * n + j < length m" using index_in_raw [OF assms that] .
    then have "m ! (i * n + j) \<in> {None, Some 1}" using assms nth_mem unfolding raw_fits_def by blast
    then show ?thesis using p by (auto simp: draft_print_entry_def raw_get_def raw_edge_def)
  qed
  then have "draft_print_row m n i = None \<longleftrightarrow> (\<exists>j<n. \<not> raw_edge n m i j)" if "i < n" for i
    using that by (auto simp: draft_print_row_def those_map_None)
  then show ?thesis by (auto simp: draft_print_matrix_def those_map_None)
qed

section \<open>Property\<close>

text \<open>
  Of a well-formed graph text \<^verbatim>\<open>read_file\<close> of \<^verbatim>\<open>functions2.c\<close> makes a matrix with exactly its edges, and
  printing it reads a cell without a value unless there is an edge between every two vertices.
\<close>

theorem draft_matrix_uninitialised:
  assumes "fopen f = Some (graph_text nt n es w)" and "\<forall>e \<in> set es. edge_wf n e" and "blank w"
    and "nt < 2 ^ 31" and "n * n < 2 ^ 31" and "es \<noteq> [] \<or> w = []"
  shows "\<exists>m. draft_read_file fopen f = Some (Some (int nt, int n, m)) \<and> agree n (raw_edge n m) (has_edge es) \<and>
    (draft_print_matrix m (int n) = None \<longleftrightarrow> (\<exists>i<n. \<exists>j<n. \<not> has_edge es i j))"
proof -
  have n: "n < 2 ^ 31" using assms(5) by (cases n) auto
  obtain m where m: "draft_loop (int n) (create_matrix (int n)) None None
        \<lparr>avail = concat (map edge_string es) @ w, at_eof = (concat (map edge_string es) @ w = [])\<rparr> = Some (Some m)"
    "raw_fits n m" "agree n (raw_edge n m) (\<lambda>i j. raw_edge n (create_matrix (int n)) i j \<or> has_edge es i j)"
    using raw_reader.whole_file [OF assms(2,3,5) create_fits(1) [OF assms(5)] assms(6), of None None] by blast
  have "openMatrix fopen f = Some (int nt, int n,
      \<lparr>avail = concat (map edge_string es) @ w, at_eof = (concat (map edge_string es) @ w = [])\<rparr>)"
    using header_scan [OF assms(4) n edges_start [OF assms(2) blank_start [OF assms(3)]]] assms(1)
    by (simp add: openMatrix_def graph_text_def)
  with m(1) have r: "draft_read_file fopen f = Some (Some (int nt, int n, m))" by (simp add: draft_read_file_def)
  have e: "agree n (raw_edge n m) (has_edge es)"
    using m(3) create_fits(2) [OF assms(5)] by (simp add: agree_def)
  with r draft_print_undefined [OF m(2)] show ?thesis by (intro exI [of _ m]) (auto simp: agree_def)
qed

theorem draft_matrix_uninitialised_witness:
  "\<exists>m. draft_read_file (\<lambda>_. Some (graph_text 1 2 sample_edges [CHR 0x0A])) ''g'' = Some (Some (1, 2, m)) \<and>
       draft_print_matrix m 2 = None"
proof -
  have "\<not> has_edge sample_edges 0 0" by (simp add: has_edge_def sample_edges_def)
  then have "\<exists>i<2. \<exists>j<2. \<not> has_edge sample_edges i j" by (intro exI [of _ 0] conjI) simp_all
  moreover have "blank [CHR 0x0A]" "sample_edges \<noteq> []" by (simp_all add: blank_def is_space_def sample_edges_def)
  ultimately show ?thesis
    using draft_matrix_uninitialised [of "\<lambda>_. Some (graph_text 1 2 sample_edges [CHR 0x0A])" "''g''" 1 2 sample_edges
      "[CHR 0x0A]"] sample_edges_wf by auto
qed

end
