(* ===== verification/Draft_Threads.thy ===== *)
theory Draft_Threads
  imports Thread_Closure Graph_File
begin

text \<open>
  The drafts \<^verbatim>\<open>wtc.thr.bitpack.c\<close>, a first version of the closure threads, and \<^verbatim>\<open>char_test.c\<close>, a try of the bit
  array. Both are written against an older \<^verbatim>\<open>bit_char.c\<close> whose \<^verbatim>\<open>bit_array_set\<close> takes the value to write as a third
  argument; the repository has only the later one, which writes 1. The older function is the parameter \<open>set3\<close>
  here, and \<open>assigns_bits\<close> says what the comments of \<^verbatim>\<open>char_test.c\<close> say of it.
\<close>

section \<open>The older bit array\<close>

type_synonym bit_setter = "bit_array \<Rightarrow> u32 \<Rightarrow> u32 \<Rightarrow> bit_array option"

definition assigns_bits :: "bit_setter \<Rightarrow> bool" where
  "assigns_bits set3 \<longleftrightarrow>
     (\<forall>m p v. (bit_room m \<le> unat p \<longrightarrow> set3 m p v = None) \<and>
        (unat p < bit_room m \<longrightarrow>
          (\<exists>m'. set3 m p v = Some m' \<and> length m' = length m \<and>
            (\<forall>q. unat q < bit_room m \<longrightarrow>
              bit_array_get m' q = (if q = p then Some (if v = 0 then 0 else 1) else bit_array_get m q)))))"

text \<open>A function that does so: the \<^verbatim>\<open>bit_array_set\<close> of the repository for 1, clearing the bit for 0.\<close>

definition assign_bit :: bit_setter where
  "assign_bit m p v =
     (if v \<noteq> 0 then bit_array_set m p
      else let q = unat p div 8
        in if q < length m then Some (m[q := m ! q AND NOT (push_bit (unat p mod 8) 1)]) else None)"

lemma byte_bit_clear: "r < 8 \<Longrightarrow> q < 8 \<Longrightarrow> bit (x AND NOT (push_bit r 1)) q \<longleftrightarrow> bit (x :: byte) q \<and> q \<noteq> r"
  by (auto simp: bit_and_iff bit_not_iff bit_push_bit_iff bit_exp_iff)

lemma clear_cell:
  assumes p: "unat p < bit_room m" and q: "unat q < bit_room m"
  shows "bit_array_get (m[unat p div 8 := m ! (unat p div 8) AND NOT (push_bit (unat p mod 8) 1)]) q =
    (if q = p then Some 0 else bit_array_get m q)" (is "bit_array_get ?m q = _")
proof -
  have i: "unat p div 8 < length m" "unat q div 8 < length m" using p q by (simp_all add: bit_room_def div_8_less)
  have same: "unat q div 8 = unat p div 8 \<Longrightarrow> unat q mod 8 = unat p mod 8 \<longleftrightarrow> q = p"
    using div_mod_8_eq [of "unat q" "unat p"] by (auto simp: word_unat_eq_iff)
  have "bit (?m ! (unat q div 8)) (unat q mod 8) \<longleftrightarrow> bit (m ! (unat q div 8)) (unat q mod 8) \<and> q \<noteq> p"
  proof (cases "unat q div 8 = unat p div 8")
    case True
    then show ?thesis using i byte_bit_clear [of "unat p mod 8" "unat q mod 8"] same by simp
  next
    case False
    then show ?thesis by auto
  qed
  then show ?thesis using q by (auto simp: get_cell bit_room_def)
qed

lemma assign_bit_assigns: "assigns_bits assign_bit"
  unfolding assigns_bits_def
proof (intro allI conjI impI)
  fix m :: bit_array and p v :: u32
  show "assign_bit m p v = None" if "bit_room m \<le> unat p"
    using that cell_out(2) [OF that] by (auto simp: assign_bit_def bit_room_def Let_def)
  assume p: "unat p < bit_room m"
  show "\<exists>m'. assign_bit m p v = Some m' \<and> length m' = length m \<and> (\<forall>q. unat q < bit_room m \<longrightarrow>
      bit_array_get m' q = (if q = p then Some (if v = 0 then 0 else 1) else bit_array_get m q))"
  proof (cases "v = 0")
    case True
    have "unat p div 8 < length m" using p by (simp add: bit_room_def div_8_less)
    then show ?thesis using clear_cell [OF p] True by (simp add: assign_bit_def Let_def)
  next
    case False
    obtain m' where m': "bit_array_set m p = Some m'" using bits.put_in [OF p] by blast
    then show ?thesis using False get_set_cell [OF m'] set_room [OF m'] by (simp add: assign_bit_def bit_room_def)
  qed
qed

text \<open>An array that 32-bit places reach is known from its bits, so there is only one such function on it.\<close>

lemma array_ext:
  assumes l: "length a = length b" and room: "bit_room a \<le> 2 ^ 32"
    and get: "\<And>p. unat p < bit_room a \<Longrightarrow> bit_array_get a p = bit_array_get b p"
  shows "a = b"
proof (rule nth_equalityI [OF l])
  fix i assume i: "i < length a"
  show "a ! i = b ! i"
  proof (rule bit_eqI)
    fix r assume "possible_bit TYPE(8 word) r"
    then have r: "r < 8" by simp
    then have in_a: "8 * i + r < bit_room a" using i by (simp add: bit_room_def)
    then have p: "unat (word_of_nat (8 * i + r) :: u32) = 8 * i + r"
      using room by (intro word_of_nat_unat) simp
    have "bit_room b = bit_room a" using l by (simp add: bit_room_def)
    with get [of "word_of_nat (8 * i + r)"] in_a get_cell [of "word_of_nat (8 * i + r)" a]
      get_cell [of "word_of_nat (8 * i + r)" b]
    show "bit (a ! i) r \<longleftrightarrow> bit (b ! i) r" using r unfolding p by (auto split: if_splits)
  qed
qed

lemma assigns_unique:
  assumes "assigns_bits set3" and "bit_room m \<le> 2 ^ 32"
  shows "set3 m p v = assign_bit m p v"
proof (cases "unat p < bit_room m")
  case True
  then obtain a b where a: "set3 m p v = Some a" "length a = length m" "assign_bit m p v = Some b" "length b = length m"
    and get: "\<And>q. unat q < bit_room m \<Longrightarrow> bit_array_get a q = bit_array_get b q"
    using assms(1) assign_bit_assigns unfolding assigns_bits_def by (metis (no_types, lifting))
  have "a = b" by (rule array_ext) (use a get assms(2) in \<open>simp_all add: bit_room_def\<close>)
  with a show ?thesis by simp
next
  case False
  then show ?thesis using assms(1) assign_bit_assigns unfolding assigns_bits_def by (metis not_less)
qed

section \<open>\<^verbatim>\<open>char_test.c\<close>\<close>

definition char_test :: "bit_setter \<Rightarrow> string option" where
  "char_test set3 =
     do { let ptr = bit_array_create 16;
          x \<leftarrow> bit_array_get ptr 3;
          ptr \<leftarrow> set3 ptr 3 1;
          ptr \<leftarrow> set3 ptr 2 1;
          ptr \<leftarrow> set3 ptr 1 1;
          ptr \<leftarrow> set3 ptr 2 0;
          ptr \<leftarrow> set3 ptr 14 1;
          y \<leftarrow> bit_array_get ptr 3;
          q \<leftarrow> bit_array_get ptr 2;
          m \<leftarrow> bit_array_get ptr 0;
          Some (''bit3 before: '' @ show_int (sint x) @ [CHR 0x0A] @ ''bit3 bit2 bit0 after: '' @ show_int (sint y) @
            ''  '' @ show_int (sint q) @ ''  '' @ show_int (sint m) @ [CHR 0x0A]) }"

section \<open>Reading the graph\<close>

text \<open>
  Unlike \<^verbatim>\<open>functions.c\<close> it does not check that the file can be opened or that the vertices of an edge exist. The
  inner \<^term>\<open>None\<close> is undefined, the outer one a loop that does not end.
\<close>

definition pack_store :: "bit_setter \<Rightarrow> int \<Rightarrow> int \<Rightarrow> int \<Rightarrow> bit_array \<Rightarrow> bit_array option" where
  "pack_store set3 n a b m =
     (if index_defined n a b then set3 m (word_of_int ((a - 1) * n + (b - 1))) 1 else None)"

partial_function (option) pack_loop ::
    "bit_setter \<Rightarrow> int \<Rightarrow> bit_array \<Rightarrow> int \<Rightarrow> int \<Rightarrow> stream \<Rightarrow> bit_array option option" where
  "pack_loop set3 n m a b st =
     (if at_eof st then Some (Some m)
      else case scan_pair a b st of
        None \<Rightarrow> Some None
      | Some (a', b', st') \<Rightarrow>
          (case pack_store set3 n a' b' m of
             None \<Rightarrow> Some None
           | Some m' \<Rightarrow> pack_loop set3 n m' a' b' st'))"

declare pack_loop.simps [code]

definition pack_read ::
    "bit_setter \<Rightarrow> (string \<Rightarrow> string option) \<Rightarrow> string \<Rightarrow> (int \<times> int \<times> bit_array) option option" where
  "pack_read set3 fopen filename =
     (case fopen filename of
        None \<Rightarrow> Some None
      | Some text \<Rightarrow>
          let (r1, st1) = scan_int \<lparr>avail = text, at_eof = False\<rparr>;
              (r2, st2) = scan_int st1;
              nt = scanned_or_zero r1; n = scanned_or_zero r2
          in if r1 = Unrepresentable \<or> r2 = Unrepresentable \<or> \<not> in_int (n * n) then Some None
             else map_option (map_option (\<lambda>m. (nt, n, m)))
               (pack_loop set3 n (bit_array_create (word_of_int (n * n))) 0 0 st2))"

section \<open>The threads\<close>

text \<open>
  \<^verbatim>\<open>transitive_closure\<close>: unlike \<^verbatim>\<open>wtc_thr.c\<close> it computes the new value of the cell, with the short cut of \<^verbatim>\<open>||\<close> and
  \<^verbatim>\<open>&&\<close>, and writes it in every case. The main thread and the barriers are those of \<^verbatim>\<open>wtc_thr.c\<close>, call by call, so
  their steps are used again.
\<close>

definition pack_update :: "bit_setter \<Rightarrow> thr_cfg \<Rightarrow> nat \<Rightarrow> nat \<Rightarrow> u32 \<Rightarrow> nat \<Rightarrow> bit_array \<Rightarrow> bit_array option" where
  "pack_update set3 c k i ik j m =
     (let n = number_of_nodes c
      in do { ij \<leftarrow> bit_array_get m (cell n i j);
              result \<leftarrow> (if ij \<noteq> 0 then Some 1
                         else if ik = 0 then Some 0
                         else do { kj \<leftarrow> bit_array_get m (cell n k j); Some (if kj \<noteq> 0 then 1 else 0) });
              set3 m (cell n i j) result })"

definition pack_worker_step :: "bit_setter \<Rightarrow> thr_cfg \<Rightarrow> nat \<Rightarrow> thr_state \<Rightarrow> thr_state option" where
  "pack_worker_step set3 c t s =
     (let n = number_of_nodes c; start = t * rows_per_thread c; stop = start + rows_per_thread c
      in case t_pc s t of
        WStart \<Rightarrow> Some (goto t WTest (s\<lparr>t_input := False\<rparr>))
      | WTest \<Rightarrow> Some (goto t (if t_k s < n then WRow start else WExit) s)
      | WRow i \<Rightarrow>
          if i < stop
          then (case bit_array_get (t_matrix s) (cell n i (t_k s)) of
                  None \<Rightarrow> Some (goto t WFault s)
                | Some ik \<Rightarrow> Some (goto t (WCol i ik 0) s))
          else Some (goto t WBarrier s)
      | WCol i ik j \<Rightarrow>
          if j < n
          then (if t_lock s = None then Some (goto t (WLocked i ik j) (s\<lparr>t_lock := Some t\<rparr>)) else None)
          else Some (goto t (WRow (i + 1)) s)
      | WLocked i ik j \<Rightarrow>
          (case pack_update set3 c (t_k s) i ik j (t_matrix s) of
             None \<Rightarrow> Some (goto t WFault s)
           | Some m \<Rightarrow> Some (goto t (WUnlock i ik j) (s\<lparr>t_matrix := m\<rparr>)))
      | WUnlock i ik j \<Rightarrow> Some (goto t (WCol i ik (j + 1)) (s\<lparr>t_lock := None\<rparr>))
      | WPast \<Rightarrow> Some (goto t WKBarrier s)
      | _ \<Rightarrow> None)"

inductive pack_step :: "bit_setter \<Rightarrow> thr_cfg \<Rightarrow> thr_state \<Rightarrow> thr_state \<Rightarrow> bool" for set3 c where
  pack_worker: "t < number_of_threads c \<Longrightarrow> pack_worker_step set3 c t s = Some s' \<Longrightarrow> pack_step set3 c s s'"
| pack_main: "main_step c s = Some s' \<Longrightarrow> pack_step set3 c s s'"
| pack_barrier: "barrier_step c s = Some s' \<Longrightarrow> pack_step set3 c s s'"

section \<open>The same states as \<^verbatim>\<open>wtc_thr.c\<close>\<close>

text \<open>Writing a 1 over a 1 or a 0 over a 0 changes nothing.\<close>

lemma assign_same:
  assumes "bit_array_get m p = Some v" and "bit_room m \<le> 2 ^ 32"
  shows "assign_bit m p v = Some m"
proof -
  have p: "unat p < bit_room m" using assms(1) bits.get_out [of m p] by fastforce
  have v: "v = 0 \<or> v = 1" using bits.get_in [OF p] assms(1) by auto
  obtain m' where m': "assign_bit m p v = Some m'" "length m' = length m"
    and get: "\<And>q. unat q < bit_room m \<Longrightarrow> bit_array_get m' q = (if q = p then Some (if v = 0 then 0 else 1) else bit_array_get m q)"
    using assign_bit_assigns p unfolding assigns_bits_def by blast
  have "m' = m" by (rule array_ext) (use m' get assms v in \<open>auto simp: bit_room_def\<close>)
  then show ?thesis using m' by simp
qed

lemma pack_update_eq:
  assumes "assigns_bits set3" and room: "bit_room m \<le> 2 ^ 32" and fit: "bit_fits (number_of_nodes c) m"
    and ij: "i < number_of_nodes c" "j < number_of_nodes c" and k: "k < number_of_nodes c"
  shows "pack_update set3 c k i ik j m = update_cell c k i ik j m"
proof -
  let ?n = "number_of_nodes c"
  note set3 = assigns_unique [OF assms(1) room]
  have g: "bit_array_get m (cell ?n i j) = Some (if bit_edge ?n m i j then 1 else 0)"
    "bit_array_get m (cell ?n k j) = Some (if bit_edge ?n m k j then 1 else 0)"
    using get_bit_edge [OF fit ij] get_bit_edge [OF fit k ij(2)] by simp_all
  have "assign_bit m (cell ?n i j) 1 = bit_array_set m (cell ?n i j)" by (simp add: assign_bit_def)
  then show ?thesis
    using g assign_same [OF g(1) room] by (auto simp: pack_update_def update_cell_def set3 Let_def)
qed

lemma pack_worker_eq:
  assumes "assigns_bits set3" and "bit_room (t_matrix s) \<le> 2 ^ 32" and inv: "thr_inv c E s" and t: "t < number_of_threads c"
  shows "pack_worker_step set3 c t s = worker_step c t s"
proof (cases "t_pc s t")
  case (WLocked i ik j)
  have "worker_ok c E (t_k s) t (t_pc s t)"
    using inv t WLocked by (cases "t_main s") (force simp: thr_inv_def working_def turning_def)+
  then have "col_ok c E (t_k s) t i ik" "j < number_of_nodes c" using WLocked by simp_all
  moreover from this(1) have "i < number_of_nodes c" "t_k s < number_of_nodes c" using own_rows(2) [OF t] by (auto simp: col_ok_def)
  moreover have "bit_fits (number_of_nodes c) (t_matrix s)" using inv by (simp add: thr_inv_def)
  ultimately have "pack_update set3 c (t_k s) i ik j (t_matrix s) = update_cell c (t_k s) i ik j (t_matrix s)"
    using pack_update_eq [OF assms(1,2)] by blast
  then show ?thesis using WLocked by (simp add: pack_worker_step_def worker_step_def)
qed (simp_all add: pack_worker_step_def worker_step_def Let_def)

lemma pack_step_eq:
  assumes "assigns_bits set3" and "bit_room (t_matrix s) \<le> 2 ^ 32" and "thr_inv c E s"
  shows "pack_step set3 c s s' \<longleftrightarrow> thr_step c s s'"
  using pack_worker_eq [OF assms] by (auto simp: pack_step.simps thr_step.simps)

lemma thr_room:
  assumes "thr_step c s s'"
  shows "bit_room (t_matrix s') = bit_room (t_matrix s)"
  using assms
proof cases
  case (worker t)
  then show ?thesis
    by (cases "t_pc s t") (auto simp: worker_step_def Let_def update_cell_def set_room split: if_splits option.splits)
next
  case main
  then show ?thesis by (cases "t_main s") (auto simp: main_step_def split: if_splits)
next
  case barrier
  then show ?thesis by (cases "t_main s") (auto simp: barrier_step_def send_all_def split: if_splits)
qed

text \<open>Room for the matrix and little more: 32-bit places reach all of it.\<close>

lemma pack_reachable:
  assumes "assigns_bits set3" and fit: "bit_fits (number_of_nodes c) m" and room: "bit_room m \<le> 2 ^ 32"
  shows "(pack_step set3 c)\<^sup>*\<^sup>* (thr_init m) s \<longleftrightarrow> (thr_step c)\<^sup>*\<^sup>* (thr_init m) s"
proof -
  let ?I = "\<lambda>s. thr_inv c (bit_edge (number_of_nodes c) m) s \<and> bit_room (t_matrix s) \<le> 2 ^ 32"
  have I: "?I s" if "(thr_step c)\<^sup>*\<^sup>* (thr_init m) s" for s
  proof -
    have "bit_room (t_matrix s) \<le> 2 ^ 32" using that
      by (rule rtranclp_invariant [where I = "\<lambda>s. bit_room (t_matrix s) \<le> 2 ^ 32"])
        (use room thr_room in \<open>auto simp: thr_init_def\<close>)
    with thr_inv_reachable [OF that fit] show ?thesis by blast
  qed
  show ?thesis
  proof
    assume "(pack_step set3 c)\<^sup>*\<^sup>* (thr_init m) s"
    then show "(thr_step c)\<^sup>*\<^sup>* (thr_init m) s"
    proof (induction rule: rtranclp_induct)
      case (step u v)
      then show ?case using pack_step_eq [OF assms(1)] I [OF step.IH] by (meson rtranclp.rtrancl_into_rtrancl)
    qed simp
  next
    assume "(thr_step c)\<^sup>*\<^sup>* (thr_init m) s"
    then show "(pack_step set3 c)\<^sup>*\<^sup>* (thr_init m) s"
    proof (induction rule: rtranclp_induct)
      case (step u v)
      then show ?case using pack_step_eq [OF assms(1)] I [OF step.hyps(1)] by (meson rtranclp.rtrancl_into_rtrancl)
    qed simp
  qed
qed

section \<open>Reading a well-formed graph\<close>

lemma pack_store_pair: "pack_store assign_bit = store_pair"
  by (simp add: fun_eq_iff pack_store_def store_pair_def assign_bit_def)

interpretation pack_reader: edge_reader bit_edge bit_connect bit_fits
    "\<lambda>n m a b st. pack_loop assign_bit (int n) m a b st" "\<lambda>v. v" "\<lambda>n m. Some (Some m)"
proof unfold_locales
  fix n i j :: nat and m m' and st st' :: stream and a b :: int
  assume n: "n * n < 2 ^ 31" and ij: "i < n" "j < n" and m': "bit_connect n i j m = Some m'" and st: "\<not> at_eof st"
  note s = store_pair_connect [OF n ij, folded pack_store_pair]
  {
    assume "\<forall>x y. scan_pair x y st = Some (int (i + 1), int (j + 1), st')"
    then show "pack_loop assign_bit (int n) m a b st = pack_loop assign_bit (int n) m' (int (i + 1)) (int (j + 1)) st'"
      using st m' s by (subst pack_loop.simps) simp
  next
    assume "\<forall>x y. scan_pair x y st = Some (x, y, st')"
    then show "pack_loop assign_bit (int n) m (int (i + 1)) (int (j + 1)) st =
        pack_loop assign_bit (int n) m' (int (i + 1)) (int (j + 1)) st'"
      using st m' s by (subst pack_loop.simps) simp
  }
qed (simp add: pack_loop.simps)

lemma pack_loop_any:
  assumes law: "assigns_bits set3" and "pack_loop assign_bit n m a b st = Some r" and "bit_room m \<le> 2 ^ 32"
  shows "pack_loop set3 n m a b st = Some r \<and> (\<forall>m'. r = Some m' \<longrightarrow> bit_room m' = bit_room m)"
proof -
  let ?P = "\<lambda>s3 n m a b st r. s3 = assign_bit \<longrightarrow> bit_room m \<le> 2 ^ 32 \<longrightarrow>
    pack_loop set3 n m a b st = Some r \<and> (\<forall>m'. r = Some m' \<longrightarrow> bit_room m' = bit_room m)"
  have "?P assign_bit n m a b st r"
  proof (rule pack_loop.raw_induct [where P = ?P, OF _ assms(2)])
    fix loop :: "bit_setter \<Rightarrow> int \<Rightarrow> bit_array \<Rightarrow> int \<Rightarrow> int \<Rightarrow> stream \<Rightarrow> bit_array option option"
      and s3 n m a b st r
    assume IH: "\<And>s3 n m a b st r. loop s3 n m a b st = Some r \<Longrightarrow> ?P s3 n m a b st r"
      and eq: "(if at_eof st then Some (Some m)
        else case scan_pair a b st of None \<Rightarrow> Some None
          | Some (a', b', st') \<Rightarrow> (case pack_store s3 n a' b' m of None \<Rightarrow> Some None
              | Some m' \<Rightarrow> loop s3 n m' a' b' st')) = Some r"
    show "?P s3 n m a b st r"
    proof (intro impI)
      assume s3: "s3 = assign_bit" and room: "bit_room m \<le> 2 ^ 32"
      have same: "pack_store set3 n x y m = pack_store assign_bit n x y m" for x y
        using assigns_unique [OF law room] by (simp add: pack_store_def)
      have keeps: "bit_room m' = bit_room m" if "pack_store assign_bit n x y m = Some m'" for x y m'
        using that set_room by (auto simp: pack_store_def assign_bit_def split: if_splits)
      show "pack_loop set3 n m a b st = Some r \<and> (\<forall>m'. r = Some m' \<longrightarrow> bit_room m' = bit_room m)"
        using eq s3 same keeps IH room
        by (subst pack_loop.simps) (auto split: if_splits option.splits)
    qed
  qed
  then show ?thesis using assms(3) by blast
qed

lemma created_room: "n * n < 2 ^ 31 \<Longrightarrow> bit_room (bit_array_create (word_of_nat (n * n))) \<le> 2 ^ 32"
  by (simp add: bit_room_def length_create word_of_nat_unat del: of_nat_mult)

lemma pack_graph_read:
  assumes law: "assigns_bits set3" and "fopen f = Some (graph_text nt n es w)" and "\<forall>e \<in> set es. edge_wf n e" and "blank w"
    and "nt < 2 ^ 31" and "n * n < 2 ^ 31" and "es \<noteq> [] \<or> w = []"
  shows "\<exists>m. pack_read set3 fopen f = Some (Some (int nt, int n, m)) \<and> bit_fits n m \<and> bit_room m \<le> 2 ^ 32 \<and>
    agree n (bit_edge n m) (has_edge es)"
proof -
  let ?m0 = "bit_array_create (word_of_nat (n * n))"
  have "n < 2 ^ 31" using assms(6) by (cases n) auto
  moreover have "in_int (int n * int n)" using assms(6) by (simp add: in_int_def flip: of_nat_mult)
  ultimately have n: "n < 2 ^ 31" "in_int (int n * int n)" .
  obtain m where m: "pack_loop assign_bit (int n) ?m0 0 0
        \<lparr>avail = concat (map edge_string es) @ w, at_eof = (concat (map edge_string es) @ w = [])\<rparr> = Some (Some m)"
    "bit_fits n m" "agree n (bit_edge n m) (\<lambda>i j. bit_edge n ?m0 i j \<or> has_edge es i j)"
    using pack_reader.whole_file [OF assms(3,4,6) fits_create [OF assms(6)] assms(7), of 0 0] by blast
  note any = pack_loop_any [OF law m(1) created_room [OF assms(6)]]
  have "pack_read set3 fopen f = Some (Some (int nt, int n, m))"
    using header_scan [OF assms(5) n(1) edges_start [OF assms(3) blank_start [OF assms(4)]]] assms(2) n(2)
      any
    by (simp add: pack_read_def graph_text_def scanned_or_zero_def)
  moreover have "agree n (bit_edge n m) (has_edge es)"
    using m(3) created_no_edges [OF assms(6)] by (auto simp: agree_def)
  moreover have "bit_room m \<le> 2 ^ 32" using any created_room [OF assms(6)] by simp
  ultimately show ?thesis using m(2) by blast
qed

section \<open>Properties\<close>

text \<open>
  With any older \<^verbatim>\<open>bit_array_set\<close> that writes the bit it is told to, \<^verbatim>\<open>char_test.c\<close> shows the bits that its
  comments expect: bit 3 is set, bit 2 is cleared again and bit 0 was never touched.
\<close>

theorem char_test_output:
  assumes "assigns_bits set3"
  shows "char_test set3 = Some (''bit3 before: 0'' @ [CHR 0x0A] @ ''bit3 bit2 bit0 after: 1  0  0'' @ [CHR 0x0A])"
proof -
  note any = assigns_unique [OF assms]
  have "set3 [0, 0, 0] 3 1 = Some [8, 0, 0]" "set3 [8, 0, 0] 2 1 = Some [12, 0, 0]" "set3 [12, 0, 0] 1 1 = Some [14, 0, 0]"
    "set3 [14, 0, 0] 2 0 = Some [10, 0, 0]" "set3 [10, 0, 0] 14 1 = Some [10, 64, 0]"
    by (subst any; (simp add: bit_room_def)?; code_simp)+
  moreover have "bit_array_create 16 = [0, 0, 0]" "bit_array_get [0, 0, 0] 3 = Some 0" "bit_array_get [10, 64, 0] 3 = Some 1"
    "bit_array_get [10, 64, 0] 2 = Some 0" "bit_array_get [10, 64, 0] 0 = Some 0"
    "show_int (sint (0 :: u32)) = ''0''" "show_int (sint (1 :: u32)) = ''1''" by code_simp+
  ultimately show ?thesis by (simp add: char_test_def)
qed


section \<open>Witnesses\<close>

theorem char_test_output_witness: "char_test assign_bit \<noteq> None"
  using char_test_output [OF assign_bit_assigns] by simp


end
