(* ===== verification/Proc_Rerun.thy ===== *)
theory Proc_Rerun
  imports Proc_File
begin

text \<open>
  The shared memory object \<^verbatim>\<open>/myshm\<close> of \<^verbatim>\<open>wtc_btproc.c\<close> across runs. It has a name, so it outlives a run that does
  not reach \<^verbatim>\<open>shm_unlink\<close>, and the next one finds it as it was left. The processes of the interrupted run are taken
  to be gone when the next one starts.
\<close>

section \<open>The object\<close>

text \<open>Its contents in words of an \<^verbatim>\<open>int\<close>; \<^term>\<open>None\<close> when there is no object of the name.\<close>

type_synonym shm_object = "int list option"

definition shm_open :: "shm_object \<Rightarrow> int list" where
  "shm_open obj = (case obj of None \<Rightarrow> [] | Some c \<Rightarrow> c)"

definition ftruncate :: "nat \<Rightarrow> int list \<Rightarrow> int list" where
  "ftruncate sz c = take (sz div 4) c @ replicate (sz div 4 - length c) 0"

definition allocShm :: "nat \<Rightarrow> shm_object \<Rightarrow> int list" where
  "allocShm sz obj = ftruncate sz (shm_open obj)"

definition bt_segment :: "nat \<Rightarrow> nat \<Rightarrow> shm_object \<Rightarrow> int \<Rightarrow> int_matrix" where
  "bt_segment sem_t barrier_t obj n = take (nat n * nat n) (allocShm (bag_size sem_t barrier_t (nat n)) obj)"

text \<open>
  What a run that has come to the state \<open>s\<close> leaves behind: nothing when the parent is done, which is after the
  unlinking, else the matrix and the words behind it.
\<close>

definition object_after :: "bag_state \<Rightarrow> int list \<Rightarrow> shm_object" where
  "object_after s rest = (if b_parent s = QDone then None else Some (b_matrix s @ rest))"

lemma bag_size_room: "n * n \<le> bag_size sem_t barrier_t n div 4"
proof -
  have "4 * (n * n) \<le> bag_size sem_t barrier_t n" by (simp add: bag_size_def)
  then show ?thesis by linarith
qed

lemma segment_new: "bt_segment sem_t barrier_t None (int n) = replicate (n * n) 0"
  using bag_size_room [of n sem_t barrier_t] by (simp add: bt_segment_def allocShm_def ftruncate_def shm_open_def min_def)

lemma segment_left:
  assumes "length (b_matrix s) = n * n" and "b_parent s \<noteq> QDone"
  shows "bt_segment sem_t barrier_t (object_after s rest) (int n) = b_matrix s"
  using bag_size_room [of n sem_t barrier_t] assms
  by (simp add: bt_segment_def allocShm_def ftruncate_def shm_open_def object_after_def)

section \<open>One run\<close>

lemma ints_print_closure:
  assumes "int_fits n a" and "zero_one a" and "agree n (int_edge n a) (path_closure n (int_edge n m))"
    and "agree n (int_edge n m) E"
  shows "print_matrix2 a (int n) = Some (matrix_text n (path_closure n E))"
proof -
  have "agree n (int_edge n a) (path_closure n E)" using assms(3) path_closure_cong [OF assms(4)] by simp
  from matrix_text_cong [OF this] matrix2_printed [OF assms(1,2)] show ?thesis by simp
qed

text \<open>Whatever the object held before, the run prints the closure of the graph that reading the file leaves in it.\<close>

lemma bag_prints:
  assumes r: "(bag_step n T)\<^sup>*\<^sup>* (initShm n m) s" and d: "b_parent s = QDone" and m: "int_fits n m" "zero_one m"
    and T: "0 < T" and e: "agree n (int_edge n m) E"
  shows "print_matrix2 (b_matrix s) (int n) = Some (matrix_text n (path_closure n E))"
proof -
  have i: "bag_inv n T (int_edge n m) s" using bag_sync_reachable [OF r m(1) T] by (simp add: bag_sync_def)
  then have "bag_working n T (int_edge n m) n s" and fit: "int_fits n (b_matrix s)"
    using d by (simp_all add: bag_inv_def bag_fits_def)
  then have "agree n (bag_graph (int_edge n m) n) (int_edge n (b_matrix s))" by (simp add: bag_working_def)
  then have "agree n (int_edge n (b_matrix s)) (path_closure n (int_edge n m))"
    using wrounds_closure [of n everywhere] by (simp add: agree_def bag_graph_def covers_def everywhere_def)
  from ints_print_closure [OF fit conjunct1 [OF zero_one_bag [OF r m(2)]] this e] show ?thesis .
qed

lemma proc_input_object:
  assumes "fopen f = Some (graph_text nt n es w)" and "\<forall>e \<in> set es. edge_wf n e" and "blank w"
    and "nt < 2 ^ 31" and "n * n < 2 ^ 31" and "es \<noteq> [] \<or> w = []"
    and seg: "length (segment (int n)) = n * n" "zero_one (segment (int n))"
  shows "\<exists>m. proc_input fopen f segment = Some (Some (int nt, int n, m)) \<and> length m = n * n \<and> int_fits n m \<and>
    zero_one m \<and> agree n (int_edge n m) (\<lambda>i j. int_edge n (segment (int n)) i j \<or> has_edge es i j)"
proof -
  obtain m where m: "proc_input fopen f segment = Some (Some (int nt, int n, m))" "int_fits n m"
    "agree n (int_edge n m) (\<lambda>i j. int_edge n (segment (int n)) i j \<or> has_edge es i j)"
    using proc_input_reads [of fopen f nt n es w segment] assms by (auto simp: int_fits_def)
  with proc_input_same_kind [OF m(1)] seg show ?thesis by (simp add: same_kind_def)
qed

section \<open>At any moment of a run\<close>

text \<open>In every reachable state the matrix is between the graph of the file and its closure.\<close>

lemma bag_between:
  assumes r: "(bag_step n T)\<^sup>*\<^sup>* (initShm n m) s" and m: "int_fits n m" and T: "0 < T" and ij: "i < n" "j < n"
  shows "int_edge n m i j \<Longrightarrow> int_edge n (b_matrix s) i j"
    and "int_edge n (b_matrix s) i j \<Longrightarrow> path_closure n (int_edge n m) i j"
proof -
  let ?E = "int_edge n m" and ?F = "int_edge n (b_matrix s)"
  have i: "bag_inv n T ?E s" using bag_sync_reachable [OF r m T] by (simp add: bag_sync_def)
  have agreed: "(?E i j \<longrightarrow> ?F i j) \<and> (?F i j \<longrightarrow> path_closure n ?E i j)"
    if "agree n (bag_graph ?E k) ?F" "k \<le> n" for k
    using that wrounds_mono [of ?E i j everywhere k] wrounds_paths [OF that(2) ij, of everywhere ?E] ij
    by (simp add: agree_def bag_graph_def)
  have working: "(?E i j \<longrightarrow> ?F i j) \<and> (?F i j \<longrightarrow> path_closure n ?E i j)" if "bag_working n T ?E k s" for k
  proof (cases "k < n")
    case True
    with that have "in_round n everywhere k (wrounds everywhere k ?E) (bag_done T s) ?F"
      by (simp add: bag_working_def bag_graph_def)
    from in_round_between [OF this True ij] show ?thesis by blast
  qed (use that agreed in \<open>auto simp: bag_working_def\<close>)
  have turning: "(?E i j \<longrightarrow> ?F i j) \<and> (?F i j \<longrightarrow> path_closure n ?E i j)" if "bag_turning n T ?E k s" for k
    using that agreed [of "Suc k"] by (simp add: bag_turning_def)
  have "(?E i j \<longrightarrow> ?F i j) \<and> (?F i j \<longrightarrow> path_closure n ?E i j)"
    using i working turning by (cases "b_parent s") (auto simp: bag_inv_def)
  then show "?E i j \<Longrightarrow> ?F i j" "?F i j \<Longrightarrow> path_closure n ?E i j" by blast+
qed

text \<open>The graph that a second run prints the closure of, when the first has come to the state \<open>s1\<close>.\<close>

lemma rerun_closure:
  assumes r: "(bag_step n T)\<^sup>*\<^sup>* (initShm n m1) s1" and m: "length m1 = n * n" "zero_one m1" and T: "0 < T"
    and e: "agree n (int_edge n m1) E1"
  shows "length (bt_segment sem_t barrier_t (object_after s1 rest) (int n)) = n * n \<and>
    zero_one (bt_segment sem_t barrier_t (object_after s1 rest) (int n)) \<and>
    path_closure n (\<lambda>i j. int_edge n (bt_segment sem_t barrier_t (object_after s1 rest) (int n)) i j \<or> G i j) =
    path_closure n (\<lambda>i j. b_parent s1 \<noteq> QDone \<and> E1 i j \<or> G i j)"
proof (cases "b_parent s1 = QDone")
  case True
  then have old: "bt_segment sem_t barrier_t (object_after s1 rest) (int n) = replicate (n * n) 0"
    using segment_new by (simp add: object_after_def)
  have "\<not> int_edge n (replicate (n * n) 0) i j" if "i < n" "j < n" for i j
    using index_less [OF that] by (simp add: int_edge_def)
  then have "path_closure n (\<lambda>i j. int_edge n (replicate (n * n) 0) i j \<or> G i j) = path_closure n G"
    by (intro path_closure_cong) (simp add: agree_def)
  then show ?thesis using True by (simp add: old)
next
  case False
  have z: "length (b_matrix s1) = n * n" "zero_one (b_matrix s1)" using zero_one_bag [OF r m(2)] m(1) by simp_all
  have "path_closure n (\<lambda>i j. int_edge n (b_matrix s1) i j \<or> G i j) = path_closure n (\<lambda>i j. int_edge n m1 i j \<or> G i j)"
    using bag_between [OF r _ T] m(1) by (intro path_closure_between) (simp_all add: int_fits_def)
  also have "\<dots> = path_closure n (\<lambda>i j. E1 i j \<or> G i j)"
    using e by (intro path_closure_cong) (simp add: agree_def)
  finally show ?thesis using segment_left [OF z(1) False] z False by simp
qed

section \<open>Property\<close>


section \<open>Witness\<close>

text \<open>The first file has the edge \<open>1 \<rightarrow> 2\<close>, the second the edge \<open>2 \<rightarrow> 1\<close>; neither has a cycle.\<close>

definition two_files :: "string \<Rightarrow> string option" where
  "two_files f = Some (graph_text 3 2 (if f = ''a'' then [([CHR 0x0A], 1, '' '', 2)] else [([CHR 0x0A], 2, '' '', 1)]) [])"


end
