(* ===== verification/Wtc_Output.thy ===== *)
theory Wtc_Output
  imports Wtc Proc_Rerun
begin

text \<open>
  What options 1 and 3 of \<^verbatim>\<open>wtc\<close> write on their standard output. \<^verbatim>\<open>main\<close> prints a heading before the processes are
  forked. On a terminal it is written at once; in a file or a pipe it stays in the buffer of the stream, of which
  \<^verbatim>\<open>fork\<close> gives every child a copy, and a child that returns from \<^verbatim>\<open>main\<close> before the parent kills it writes its copy.
\<close>

section \<open>Buffered output of forked processes\<close>

text \<open>
  A state of the program, the children that have exited, what has been written, and whether the parent has
  exited. \<open>returned s x\<close>: child \<open>x\<close> is on its way out of \<^verbatim>\<open>main\<close>; \<open>result s\<close>: what the parent has printed when it is.
\<close>

record 's out_state =
  core :: 's
  exited :: "nat set"
  written :: string
  parent_exited :: bool

definition out_init :: "bool \<Rightarrow> string \<Rightarrow> 's \<Rightarrow> 's out_state" where
  "out_init tty text s = \<lparr>core = s, exited = {}, written = (if tty then text else []), parent_exited = False\<rparr>"

definition out_buffer :: "bool \<Rightarrow> string \<Rightarrow> string" where
  "out_buffer tty text = (if tty then [] else text)"

inductive out_step ::
    "('s \<Rightarrow> 's \<Rightarrow> bool) \<Rightarrow> ('s \<Rightarrow> nat \<Rightarrow> bool) \<Rightarrow> ('s \<Rightarrow> string option) \<Rightarrow> string \<Rightarrow> 's out_state \<Rightarrow> 's out_state \<Rightarrow> bool"
  for step returned result buf where
  runs_on: "step (core w) s' \<Longrightarrow> out_step step returned result buf w (w\<lparr>core := s'\<rparr>)"
| child_exits: "returned (core w) x \<Longrightarrow> x \<notin> exited w \<Longrightarrow>
    out_step step returned result buf w (w\<lparr>exited := insert x (exited w), written := written w @ buf\<rparr>)"
| parent_exits: "result (core w) = Some t \<Longrightarrow> \<not> parent_exited w \<Longrightarrow>
    out_step step returned result buf w (w\<lparr>written := written w @ buf @ t, parent_exited := True\<rparr>)"

lemma out_runs:
  assumes "step\<^sup>*\<^sup>* (core w) s'"
  shows "(out_step step returned result buf)\<^sup>*\<^sup>* w (w\<lparr>core := s'\<rparr>)"
  using assms
proof (induction rule: rtranclp_induct)
  case (step u v)
  from runs_on [where w = "w\<lparr>core := u\<rparr>"] step.hyps(2)
  have "out_step step returned result buf (w\<lparr>core := u\<rparr>) (w\<lparr>core := v\<rparr>)" by fastforce
  with step.IH show ?case by (rule rtranclp.rtrancl_into_rtrancl)
qed simp

lemma replicate_snoc: "concat (replicate (Suc k) buf) = concat (replicate k buf) @ buf"
  by (simp flip: replicate_append_same)

text \<open>Where the first \<open>j\<close> children are on their way out, each of them can exit.\<close>

lemma children_exit:
  assumes "\<forall>x<j. returned (core w) x" and "exited w = {}"
  shows "(out_step step returned result buf)\<^sup>*\<^sup>* w
    (w\<lparr>exited := {..<j}, written := written w @ concat (replicate j buf)\<rparr>)"
  using assms(1)
proof (induction j)
  case 0
  have "w\<lparr>exited := {..<0}, written := written w @ concat (replicate 0 buf)\<rparr> = w" using assms(2) by simp
  then show ?case by simp
next
  case (Suc j)
  let ?w = "w\<lparr>exited := {..<j}, written := written w @ concat (replicate j buf)\<rparr>"
  have "out_step step returned result buf ?w
      (?w\<lparr>exited := insert j (exited ?w), written := written ?w @ buf\<rparr>)"
    using Suc.prems by (intro child_exits) auto
  then have "out_step step returned result buf ?w
      (w\<lparr>exited := {..<Suc j}, written := written w @ concat (replicate (Suc j) buf)\<rparr>)"
    by (simp add: lessThan_Suc replicate_snoc del: replicate.simps)
  with Suc show ?case by (auto intro: rtranclp.rtrancl_into_rtrancl)
qed

lemma copies_possible:
  assumes "step\<^sup>*\<^sup>* s s1" and "\<forall>x<j. returned s1 x" and "step\<^sup>*\<^sup>* s1 s2" and "result s2 = Some t" and "tty \<longrightarrow> j = 0"
  shows "\<exists>u. (out_step step returned result (out_buffer tty text))\<^sup>*\<^sup>* (out_init tty text s) u \<and>
    core u = s2 \<and> parent_exited u \<and> written u = concat (replicate (Suc j) text) @ t"
proof -
  let ?st = "out_step step returned result (out_buffer tty text)" and ?w = "out_init tty text s"
  let ?w1 = "?w\<lparr>core := s1\<rparr>" and ?pre = "(if tty then text else []) @ concat (replicate j (out_buffer tty text))"
  have "?st\<^sup>*\<^sup>* ?w ?w1" using assms(1) by (intro out_runs) (simp add: out_init_def)
  moreover have "?st\<^sup>*\<^sup>* ?w1 (?w1\<lparr>exited := {..<j}, written := ?pre\<rparr>)"
    using children_exit [of j returned ?w1] assms(2) by (simp add: out_init_def)
  moreover have "?st\<^sup>*\<^sup>* (?w1\<lparr>exited := {..<j}, written := ?pre\<rparr>) (?w1\<lparr>exited := {..<j}, written := ?pre, core := s2\<rparr>)"
    using assms(3) by (intro out_runs) simp
  moreover have "?st (?w1\<lparr>exited := {..<j}, written := ?pre, core := s2\<rparr>)
      (?w1\<lparr>exited := {..<j}, core := s2, written := ?pre @ out_buffer tty text @ t, parent_exited := True\<rparr>)"
    using parent_exits [of result "?w1\<lparr>exited := {..<j}, written := ?pre, core := s2\<rparr>" t] assms(4)
    by (simp add: out_init_def)
  moreover have "?pre @ out_buffer tty text @ t = concat (replicate (Suc j) text) @ t"
    using assms(5) by (auto simp: out_buffer_def replicate_snoc simp del: replicate.simps)
  ultimately show ?thesis
    by (intro exI [of _ "?w1\<lparr>exited := {..<j}, core := s2, written := ?pre @ out_buffer tty text @ t, parent_exited := True\<rparr>"])
      (auto intro: rtranclp_trans rtranclp.rtrancl_into_rtrancl)
qed

lemma core_reachable:
  assumes "(out_step step returned result buf)\<^sup>*\<^sup>* w w'"
  shows "step\<^sup>*\<^sup>* (core w) (core w')"
  using assms
  by (induction rule: rtranclp_induct) (auto elim!: out_step.cases intro: rtranclp.rtrancl_into_rtrancl)

text \<open>
  What the text rests on: children return only as long as the parent is not done, the exit of the parent is final, and
  \<open>done\<close> is not reached after it.
\<close>

locale forked_output =
  fixes step :: "'s \<Rightarrow> 's \<Rightarrow> bool" and I :: "'s \<Rightarrow> bool" and returned :: "'s \<Rightarrow> nat \<Rightarrow> bool"
    and result :: "'s \<Rightarrow> string option" and done_with :: "'s \<Rightarrow> bool" and T :: nat
  assumes inv_step: "I s \<Longrightarrow> step s s' \<Longrightarrow> I s'"
    and child_index: "returned s x \<Longrightarrow> x < T"
    and none_returns: "I s \<Longrightarrow> done_with s \<Longrightarrow> \<not> returned s x"
    and exit_final: "I s \<Longrightarrow> result s \<noteq> None \<Longrightarrow> step s s' \<Longrightarrow> result s' \<noteq> None \<and> \<not> done_with s'"
begin

definition well_written :: "string \<Rightarrow> string \<Rightarrow> 's out_state \<Rightarrow> bool" where
  "well_written pre buf w \<longleftrightarrow>
     I (core w) \<and> exited w \<subseteq> {..<T} \<and> (parent_exited w \<longrightarrow> result (core w) \<noteq> None) \<and>
     (let copies = pre @ concat (replicate (card (exited w)) buf)
      in (\<not> parent_exited w \<longrightarrow> written w = copies) \<and>
         (parent_exited w \<longrightarrow> done_with (core w) \<longrightarrow> written w = copies @ buf @ the (result (core w))))"

lemma well_written_step:
  assumes w: "well_written pre buf w" and st: "out_step step returned result buf w w'"
  shows "well_written pre buf w'"
  using st
proof cases
  case (runs_on s')
  then show ?thesis using w inv_step [of "core w" s'] exit_final [of "core w" s']
    by (auto simp: well_written_def Let_def)
next
  case (child_exits x)
  have "finite (exited w)" using w finite_subset by (auto simp: well_written_def)
  then have "card (insert x (exited w)) = Suc (card (exited w))" using child_exits(3) by simp
  with child_exits w child_index none_returns show ?thesis
    by (auto simp: well_written_def Let_def replicate_snoc simp del: replicate.simps)
next
  case (parent_exits t)
  then show ?thesis using w by (auto simp: well_written_def Let_def)
qed

lemma final_output:
  assumes r: "(out_step step returned result (out_buffer tty text))\<^sup>*\<^sup>* (out_init tty text s) w" and "I s"
    and "parent_exited w" and "done_with (core w)"
  shows "\<exists>j \<le> (if tty then 0 else T). written w = concat (replicate (Suc j) text) @ the (result (core w))"
proof -
  let ?pre = "if tty then text else []" and ?b = "out_buffer tty text"
  have "well_written ?pre ?b (out_init tty text s)" using assms(2) by (simp add: well_written_def out_init_def)
  from rtranclp_invariant [where I = "well_written ?pre ?b", OF r this well_written_step]
  have i: "well_written ?pre ?b w" .
  then have "card (exited w) \<le> T" using card_mono [of "{..<T}" "exited w"] by (simp add: well_written_def)
  moreover have "written w = ?pre @ concat (replicate (card (exited w)) ?b) @ ?b @ the (result (core w))"
    using i assms(3,4) by (simp add: well_written_def Let_def)
  ultimately show ?thesis
  proof (cases tty)
    case False
    with \<open>card (exited w) \<le> T\<close> \<open>written w = _\<close> show ?thesis
      by (intro exI [of _ "card (exited w)"]) (simp add: out_buffer_def replicate_snoc del: replicate.simps)
  qed (simp add: out_buffer_def)
qed

end

section \<open>The two options with processes\<close>

text \<open>What \<^verbatim>\<open>main\<close> prints first.\<close>

definition heading :: "selection \<Rightarrow> string" where
  "heading sel =
     (case sel of
        RunProcesses _ \<Rightarrow> ''Transitive Closure Processes:'' @ [CHR 0x0A]
      | RunThreads _ \<Rightarrow> ''Transitive Closure Threads:'' @ [CHR 0x0A]
      | RunBagProcesses _ \<Rightarrow> ''Transitive Closure Processes Bag of Tasks:'' @ [CHR 0x0A]
      | RunBagThreads _ \<Rightarrow> ''Transitive Closure Threads Bag of Tasks:'' @ [CHR 0x0A]
      | BadSelection \<Rightarrow> ''wtc: Bad selection...'' @ [CHR 0x0A]
      | ErrArguments \<Rightarrow> [])"

text \<open>
  The children and the parent on their way out. The parent prints the matrix and the time it has taken, which is a
  parameter; after a failed \<^verbatim>\<open>fork\<close> it prints nothing more; the signal of a division by zero leaves the buffer unwritten.
\<close>

definition proc_returned :: "proc_cfg \<Rightarrow> proc_state \<Rightarrow> nat \<Rightarrow> bool" where
  "proc_returned c s x \<longleftrightarrow> x < threadCount c \<and> p_child s x = CExit"

definition proc_result :: "proc_cfg \<Rightarrow> string \<Rightarrow> proc_state \<Rightarrow> string option" where
  "proc_result c time s =
     (case p_parent s of
        PDone \<Rightarrow> map_option (\<lambda>t. t @ time) (print_matrix2 (p_matrix s) (int (lineCount c)))
      | PErrExit \<Rightarrow> Some []
      | _ \<Rightarrow> None)"

definition bag_returned :: "nat \<Rightarrow> bag_state \<Rightarrow> nat \<Rightarrow> bool" where
  "bag_returned T s x \<longleftrightarrow> x < T \<and> b_child s x = BExit"

definition bag_result :: "nat \<Rightarrow> string \<Rightarrow> bag_state \<Rightarrow> string option" where
  "bag_result n time s =
     (case b_parent s of
        QDone \<Rightarrow> map_option (\<lambda>t. t @ time) (print_matrix2 (b_matrix s) (int n))
      | QErrExit \<Rightarrow> Some []
      | _ \<Rightarrow> None)"

text \<open>The signals have been sent to the first children, at the end to all of them.\<close>

definition proc_killed :: "proc_cfg \<Rightarrow> proc_state \<Rightarrow> bool" where
  "proc_killed c s \<longleftrightarrow>
     (case p_parent s of PKill z \<Rightarrow> z \<le> threadCount c \<and> (\<forall>x<z. p_child s x = CKilled)
      | PDone \<Rightarrow> \<forall>x<threadCount c. p_child s x = CKilled | _ \<Rightarrow> True)"

definition bag_killed :: "nat \<Rightarrow> bag_state \<Rightarrow> bool" where
  "bag_killed T s \<longleftrightarrow>
     (case b_parent s of QKill z \<Rightarrow> z \<le> T \<and> (\<forall>x<z. b_child s x = BKilled)
      | QDone \<Rightarrow> \<forall>x<T. b_child s x = BKilled | _ \<Rightarrow> True)"

lemma killed_stays:
  "child_step c x s = Some s' \<Longrightarrow> p_child s y = CKilled \<Longrightarrow> p_child s' y = CKilled"
  "bag_child_step n x u = Some u' \<Longrightarrow> b_child u y = BKilled \<Longrightarrow> b_child u' y = BKilled"
  by (auto simp: child_step_def Let_def bag_child_step_def queuePop_def bag_goto_def
    split: child_pc.splits bag_pc.splits option.splits if_splits)

lemma proc_killed_step:
  assumes i: "proc_killed c s" and st: "proc_step c s s'"
  shows "proc_killed c s'"
  using st
proof cases
  case (child x)
  with i killed_stays(1) [OF child(2)] child_step_frame [OF child(2)] show ?thesis
    by (auto simp: proc_killed_def split: parent_pc.splits)
qed (use i in \<open>auto simp: proc_killed_def parent_step_def proc_barrier_step_def less_Suc_eq
  split: parent_pc.splits fork_result.splits if_splits\<close>)

lemma bag_killed_step:
  assumes i: "bag_killed T s" and st: "bag_step n T s s'"
  shows "bag_killed T s'"
  using st
proof cases
  case (bag_child x)
  with i killed_stays(2) [OF bag_child(2)] bag_child_frame [OF bag_child(2)] show ?thesis
    by (auto simp: bag_killed_def split: bag_parent.splits)
qed (use i in \<open>auto simp: bag_killed_def bag_parent_step_def bag_barrier_step_def bag_goto_def less_Suc_eq
  split: bag_parent.splits fork_result.splits if_splits\<close>)

interpretation proc_output: forked_output "proc_step c" "proc_killed c" "proc_returned c" "proc_result c time"
    "\<lambda>s. p_parent s = PDone" "threadCount c" for c time
proof unfold_locales
  fix s s' assume k: "proc_killed c s" and e: "proc_result c time s \<noteq> None" and st: "proc_step c s s'"
  show "proc_result c time s' \<noteq> None \<and> p_parent s' \<noteq> PDone"
    using st
  proof cases
    case (child x)
    have "child_step c x s = None" if "p_parent s = PDone"
      using k child(1) that by (simp add: proc_killed_def child_step_def)
    then show ?thesis using e child child_step_frame [OF child(2)]
      by (auto simp: proc_result_def split: parent_pc.splits)
  qed (use e in \<open>auto simp: proc_result_def parent_step_def proc_barrier_step_def split: parent_pc.splits\<close>)
qed (erule (1) proc_killed_step, auto simp: proc_returned_def proc_killed_def)

interpretation bag_output: forked_output "bag_step n T" "bag_killed T" "bag_returned T" "bag_result n time"
    "\<lambda>s. b_parent s = QDone" T for n T time
proof unfold_locales
  fix s s' assume k: "bag_killed T s" and e: "bag_result n time s \<noteq> None" and st: "bag_step n T s s'"
  show "bag_result n time s' \<noteq> None \<and> b_parent s' \<noteq> QDone"
    using st
  proof cases
    case (bag_child x)
    have "bag_child_step n x s = None" if "b_parent s = QDone"
      using k bag_child(1) that by (simp add: bag_killed_def bag_child_step_def)
    then show ?thesis using e bag_child bag_child_frame [OF bag_child(2)]
      by (auto simp: bag_result_def split: bag_parent.splits)
  qed (use e in \<open>auto simp: bag_result_def bag_parent_step_def bag_barrier_step_def split: bag_parent.splits\<close>)
qed (erule (1) bag_killed_step, auto simp: bag_returned_def bag_killed_def)

section \<open>All children can return\<close>

text \<open>Runs without a failed \<^verbatim>\<open>fork\<close>, up to the first signal.\<close>

definition unharmed :: "bag_state \<Rightarrow> bool" where
  "unharmed s \<longleftrightarrow>
     (case b_parent s of QErrExit \<Rightarrow> False | QDone \<Rightarrow> False | QKill z \<Rightarrow> z = 0 | _ \<Rightarrow> True) \<and>
     (\<forall>x. b_child s x \<noteq> BKilled)"

definition unharmed_step :: "nat \<Rightarrow> nat \<Rightarrow> bag_state \<Rightarrow> bag_state \<Rightarrow> bool" where
  "unharmed_step n T s s' \<longleftrightarrow> bag_step n T s s' \<and> unharmed s'"

lemma child_stays_unharmed:
  assumes "unharmed s" and "bag_child_step n x s = Some s'"
  shows "unharmed s'"
proof -
  have "b_child s' y \<noteq> BKilled" for y
    using assms by (auto simp: unharmed_def bag_child_step_def queuePop_def Let_def bag_goto_def
      split: bag_pc.splits option.splits if_splits)
  then show ?thesis using assms bag_child_frame [OF assms(2)] by (simp add: unharmed_def)
qed

lemma past_not_killed [simp]: "past_bag_barrier pc = BKilled \<longleftrightarrow> pc = BKilled"
  by (cases pc) auto

lemma unharmed_progress:
  assumes y: "bag_sync n T E s" and u: "unharmed s" and k: "b_parent s \<noteq> QKill 0"
  shows "\<exists>s'. unharmed_step n T s s'"
proof (cases "\<exists>x. b_parent s = QFork x")
  case True
  then have "bag_parent_step n T Forked s \<noteq> None" by (auto simp: bag_parent_step_def)
  then obtain s' where s': "bag_parent_step n T Forked s = Some s'" by blast
  then have "unharmed s'"
    using u True by (auto simp: bag_parent_step_def unharmed_def bag_goto_def split: if_splits)
  with s' show ?thesis by (auto simp: unharmed_step_def intro: bag_step.bag_parent)
next
  case False
  have "b_parent s \<noteq> QDone" "b_parent s \<noteq> QErrExit" using u by (auto simp: unharmed_def)
  then obtain s' where s': "bag_step n T s s'" using bag_progress [OF y] by blast
  then have "unharmed s'"
  proof cases
    case (bag_child x)
    then show ?thesis using child_stays_unharmed [OF u] by blast
  qed (use u k False in \<open>auto simp: unharmed_def bag_parent_step_def bag_barrier_step_def bag_goto_def
    split: bag_parent.splits if_splits\<close>)
  with s' show ?thesis by (auto simp: unharmed_step_def)
qed

interpretation unharmed: ending "unharmed_step n T" "\<lambda>s. 0 < T \<and> (\<exists>m. s = initShm n m \<and> int_fits n m)"
    "\<lambda>s. 0 < T \<and> (\<exists>E. bag_sync n T E s) \<and> unharmed s" "\<lambda>s. b_parent s = QKill 0" "bag_order n T" for n T
proof unfold_locales
  fix s assume "0 < T \<and> (\<exists>m. s = initShm n m \<and> int_fits n m)"
  then show "0 < T \<and> (\<exists>E. bag_sync n T E s) \<and> unharmed s"
    using bag_sync_init by (auto simp: unharmed_def initShm_def)
qed (unfold unharmed_step_def,
  blast intro: bag_sync_step, blast dest: unharmed_progress [unfolded unharmed_step_def], blast intro: bag_step_order, rule wf_bag_order)

lemma unharmed_steps: "(unharmed_step n T)\<^sup>*\<^sup>* s s' \<Longrightarrow> (bag_step n T)\<^sup>*\<^sup>* s s'"
  by (erule rtranclp_mono [THEN predicate2D, rotated]) (auto simp: unharmed_step_def)

text \<open>Before the first signal every child is at its last test or beyond it.\<close>

lemma children_return:
  assumes y: "bag_sync n T E s" and T: "0 < T" and u: "unharmed s" and k: "b_parent s = QKill 0" and j: "j \<le> T"
  shows "\<exists>s'. (bag_step n T)\<^sup>*\<^sup>* s s' \<and> bag_sync n T E s' \<and> unharmed s' \<and> b_parent s' = QKill 0 \<and>
    (\<forall>x<j. bag_returned T s' x)"
  using j
proof (induction j)
  case 0
  then show ?case using y u k by auto
next
  case (Suc j)
  then obtain s' where s': "(bag_step n T)\<^sup>*\<^sup>* s s'" "bag_sync n T E s'" "unharmed s'" "b_parent s' = QKill 0"
    "\<forall>x<j. bag_returned T s' x" by auto
  have "bag_ok n n (b_qNum s') (b_child s' j)" "b_child s' j \<noteq> BNone" "b_child s' j \<noteq> BKilled"
    using s' Suc.prems by (auto simp: bag_sync_def bag_inv_def bag_working_def bag_created_def unharmed_def)
  then consider "b_child s' j = BExit" | "b_child s' j = BTest n" by (cases "b_child s' j") auto
  then show ?case
  proof cases
    case 1
    then show ?thesis using s' Suc.prems by (intro exI [of _ s']) (auto simp: bag_returned_def less_Suc_eq)
  next
    case 2
    then have st: "bag_child_step n j s' = Some (bag_goto j BExit s')" by (simp add: bag_child_step_def)
    then have "bag_step n T s' (bag_goto j BExit s')" using Suc.prems by (intro bag_step.bag_child) auto
    moreover have "unharmed (bag_goto j BExit s')" using child_stays_unharmed [OF s'(3) st] .
    ultimately show ?thesis using s' bag_sync_step [OF T s'(2)] bag_child_frame [OF st] Suc.prems
      by (intro exI [of _ "bag_goto j BExit s'"]) (auto simp: bag_returned_def less_Suc_eq intro: rtranclp.rtrancl_into_rtrancl)
  qed
qed

lemma all_return:
  assumes m: "int_fits n m" and T: "0 < T"
  shows "\<exists>s1 s2. (bag_step n T)\<^sup>*\<^sup>* (initShm n m) s1 \<and> (\<forall>x<T. bag_returned T s1 x) \<and> (bag_step n T)\<^sup>*\<^sup>* s1 s2 \<and>
    b_parent s2 = QDone"
proof -
  let ?E = "int_edge n m" and ?kills = "\<lambda>s. b_parent s = QDone \<or> (\<exists>z. b_parent s = QKill z)"
  have "0 < T \<and> (\<exists>E. bag_sync n T E (initShm n m)) \<and> unharmed (initShm n m)" using unharmed.start_inv m T by blast
  from unharmed.can_end [OF this] obtain s0 where s0: "(unharmed_step n T)\<^sup>*\<^sup>* (initShm n m) s0" "b_parent s0 = QKill 0"
    by blast
  have u: "unharmed s0" using unharmed.inv_reachable [OF _ s0(1)] m T by blast
  note r0 = unharmed_steps [OF s0(1)]
  obtain s1 where s1: "(bag_step n T)\<^sup>*\<^sup>* s0 s1" "bag_sync n T ?E s1" "b_parent s1 = QKill 0" "\<forall>x<T. bag_returned T s1 x"
    using children_return [OF bag_sync_reachable [OF r0 m T] T u s0(2) order_refl] by blast
  obtain s2 where s2: "(bag_step n T)\<^sup>*\<^sup>* s1 s2" "b_parent s2 = QDone \<or> b_parent s2 = QErrExit"
    using bag_ending.can_end [of T n s1] s1(2) T by blast
  have "?kills s2"
    by (rule rtranclp_invariant [where I = ?kills, OF s2(1)])
      (use s1(3) in \<open>auto elim!: bag_step.cases dest: bag_child_frame
        simp: bag_parent_step_def bag_barrier_step_def split: if_splits\<close>)
  with s2 s1 r0 show ?thesis by (auto intro: rtranclp_trans)
qed

section \<open>Option 1\<close>

text \<open>
  The output of \<^verbatim>\<open>wtc_proc\<close> below \<^verbatim>\<open>main\<close>: the heading, once more for some of the children unless it is a terminal, and
  what the parent prints.
\<close>

theorem procs_heading_copies:
  assumes "(out_step (proc_step c) (proc_returned c) (proc_result c time) (out_buffer tty h))\<^sup>*\<^sup>* (out_init tty h (proc_init m)) u"
    and "parent_exited u" and "p_parent (core u) = PDone"
  shows "\<exists>j \<le> (if tty then 0 else threadCount c).
    written u = concat (replicate (Suc j) h) @ the (proc_result c time (core u))"
  using proc_output.final_output [OF assms(1) _ assms(2,3)] by (simp add: proc_killed_def proc_init_def)

end
