(* ===== verification/Flip_Barrier.thy ===== *)
theory Flip_Barrier
  imports Proc_Closure
begin

text \<open>
  The first version of the closure processes, \<^verbatim>\<open>Project_1/Stuff/wtc_proc_test.c\<close>. It divides the matrix
  among the children as \<^verbatim>\<open>wtc_proc.c\<close> does, but has no barrier of the system: a child that ends a
  round adds one to \<^verbatim>\<open>*bCount\<close> and reads \<^verbatim>\<open>*cont\<close> again and again until it has its own \<^verbatim>\<open>nextFlip\<close>, and
  the parent, polling both counters, inverts \<^verbatim>\<open>*cont\<close> once all children are counted. The theory
  models every semaphore operation and every access to a shared word as a step of its own and
  shows that the program refines the one with the barrier: the parent's write to \<^verbatim>\<open>*cont\<close> is the
  moment all processes meet.
\<close>

section \<open>State\<close>

text \<open>
  A child's program counter holds its locals \<^verbatim>\<open>k\<close>, \<^verbatim>\<open>y\<close>, \<^verbatim>\<open>j\<close>, \<^verbatim>\<open>nextFlip\<close> and \<^verbatim>\<open>tCont\<close>: not yet forked; at
  the test of the loop over \<^verbatim>\<open>k\<close>; over \<^verbatim>\<open>y\<close>; at \<^verbatim>\<open>sem_wait(matrixLock)\<close>; in the loop over \<^verbatim>\<open>j\<close>; at
  \<^verbatim>\<open>sem_post\<close>; before, in and after the section of \<^verbatim>\<open>bLock\<close>; before, in and after the section of
  \<^verbatim>\<open>contLock\<close>; at the test of the loop over \<^verbatim>\<open>tCont\<close>; before, in and after the section of \<^verbatim>\<open>cLock\<close>;
  returned; killed; stopped by an access outside the matrix.
\<close>

datatype flip_pc =
    FNone | FTest nat int | FCols nat nat int | FWait nat nat int | FEntry nat nat nat int | FPost nat nat int
  | FBWait nat int | FBInc nat int | FBPost nat int
  | FContWait nat int | FContRead nat int | FContPost nat int int | FSpin nat int int
  | FCWait | FCDec | FCPost | FExit | FKilled | FFault

text \<open>
  The parent holds its \<^verbatim>\<open>nextFlip\<close>, and \<^verbatim>\<open>done\<close> after the test of \<^verbatim>\<open>*count\<close>: in the loop of the forks; at
  \<^verbatim>\<open>sem_wait(bLock)\<close>; at the test; at \<^verbatim>\<open>sem_wait(contLock)\<close>; inverting \<^verbatim>\<open>*cont\<close>; at \<^verbatim>\<open>sem_post(contLock)\<close>;
  resetting \<^verbatim>\<open>*bCount\<close>; at \<^verbatim>\<open>sem_post(bLock)\<close>; at \<^verbatim>\<open>sem_wait(cLock)\<close>; testing \<^verbatim>\<open>*count\<close>; at
  \<^verbatim>\<open>sem_post(cLock)\<close>; killing; done; given up after a failed \<^verbatim>\<open>fork\<close>; stopped by the division by the number
  of children, which every process does after the forks, when it is 0.
\<close>

datatype flip_parent_pc =
    GFork nat | GBWait int | GCheck int | GContWait int | GFlip int | GContPost int | GReset int | GBPost int
  | GCWait int | GCount int | GCPost int bool | GKill nat | GDone | GErrExit | GDivZero

record flip_state =
  f_matrix :: int_matrix
  matrixLock :: nat
  cLock :: nat
  f_count :: int
  bLock :: nat
  bCount :: int
  cont :: int
  contLock :: nat
  f_child :: "nat \<Rightarrow> flip_pc"
  f_parent :: flip_parent_pc

definition flip_init :: "proc_cfg \<Rightarrow> int_matrix \<Rightarrow> flip_state" where
  "flip_init c m =
     \<lparr>f_matrix = m, matrixLock = 1, cLock = 1, f_count = int (threadCount c), bLock = 1, bCount = 0,
      cont = 0, contLock = 1, f_child = (\<lambda>_. FNone), f_parent = GFork 0\<rparr>"

section \<open>Steps\<close>

definition flip_goto :: "nat \<Rightarrow> flip_pc \<Rightarrow> flip_state \<Rightarrow> flip_state" where
  "flip_goto x pc s = s\<lparr>f_child := (f_child s)(x := pc)\<rparr>"

text \<open>The C operator \<^verbatim>\<open>!\<close> on an \<^verbatim>\<open>int\<close>.\<close>

definition lnot :: "int \<Rightarrow> int" where
  "lnot v = (if v = 0 then 1 else 0)"

definition flip_child_step :: "proc_cfg \<Rightarrow> nat \<Rightarrow> flip_state \<Rightarrow> flip_state option" where
  "flip_child_step c x s =
     (let n = lineCount c
      in case f_child s x of
        FTest k f \<Rightarrow> Some (flip_goto x (if k < n then FCols k (x * rowsPer c) f else FCWait) s)
      | FCols k y f \<Rightarrow>
          Some (flip_goto x (if y < (x + 1) * rowsPer c then FWait k y f else FBWait k f) s)
      | FWait k y f \<Rightarrow>
          if matrixLock s = 0 then None
          else Some (flip_goto x (FEntry k y 0 f) (s\<lparr>matrixLock := matrixLock s - 1\<rparr>))
      | FEntry k y j f \<Rightarrow>
          if j < n
          then (case update_entry n k y j (f_matrix s) of
                  None \<Rightarrow> Some (flip_goto x FFault s)
                | Some m \<Rightarrow> Some (flip_goto x (FEntry k y (j + 1) f) (s\<lparr>f_matrix := m\<rparr>)))
          else Some (flip_goto x (FPost k y f) s)
      | FPost k y f \<Rightarrow> Some (flip_goto x (FCols k (y + 1) f) (s\<lparr>matrixLock := matrixLock s + 1\<rparr>))
      | FBWait k f \<Rightarrow>
          if bLock s = 0 then None else Some (flip_goto x (FBInc k f) (s\<lparr>bLock := bLock s - 1\<rparr>))
      | FBInc k f \<Rightarrow> Some (flip_goto x (FBPost k f) (s\<lparr>bCount := bCount s + 1\<rparr>))
      | FBPost k f \<Rightarrow> Some (flip_goto x (FContWait k f) (s\<lparr>bLock := bLock s + 1\<rparr>))
      | FContWait k f \<Rightarrow>
          if contLock s = 0 then None
          else Some (flip_goto x (FContRead k f) (s\<lparr>contLock := contLock s - 1\<rparr>))
      | FContRead k f \<Rightarrow> Some (flip_goto x (FContPost k f (cont s)) s)
      | FContPost k f t \<Rightarrow> Some (flip_goto x (FSpin k f t) (s\<lparr>contLock := contLock s + 1\<rparr>))
      | FSpin k f t \<Rightarrow> Some (flip_goto x (if t \<noteq> f then FContWait k f else FTest (k + 1) (lnot f)) s)
      | FCWait \<Rightarrow>
          if cLock s = 0 then None else Some (flip_goto x FCDec (s\<lparr>cLock := cLock s - 1\<rparr>))
      | FCDec \<Rightarrow> Some (flip_goto x FCPost (s\<lparr>f_count := f_count s - 1\<rparr>))
      | FCPost \<Rightarrow> Some (flip_goto x FExit (s\<lparr>cLock := cLock s + 1\<rparr>))
      | _ \<Rightarrow> None)"

definition flip_parent_step :: "proc_cfg \<Rightarrow> fork_result \<Rightarrow> flip_state \<Rightarrow> flip_state option" where
  "flip_parent_step c r s =
     (case f_parent s of
        GFork x \<Rightarrow>
          if x < threadCount c
          then (case r of Forked \<Rightarrow> Some ((flip_goto x (FTest 0 1) s)\<lparr>f_parent := GFork (x + 1)\<rparr>)
                        | ForkFailed \<Rightarrow> Some (s\<lparr>f_parent := GErrExit\<rparr>))
          else Some (s\<lparr>f_parent := (if threadCount c = 0 then GDivZero else GBWait 1)\<rparr>)
      | GBWait p \<Rightarrow>
          if bLock s = 0 then None else Some (s\<lparr>bLock := bLock s - 1, f_parent := GCheck p\<rparr>)
      | GCheck p \<Rightarrow>
          Some (s\<lparr>f_parent := (if bCount s = int (threadCount c) \<and> cont s \<noteq> p then GContWait p else GBPost p)\<rparr>)
      | GContWait p \<Rightarrow>
          if contLock s = 0 then None else Some (s\<lparr>contLock := contLock s - 1, f_parent := GFlip p\<rparr>)
      | GFlip p \<Rightarrow> Some (s\<lparr>cont := lnot (cont s), f_parent := GContPost (cont s)\<rparr>)
      | GContPost p \<Rightarrow> Some (s\<lparr>contLock := contLock s + 1, f_parent := GReset p\<rparr>)
      | GReset p \<Rightarrow> Some (s\<lparr>bCount := 0, f_parent := GBPost p\<rparr>)
      | GBPost p \<Rightarrow> Some (s\<lparr>bLock := bLock s + 1, f_parent := GCWait p\<rparr>)
      | GCWait p \<Rightarrow>
          if cLock s = 0 then None else Some (s\<lparr>cLock := cLock s - 1, f_parent := GCount p\<rparr>)
      | GCount p \<Rightarrow> Some (s\<lparr>f_parent := GCPost p (f_count s = 0)\<rparr>)
      | GCPost p d \<Rightarrow> Some (s\<lparr>cLock := cLock s + 1, f_parent := (if d then GKill 0 else GBWait p)\<rparr>)
      | GKill z \<Rightarrow>
          if z < threadCount c
          then Some ((flip_goto z FKilled s)\<lparr>f_parent := GKill (z + 1)\<rparr>)
          else Some (s\<lparr>f_parent := GDone\<rparr>)
      | _ \<Rightarrow> None)"

inductive flip_step :: "proc_cfg \<Rightarrow> flip_state \<Rightarrow> flip_state \<Rightarrow> bool" for c where
  child: "x < threadCount c \<Longrightarrow> flip_child_step c x s = Some s' \<Longrightarrow> flip_step c s s'"
| parent: "flip_parent_step c r s = Some s' \<Longrightarrow> flip_step c s s'"

datatype flip_mover = FlipChild nat | FlipParent fork_result

definition flip_move :: "proc_cfg \<Rightarrow> flip_mover \<Rightarrow> flip_state \<Rightarrow> flip_state option" where
  "flip_move c a s =
     (case a of FlipChild x \<Rightarrow> if x < threadCount c then flip_child_step c x s else None
      | FlipParent r \<Rightarrow> flip_parent_step c r s)"

definition flip_run :: "proc_cfg \<Rightarrow> flip_mover list \<Rightarrow> flip_state \<Rightarrow> flip_state option" where
  "flip_run c = runs (flip_move c)"

lemma flip_run_steps: "flip_run c as s = Some s' \<Longrightarrow> (flip_step c)\<^sup>*\<^sup>* s s'"
  unfolding flip_run_def
  by (erule runs_steps) (auto simp: flip_move_def split: flip_mover.splits if_splits intro: flip_step.intros)

section \<open>The abstraction\<close>

text \<open>
  A child that has ended round \<open>k\<close> is at the barrier until the parent has inverted \<^verbatim>\<open>*cont\<close> more than
  \<open>k\<close> times; from then on it is at the start of the next round, even if it has not seen the new value.
\<close>

fun flip_abs_child :: "nat \<Rightarrow> flip_pc \<Rightarrow> child_pc" where
  "flip_abs_child R FNone = CNone"
| "flip_abs_child R (FTest k f) = CTest k"
| "flip_abs_child R (FCols k y f) = CCols k y"
| "flip_abs_child R (FWait k y f) = CWait k y"
| "flip_abs_child R (FEntry k y j f) = CEntry k y j"
| "flip_abs_child R (FPost k y f) = CPost k y"
| "flip_abs_child R (FBWait k f) = (if k < R then CTest (k + 1) else CBarrier k)"
| "flip_abs_child R (FBInc k f) = (if k < R then CTest (k + 1) else CBarrier k)"
| "flip_abs_child R (FBPost k f) = (if k < R then CTest (k + 1) else CBarrier k)"
| "flip_abs_child R (FContWait k f) = (if k < R then CTest (k + 1) else CBarrier k)"
| "flip_abs_child R (FContRead k f) = (if k < R then CTest (k + 1) else CBarrier k)"
| "flip_abs_child R (FContPost k f t) = (if k < R then CTest (k + 1) else CBarrier k)"
| "flip_abs_child R (FSpin k f t) = (if k < R then CTest (k + 1) else CBarrier k)"
| "flip_abs_child R FCWait = CExit"
| "flip_abs_child R FCDec = CExit"
| "flip_abs_child R FCPost = CExit"
| "flip_abs_child R FExit = CExit"
| "flip_abs_child R FKilled = CKilled"
| "flip_abs_child R FFault = CFault"

definition flip_abs_parent :: "proc_cfg \<Rightarrow> nat \<Rightarrow> flip_parent_pc \<Rightarrow> parent_pc" where
  "flip_abs_parent c R pp =
     (case pp of
        GFork x \<Rightarrow> PFork x
      | GKill z \<Rightarrow> PKill z
      | GDone \<Rightarrow> PDone
      | GErrExit \<Rightarrow> PErrExit
      | GDivZero \<Rightarrow> PDivZero
      | _ \<Rightarrow> if R < lineCount c then PBarrier R else PKill 0)"

definition flip_abs :: "proc_cfg \<Rightarrow> nat \<Rightarrow> flip_state \<Rightarrow> proc_state" where
  "flip_abs c R s =
     \<lparr>p_matrix = f_matrix s, p_sem = matrixLock s, p_child = (\<lambda>x. flip_abs_child R (f_child s x)),
      p_parent = flip_abs_parent c R (f_parent s)\<rparr>"

section \<open>The invariant of the counters and the locks\<close>

text \<open>How many of the processes below \<open>N\<close> are in a state of \<open>H\<close>.\<close>

definition headcount :: "nat \<Rightarrow> ('pc \<Rightarrow> bool) \<Rightarrow> (nat \<Rightarrow> 'pc) \<Rightarrow> int" where
  "headcount N H f = (\<Sum>x<N. of_bool (H (f x)))"

lemma headcount_move:
  "x < N \<Longrightarrow> headcount N H (f(x := pc)) = headcount N H f - of_bool (H (f x)) + of_bool (H pc)"
proof -
  assume x: "x < N"
  then have "headcount N H g = of_bool (H (g x)) + (\<Sum>u\<in>{..<N} - {x}. of_bool (H (g u)))" for g
    unfolding headcount_def by (intro sum.remove) auto
  moreover have "(\<Sum>u\<in>{..<N} - {x}. of_bool (H ((f(x := pc)) u))) = (\<Sum>u\<in>{..<N} - {x}. of_bool (H (f u)) :: int)"
    by (intro sum.cong) auto
  ultimately show ?thesis by (simp del: sum_of_bool_eq)
qed

lemma headcount_nonneg [simp]: "0 \<le> headcount N H f"
  by (simp add: headcount_def sum_nonneg)

lemma headcount_zero: "headcount N H f = 0 \<Longrightarrow> x < N \<Longrightarrow> \<not> H (f x)"
  by (auto simp: headcount_def sum_nonneg_eq_0_iff)

lemma headcount_none: "(\<And>x. x < N \<Longrightarrow> \<not> H (f x)) \<Longrightarrow> headcount N H f = 0"
  by (simp add: headcount_def)

lemma headcount_full:
  assumes "headcount N H f = int N" and "x < N"
  shows "H (f x)"
proof -
  have "headcount N H f + headcount N (\<lambda>pc. \<not> H pc) f = (\<Sum>x<N. 1)"
    unfolding headcount_def sum.distrib [symmetric] by (intro sum.cong) auto
  then have "headcount N (\<lambda>pc. \<not> H pc) f = 0" using assms(1) by simp
  from headcount_zero [OF this assms(2)] show ?thesis by simp
qed

lemma headcount_all: "(\<And>x. x < N \<Longrightarrow> H (f x)) \<Longrightarrow> headcount N H f = int N"
  by (simp add: headcount_def)

lemma headcount_pos: "0 < headcount N H f \<Longrightarrow> \<exists>x<N. H (f x)"
  using headcount_none [of N H f] by fastforce

text \<open>The value of \<^verbatim>\<open>*cont\<close> after \<open>R\<close> inversions, and the \<^verbatim>\<open>nextFlip\<close> a child waits for in round \<open>k\<close> (at \<open>k + 1\<close>).\<close>

definition flipped :: "nat \<Rightarrow> int" where
  "flipped R = int (R mod 2)"

lemma flipped_simps [simp]:
  "flipped 0 = 0" "lnot (flipped R) = flipped (Suc R)" "flipped (Suc R) \<noteq> flipped R" "flipped R \<noteq> flipped (Suc R)"
  "flipped (Suc (Suc R)) = flipped R"
  by (auto simp: flipped_def lnot_def mod_Suc)

text \<open>Holders of the locks, children that are counted in \<^verbatim>\<open>*bCount\<close>, children that have left \<^verbatim>\<open>*count\<close>.\<close>

fun b_holding :: "flip_pc \<Rightarrow> bool" where
  "b_holding (FBInc _ _) = True"
| "b_holding (FBPost _ _) = True"
| "b_holding _ = False"

fun gb_holding :: "flip_parent_pc \<Rightarrow> bool" where
  "gb_holding (GCheck _) = True"
| "gb_holding (GContWait _) = True"
| "gb_holding (GFlip _) = True"
| "gb_holding (GContPost _) = True"
| "gb_holding (GReset _) = True"
| "gb_holding (GBPost _) = True"
| "gb_holding _ = False"

fun cont_holding :: "flip_pc \<Rightarrow> bool" where
  "cont_holding (FContRead _ _) = True"
| "cont_holding (FContPost _ _ _) = True"
| "cont_holding _ = False"

fun gcont_holding :: "flip_parent_pc \<Rightarrow> bool" where
  "gcont_holding (GFlip _) = True"
| "gcont_holding (GContPost _) = True"
| "gcont_holding _ = False"

fun c_holding :: "flip_pc \<Rightarrow> bool" where
  "c_holding FCDec = True"
| "c_holding FCPost = True"
| "c_holding _ = False"

fun gc_holding :: "flip_parent_pc \<Rightarrow> bool" where
  "gc_holding (GCount _) = True"
| "gc_holding (GCPost _ _) = True"
| "gc_holding _ = False"

fun counted :: "nat \<Rightarrow> flip_pc \<Rightarrow> bool" where
  "counted R (FBPost k _) \<longleftrightarrow> R \<le> k"
| "counted R (FContWait k _) \<longleftrightarrow> R \<le> k"
| "counted R (FContRead k _) \<longleftrightarrow> R \<le> k"
| "counted R (FContPost k _ _) \<longleftrightarrow> R \<le> k"
| "counted R (FSpin k _ _) \<longleftrightarrow> R \<le> k"
| "counted R _ \<longleftrightarrow> False"

fun departed :: "flip_pc \<Rightarrow> bool" where
  "departed FCPost = True"
| "departed FExit = True"
| "departed FKilled = True"
| "departed _ = False"

text \<open>
  What the locals of a child say after \<open>R\<close> inversions: \<^verbatim>\<open>nextFlip\<close> is the value of round \<open>k\<close>, a child
  that is not counted is not released, and one that has seen its \<^verbatim>\<open>nextFlip\<close> is released.
\<close>

fun flip_locals :: "nat \<Rightarrow> flip_pc \<Rightarrow> bool" where
  "flip_locals R (FTest k f) \<longleftrightarrow> f = flipped (Suc k)"
| "flip_locals R (FCols k y f) \<longleftrightarrow> f = flipped (Suc k)"
| "flip_locals R (FWait k y f) \<longleftrightarrow> f = flipped (Suc k)"
| "flip_locals R (FEntry k y j f) \<longleftrightarrow> f = flipped (Suc k)"
| "flip_locals R (FPost k y f) \<longleftrightarrow> f = flipped (Suc k)"
| "flip_locals R (FBWait k f) \<longleftrightarrow> f = flipped (Suc k) \<and> R \<le> k"
| "flip_locals R (FBInc k f) \<longleftrightarrow> f = flipped (Suc k) \<and> R \<le> k"
| "flip_locals R (FBPost k f) \<longleftrightarrow> f = flipped (Suc k)"
| "flip_locals R (FContWait k f) \<longleftrightarrow> f = flipped (Suc k)"
| "flip_locals R (FContRead k f) \<longleftrightarrow> f = flipped (Suc k)"
| "flip_locals R (FContPost k f t) \<longleftrightarrow> f = flipped (Suc k) \<and> (t = f \<longrightarrow> k < R)"
| "flip_locals R (FSpin k f t) \<longleftrightarrow> f = flipped (Suc k) \<and> (t = f \<longrightarrow> k < R)"
| "flip_locals R _ \<longleftrightarrow> True"

text \<open>What the parent's place and local say.\<close>

fun flip_place :: "proc_cfg \<Rightarrow> nat \<Rightarrow> flip_parent_pc \<Rightarrow> flip_state \<Rightarrow> bool" where
  "flip_place c R (GFork x) s \<longleftrightarrow> R = 0 \<and> x \<le> threadCount c \<and> (\<forall>y. f_child s y = FNone \<longleftrightarrow> x \<le> y)"
| "flip_place c R GErrExit s \<longleftrightarrow> R = 0"
| "flip_place c R GDivZero s \<longleftrightarrow> R = 0 \<and> threadCount c = 0"
| "flip_place c R (GContWait p) s \<longleftrightarrow> p = flipped (Suc R) \<and> (\<forall>x<threadCount c. counted R (f_child s x))"
| "flip_place c R (GFlip p) s \<longleftrightarrow> p = flipped (Suc R) \<and> (\<forall>x<threadCount c. counted R (f_child s x))"
| "flip_place c R (GContPost p) s \<longleftrightarrow> p = flipped (Suc R) \<and> (\<forall>x<threadCount c. \<not> counted R (f_child s x))"
| "flip_place c R (GReset p) s \<longleftrightarrow> p = flipped (Suc R) \<and> (\<forall>x<threadCount c. \<not> counted R (f_child s x))"
| "flip_place c R (GCPost p d) s \<longleftrightarrow>
     p = flipped (Suc R) \<and> (d \<longrightarrow> R = lineCount c \<and> (\<forall>x<threadCount c. departed (f_child s x)))"
| "flip_place c R (GKill z) s \<longleftrightarrow> R = lineCount c \<and> (\<forall>x<threadCount c. departed (f_child s x))"
| "flip_place c R GDone s \<longleftrightarrow> R = lineCount c \<and> (\<forall>x<threadCount c. departed (f_child s x))"
| "flip_place c R (GBWait p) s \<longleftrightarrow> p = flipped (Suc R)"
| "flip_place c R (GCheck p) s \<longleftrightarrow> p = flipped (Suc R)"
| "flip_place c R (GBPost p) s \<longleftrightarrow> p = flipped (Suc R)"
| "flip_place c R (GCWait p) s \<longleftrightarrow> p = flipped (Suc R)"
| "flip_place c R (GCount p) s \<longleftrightarrow> p = flipped (Suc R)"

fun resetting :: "flip_parent_pc \<Rightarrow> bool" where
  "resetting (GContPost _) = True"
| "resetting (GReset _) = True"
| "resetting _ = False"

fun killing :: "flip_parent_pc \<Rightarrow> bool" where
  "killing (GKill _) = True"
| "killing GDone = True"
| "killing _ = False"

definition flip_inv :: "proc_cfg \<Rightarrow> nat \<Rightarrow> flip_state \<Rightarrow> bool" where
  "flip_inv c R s \<longleftrightarrow>
     (let T = threadCount c; pp = f_parent s; ch = f_child s
      in cont s = flipped R \<and> R \<le> lineCount c \<and>
         (\<forall>x<T. flip_locals R (ch x)) \<and> (\<forall>x\<ge>T. ch x = FNone) \<and>
         int (bLock s) + of_bool (gb_holding pp) + headcount T b_holding ch = 1 \<and>
         int (contLock s) + of_bool (gcont_holding pp) + headcount T cont_holding ch = 1 \<and>
         (\<not> killing pp \<longrightarrow> int (cLock s) + of_bool (gc_holding pp) + headcount T c_holding ch = 1) \<and>
         (\<not> resetting pp \<longrightarrow> bCount s = headcount T (counted R) ch) \<and>
         f_count s = int T - headcount T departed ch \<and>
         flip_place c R pp s)"

section \<open>Every step keeps the invariant\<close>

lemma flip_goto_simps [simp]:
  "f_child (flip_goto x pc s) = (f_child s)(x := pc)" "f_matrix (flip_goto x pc s) = f_matrix s"
  "matrixLock (flip_goto x pc s) = matrixLock s" "bLock (flip_goto x pc s) = bLock s"
  "contLock (flip_goto x pc s) = contLock s" "cLock (flip_goto x pc s) = cLock s"
  "bCount (flip_goto x pc s) = bCount s" "cont (flip_goto x pc s) = cont s"
  "f_count (flip_goto x pc s) = f_count s" "f_parent (flip_goto x pc s) = f_parent s"
  by (simp_all add: flip_goto_def)

text \<open>A move of one child, by what it does to the locks and the counters.\<close>

definition flip_shift :: "nat \<Rightarrow> nat \<Rightarrow> flip_pc \<Rightarrow> flip_state \<Rightarrow> flip_state \<Rightarrow> bool" where
  "flip_shift R x pc s s' \<longleftrightarrow>
     (let old = f_child s x
      in f_child s' = (f_child s)(x := pc) \<and> f_parent s' = f_parent s \<and> cont s' = cont s \<and>
         old \<noteq> FNone \<and> pc \<noteq> FNone \<and> flip_locals R pc \<and>
         int (bLock s') + of_bool (b_holding pc) = int (bLock s) + of_bool (b_holding old) \<and>
         int (contLock s') + of_bool (cont_holding pc) = int (contLock s) + of_bool (cont_holding old) \<and>
         int (cLock s') + of_bool (c_holding pc) = int (cLock s) + of_bool (c_holding old) \<and>
         bCount s' = bCount s + of_bool (counted R pc) - of_bool (counted R old) \<and>
         f_count s' = f_count s + of_bool (departed old) - of_bool (departed pc) \<and>
         (departed old \<longrightarrow> departed pc) \<and> (counted R old \<longrightarrow> counted R pc) \<and>
         (counted R pc \<longrightarrow> counted R old \<or> b_holding old))"

lemma flip_inv_move:
  assumes i: "flip_inv c R s" and x: "x < threadCount c" and m: "flip_shift R x pc s s'"
  shows "flip_inv c R s'"
proof -
  have place: "flip_place c R (f_parent s) s" using i by (simp add: flip_inv_def Let_def)
  have free: "gb_holding (f_parent s) \<Longrightarrow> \<not> b_holding (f_child s x)"
  proof -
    assume "gb_holding (f_parent s)"
    moreover have "int (bLock s) + of_bool (gb_holding (f_parent s)) + headcount (threadCount c) b_holding (f_child s) = 1"
      using i by (simp add: flip_inv_def Let_def)
    ultimately have "int (bLock s) + headcount (threadCount c) b_holding (f_child s) = 0" by simp
    then have "headcount (threadCount c) b_holding (f_child s) = 0"
      using headcount_nonneg [of "threadCount c" b_holding "f_child s"] by linarith
    from headcount_zero [OF this x] show "\<not> b_holding (f_child s x)" .
  qed
  have "flip_place c R (f_parent s) s'"
    using place m x free by (cases "f_parent s") (auto simp: flip_shift_def Let_def)
  moreover note H = headcount_move [OF x]
  from m have upd: "f_child s' = (f_child s)(x := pc)" "f_parent s' = f_parent s" "cont s' = cont s"
    unfolding flip_shift_def Let_def by blast+
  moreover have "\<forall>u<threadCount c. flip_locals R (((f_child s)(x := pc)) u)"
    "\<forall>u\<ge>threadCount c. ((f_child s)(x := pc)) u = FNone"
    using i m x by (simp_all add: flip_inv_def flip_shift_def Let_def)
  moreover have "int (bLock s') + of_bool (gb_holding (f_parent s)) + headcount (threadCount c) b_holding (f_child s') = 1"
    "int (contLock s') + of_bool (gcont_holding (f_parent s)) + headcount (threadCount c) cont_holding (f_child s') = 1"
    "f_count s' = int (threadCount c) - headcount (threadCount c) departed (f_child s')"
    using i m unfolding flip_inv_def flip_shift_def Let_def upd H by linarith+
  moreover have "int (cLock s') + of_bool (gc_holding (f_parent s)) + headcount (threadCount c) c_holding (f_child s') = 1"
    if "\<not> killing (f_parent s)"
    using that i m unfolding flip_inv_def flip_shift_def Let_def upd H by linarith
  moreover have "bCount s' = headcount (threadCount c) (counted R) (f_child s')" if "\<not> resetting (f_parent s)"
    using that i m unfolding flip_inv_def flip_shift_def Let_def upd H by linarith
  moreover have "cont s = flipped R" "R \<le> lineCount c" using i by (simp_all add: flip_inv_def Let_def)
  ultimately show ?thesis unfolding flip_inv_def Let_def by (simp only: upd) blast
qed

text \<open>In round \<open>R\<close> a child at work has \<^verbatim>\<open>k\<close> equal to \<open>R\<close>, and so has a child at the barrier.\<close>

lemma flip_round:
  assumes "proc_working c E R (flip_abs c R s)" and "x < threadCount c"
  shows "child_ok c R x (flip_abs_child R (f_child s x))"
  using assms by (simp add: proc_working_def flip_abs_def)

lemma flip_child_move:
  assumes i: "flip_inv c R s" and w: "proc_working c E R (flip_abs c R s)" and x: "x < threadCount c"
    and st: "flip_child_step c x s = Some s'"
  shows "\<exists>pc. flip_shift R x pc s s'"
proof -
  have ok: "child_ok c R x (flip_abs_child R (f_child s x))" using w x by (rule flip_round)
  have l: "flip_locals R (f_child s x)" and ct: "cont s = flipped R"
    using i x by (simp_all add: flip_inv_def Let_def)
  have s': "s' = the (flip_child_step c x s)" using st by simp
  have "flip_shift R x (f_child s' x) s s'"
  proof (cases "f_child s x")
    case (FEntry k y j f)
    with st ok l show ?thesis
      by (auto simp: flip_child_step_def flip_shift_def Let_def split: if_splits option.splits)
  qed (use st ok l ct in \<open>simp_all add: s' flip_child_step_def flip_shift_def Let_def split: if_splits\<close>)
  then show ?thesis ..
qed

lemma flip_abs_upd:
  "(\<lambda>u. flip_abs_child R ((f(x := pc)) u)) = (\<lambda>u. flip_abs_child R (f u))(x := flip_abs_child R pc)"
  by auto

text \<open>
  The same move seen in the program with the barrier: a step of that child, or no step where the
  child waits for the flip or leaves the count.
\<close>

fun at_flip :: "flip_pc \<Rightarrow> bool" where
  "at_flip FNone = False"
| "at_flip (FTest _ _) = False"
| "at_flip (FCols _ _ _) = False"
| "at_flip (FWait _ _ _) = False"
| "at_flip (FEntry _ _ _ _) = False"
| "at_flip (FPost _ _ _) = False"
| "at_flip _ = True"

lemma flip_child_refines:
  assumes i: "flip_inv c R s" and w: "proc_working c E R (flip_abs c R s)" and x: "x < threadCount c"
    and st: "flip_child_step c x s = Some s'"
  shows "if at_flip (f_child s x) then flip_abs c R s' = flip_abs c R s
         else child_step c x (flip_abs c R s) = Some (flip_abs c R s')"
proof -
  have ok: "child_ok c R x (flip_abs_child R (f_child s x))" using w x by (rule flip_round)
  have l: "flip_locals R (f_child s x)" using i x by (simp add: flip_inv_def Let_def)
  have s': "s' = the (flip_child_step c x s)" using st by simp
  note defs = s' flip_child_step_def child_step_def flip_abs_def child_goto_def flip_goto_def flip_abs_upd Let_def
  show ?thesis
  proof (cases "f_child s x")
    case (FEntry k y j f)
    with st ok l show ?thesis
      by (cases "update_entry (lineCount c) k y j (f_matrix s)") (simp_all add: defs fun_upd_idem del: fun_upd_apply split: if_splits)
  qed (use st ok l in \<open>simp_all add: defs fun_upd_idem del: fun_upd_apply split: if_splits\<close>)
qed

section \<open>The parent\<close>

fun looping :: "flip_parent_pc \<Rightarrow> bool" where
  "looping (GFork _) = False"
| "looping (GKill _) = False"
| "looping GDone = False"
| "looping GErrExit = False"
| "looping GDivZero = False"
| "looping _ = True"

lemma flip_abs_parent_loop:
  "looping pp \<Longrightarrow> flip_abs_parent c R pp = (if R < lineCount c then PBarrier R else PKill 0)"
  by (cases pp) (simp_all add: flip_abs_parent_def)

lemma flip_working:
  assumes "proc_inv c E (flip_abs c R s)" and i: "flip_inv c R s"
  shows "proc_working c E R (flip_abs c R s)"
proof -
  have "flip_place c R (f_parent s) s" "R \<le> lineCount c" using i by (simp_all add: flip_inv_def Let_def)
  with assms(1) show ?thesis
    by (cases "f_parent s") (auto simp: proc_inv_def flip_abs_def flip_abs_parent_def split: if_splits)
qed

text \<open>Inside the loop the parent only moves the locks, except where it inverts \<^verbatim>\<open>*cont\<close>.\<close>

lemma flip_abs_loop:
  assumes "looping (f_parent s)" and "looping (f_parent s')"
    and "f_matrix s' = f_matrix s" and "matrixLock s' = matrixLock s" and "f_child s' = f_child s"
  shows "flip_abs c R s' = flip_abs c R s"
  using assms by (simp add: flip_abs_def flip_abs_parent_loop)

text \<open>When all children are counted they are all at the barrier of round \<open>R\<close>.\<close>

lemma counted_at_barrier:
  assumes "counted R pc" and "child_ok c R x (flip_abs_child R pc)"
  shows "flip_abs_child R pc = CBarrier R" and "R < lineCount c"
    and "flip_abs_child (Suc R) pc = CTest (Suc R)" and "\<not> counted (Suc R) pc"
  using assms by (cases pc; simp)+

lemma departed_end: "departed pc \<Longrightarrow> child_ok c R x (flip_abs_child R pc) \<Longrightarrow> R = lineCount c"
  by (cases pc) simp_all

lemma counted_locals: "counted R pc \<Longrightarrow> flip_locals R pc \<Longrightarrow> flip_locals (Suc R) pc"
  by (cases pc) auto

lemma flip_inversion:
  assumes i: "flip_inv c R s" and w: "proc_working c E R (flip_abs c R s)" and T: "0 < threadCount c"
    and p: "f_parent s = GFlip p"
  defines "s' \<equiv> s\<lparr>cont := lnot (cont s), f_parent := GContPost (cont s)\<rparr>"
  shows "flip_inv c (Suc R) s'" and "(proc_step c)\<^sup>*\<^sup>* (flip_abs c R s) (flip_abs c (Suc R) s')"
proof -
  let ?T = "threadCount c" and ?n = "lineCount c"
  have all: "\<And>x. x < ?T \<Longrightarrow> counted R (f_child s x)" and cs: "cont s = flipped R"
    using i p by (simp_all add: flip_inv_def Let_def)
  note at = counted_at_barrier [OF all flip_round [OF w]]
  have n: "R < ?n" using at(2) T by blast
  show "flip_inv c (Suc R) s'"
    using i p n cs at(4) counted_locals [OF all] unfolding flip_inv_def Let_def
    by (simp add: s'_def)
  let ?a = "flip_abs c R s"
  let ?b = "?a\<lparr>p_child := (\<lambda>x. past_barrier (p_child ?a x)), p_parent := PTest (R + 1)\<rparr>"
  have "proc_barrier_step c ?a = Some ?b"
    using at(1) n by (simp add: proc_barrier_step_def flip_abs_def flip_abs_parent_loop p list_all_iff)
  then have 1: "proc_step c ?a ?b" by (rule proc_step.meet)
  have beyond: "\<And>x. ?T \<le> x \<Longrightarrow> f_child s x = FNone" using i by (simp add: flip_inv_def Let_def)
  have "past_barrier (flip_abs_child R (f_child s x)) = flip_abs_child (Suc R) (f_child s x)" for x
    using at(1,3) [of x] beyond [of x] by (cases "x < ?T") simp_all
  then have "parent_step c Forked ?b = Some (flip_abs c (Suc R) s')"
    by (simp add: parent_step_def flip_abs_def flip_abs_parent_loop s'_def)
  then have "proc_step c ?b (flip_abs c (Suc R) s')" by (rule proc_step.parent)
  with 1 show "(proc_step c)\<^sup>*\<^sup>* ?a (flip_abs c (Suc R) s')" by (meson converse_rtranclp_into_rtranclp r_into_rtranclp)
qed

definition next_round :: "nat \<Rightarrow> flip_parent_pc \<Rightarrow> nat" where
  "next_round R pp = (case pp of GFlip _ \<Rightarrow> Suc R | _ \<Rightarrow> R)"

lemma flip_fork_refines:
  assumes i: "flip_inv c R s" and st: "flip_parent_step c r s = Some s'" and GFork: "f_parent s = GFork x"
  shows "flip_inv c R s' \<and> (proc_step c)\<^sup>*\<^sup>* (flip_abs c R s) (flip_abs c R s')"
proof -
  let ?T = "threadCount c" and ?n = "lineCount c"
  note inv = flip_inv_def Let_def
  have res: "s' = the (flip_parent_step c r s)" using st by simp
  have go: "flip_inv c R s' \<Longrightarrow> (proc_step c)\<^sup>*\<^sup>* (flip_abs c R s) (flip_abs c R s') \<Longrightarrow> ?thesis" by blast
  from GFork have R: "R = 0" and x: "x \<le> ?T" "\<And>y. f_child s y = FNone \<longleftrightarrow> x \<le> y"
    using i by (simp_all add: inv)
  show ?thesis
  proof (cases "x < ?T")
    case True
    have "f_child s x = FNone" using x by blast
    then have none: "\<not> b_holding (f_child s x)" "\<not> cont_holding (f_child s x)" "\<not> c_holding (f_child s x)"
      "\<not> counted 0 (f_child s x)" "\<not> departed (f_child s x)"
      by simp_all
    show ?thesis
    proof (cases r)
      case Forked
      with GFork True have s': "s' = (flip_goto x (FTest 0 1) s)\<lparr>f_parent := GFork (x + 1)\<rparr>"
        by (simp add: res flip_parent_step_def)
      have "\<forall>y. ((f_child s)(x := FTest 0 1)) y = FNone \<longleftrightarrow> Suc x \<le> y" by (auto simp: x(2))
      then have "flip_inv c 0 s'"
        using i True none GFork R by (simp add: inv s' headcount_move flipped_def)
      moreover have "parent_step c Forked (flip_abs c 0 s) = Some (flip_abs c 0 s')"
        using GFork True
        by (simp add: parent_step_def flip_abs_def flip_abs_parent_def s' flip_abs_upd child_goto_def
            del: fun_upd_apply)
      ultimately show ?thesis
        using GFork R by (intro go) (simp_all add: next_round_def r_into_rtranclp proc_step.parent)
    next
      case ForkFailed
      with GFork True have s': "s' = s\<lparr>f_parent := GErrExit\<rparr>" by (simp add: res flip_parent_step_def)
      have "flip_inv c 0 s'" using i GFork R by (simp add: inv s')
      moreover have "parent_step c ForkFailed (flip_abs c 0 s) = Some (flip_abs c 0 s')"
        using GFork True by (simp add: parent_step_def flip_abs_def flip_abs_parent_def s')
      ultimately show ?thesis
        using GFork R by (intro go) (simp_all add: next_round_def r_into_rtranclp proc_step.parent)
    qed
  next
    case False
    note beyond = this
    show ?thesis
    proof (cases "?T = 0")
      case True
      with GFork have s': "s' = s\<lparr>f_parent := GDivZero\<rparr>" by (simp add: res flip_parent_step_def)
      have "flip_inv c 0 s'" using i GFork R True by (simp add: inv s')
      moreover have "parent_step c Forked (flip_abs c 0 s) = Some (flip_abs c 0 s')"
        using GFork True by (simp add: parent_step_def flip_abs_def flip_abs_parent_def s')
      ultimately show ?thesis
        using GFork R by (intro go) (simp_all add: r_into_rtranclp proc_step.parent)
    next
      case False
      with GFork beyond have s': "s' = s\<lparr>f_parent := GBWait 1\<rparr>" by (simp add: res flip_parent_step_def)
      have inv': "flip_inv c 0 s'" using i GFork R by (simp add: inv s' flipped_def)
      let ?b = "flip_abs c 0 s\<lparr>p_parent := PTest 0\<rparr>"
      have "parent_step c Forked (flip_abs c 0 s) = Some ?b" "parent_step c Forked ?b = Some (flip_abs c 0 s')"
        using GFork beyond False by (simp_all add: parent_step_def flip_abs_def flip_abs_parent_def s')
      then have "(proc_step c)\<^sup>*\<^sup>* (flip_abs c 0 s) (flip_abs c 0 s')"
        by (meson converse_rtranclp_into_rtranclp proc_step.parent r_into_rtranclp)
      with inv' show ?thesis using GFork R by (intro go) (simp_all add: next_round_def)
    qed
  qed
qed

lemma flip_kill_refines:
  assumes i: "flip_inv c R s" and st: "flip_parent_step c r s = Some s'" and GKill: "f_parent s = GKill z"
  shows "flip_inv c R s' \<and> (proc_step c)\<^sup>*\<^sup>* (flip_abs c R s) (flip_abs c R s')"
proof -
  let ?T = "threadCount c" and ?n = "lineCount c"
  note inv = flip_inv_def Let_def
  have res: "s' = the (flip_parent_step c r s)" using st by simp
  have go: "flip_inv c R s' \<Longrightarrow> (proc_step c)\<^sup>*\<^sup>* (flip_abs c R s) (flip_abs c R s') \<Longrightarrow> ?thesis" by blast
  show ?thesis
  proof (cases "z < ?T")
    case True
    with GKill have s': "s' = (flip_goto z FKilled s)\<lparr>f_parent := GKill (z + 1)\<rparr>"
      by (simp add: res flip_parent_step_def)
    have dep: "departed (f_child s z)" using i GKill True by (simp add: inv)
    then have "\<not> b_holding (f_child s z)" "\<not> cont_holding (f_child s z)" "\<not> counted R (f_child s z)"
      by (cases "f_child s z"; simp)+
    with dep have "flip_inv c R s'"
      using i True GKill by (simp add: inv s' headcount_move) auto
    moreover have "parent_step c Forked (flip_abs c R s) = Some (flip_abs c R s')"
      using GKill True
      by (simp add: parent_step_def flip_abs_def flip_abs_parent_def s' flip_abs_upd child_goto_def
          del: fun_upd_apply)
    ultimately show ?thesis
      using GKill by (intro go) (simp_all add: next_round_def r_into_rtranclp proc_step.parent)
  next
    case False
    with GKill have s': "s' = s\<lparr>f_parent := GDone\<rparr>" by (simp add: res flip_parent_step_def)
    have "flip_inv c R s'" using i GKill by (simp add: inv s') auto
    moreover have "parent_step c Forked (flip_abs c R s) = Some (flip_abs c R s')"
      using GKill False by (simp add: parent_step_def flip_abs_def flip_abs_parent_def s')
    ultimately show ?thesis
      using GKill by (intro go) (simp_all add: next_round_def r_into_rtranclp proc_step.parent)
  qed
qed

lemma flip_parent_refines:
  assumes i: "flip_inv c R s" and w: "proc_working c E R (flip_abs c R s)" and T: "0 < threadCount c"
    and st: "flip_parent_step c r s = Some s'"
  shows "flip_inv c (next_round R (f_parent s)) s' \<and>
         (proc_step c)\<^sup>*\<^sup>* (flip_abs c R s) (flip_abs c (next_round R (f_parent s)) s')"
proof -
  let ?T = "threadCount c" and ?n = "lineCount c"
  note inv = flip_inv_def Let_def
  have res: "s' = the (flip_parent_step c r s)" using st by simp
  have go: "flip_inv c R s' \<Longrightarrow> (proc_step c)\<^sup>*\<^sup>* (flip_abs c R s) (flip_abs c R s') \<Longrightarrow>
      next_round R (f_parent s) = R \<Longrightarrow> ?thesis" by simp
  have stay: "flip_inv c R s' \<Longrightarrow> flip_abs c R s' = flip_abs c R s \<Longrightarrow>
      next_round R (f_parent s) = R \<Longrightarrow> ?thesis" by simp
  show ?thesis
  proof (cases "f_parent s")
    case (GFork x)
    from flip_fork_refines [OF i st GFork] GFork show ?thesis by (simp add: next_round_def)
  next
    case (GCheck p)
    then have "s' = s\<lparr>f_parent := (if bCount s = int ?T then GContWait p else GBPost p)\<rparr>"
      and b: "bCount s = headcount ?T (counted R) (f_child s)"
      using st i by (simp_all add: flip_parent_step_def inv)
    with i GCheck headcount_full [of ?T "counted R" "f_child s"] show ?thesis
      by (intro stay) (simp_all add: inv next_round_def flip_abs_loop)
  next
    case (GFlip p)
    then have "s' = s\<lparr>cont := lnot (cont s), f_parent := GContPost (cont s)\<rparr>"
      using st by (simp add: flip_parent_step_def)
    with flip_inversion [OF i w T GFlip] GFlip show ?thesis by (simp add: next_round_def)
  next
    case (GCount p)
    then have s': "s' = s\<lparr>f_parent := GCPost p (f_count s = 0)\<rparr>"
      using st by (simp add: flip_parent_step_def)
    have "f_count s = int ?T - headcount ?T departed (f_child s)" using i by (simp add: inv)
    then have d: "f_count s = 0 \<Longrightarrow> x < ?T \<Longrightarrow> departed (f_child s x)" for x
      using headcount_full [of ?T departed "f_child s" x] by simp
    then have "f_count s = 0 \<Longrightarrow> R = ?n" using departed_end [OF d flip_round [OF w]] T by blast
    with i GCount d show ?thesis by (intro stay) (simp_all add: inv s' next_round_def flip_abs_loop)
  next
    case (GKill z)
    from flip_kill_refines [OF i st GKill] GKill show ?thesis by (simp add: next_round_def)
  next
    case (GCPost p d)
    with i st have s': "s' = s\<lparr>cLock := cLock s + 1, f_parent := (if d then GKill 0 else GBWait p)\<rparr>"
      and d: "d \<Longrightarrow> R = ?n" "d \<Longrightarrow> (\<forall>x<?T. departed (f_child s x))" "p = flipped (Suc R)"
      by (simp_all add: res flip_parent_step_def inv)
    have "flip_inv c R s'" using i GCPost d by (cases d) (simp_all add: inv s')
    moreover have "flip_abs c R s' = flip_abs c R s"
      using GCPost d(1) by (cases d) (simp_all add: s' flip_abs_def flip_abs_parent_def)
    ultimately show ?thesis using GCPost by (intro stay) (simp_all add: next_round_def)
  next
    case (GBWait p)
    with i st show ?thesis
      by (intro stay) (simp_all add: res inv next_round_def flip_parent_step_def of_nat_diff flip_abs_loop split: if_splits)
  next
    case (GContWait p)
    with i st show ?thesis
      by (intro stay) (simp_all add: res inv next_round_def flip_parent_step_def of_nat_diff flip_abs_loop split: if_splits)
  next
    case (GCWait p)
    with i st show ?thesis
      by (intro stay) (simp_all add: res inv next_round_def flip_parent_step_def of_nat_diff flip_abs_loop split: if_splits)
  next
    case (GContPost p)
    with i have "flip_inv c R s'" by (simp add: res inv flip_parent_step_def headcount_none)
    with GContPost show ?thesis by (intro stay) (simp_all add: res next_round_def flip_parent_step_def flip_abs_loop)
  next
    case (GReset p)
    with i have "flip_inv c R s'" by (simp add: res inv flip_parent_step_def headcount_none)
    with GReset show ?thesis by (intro stay) (simp_all add: res next_round_def flip_parent_step_def flip_abs_loop)
  next
    case (GBPost p)
    with i have "flip_inv c R s'" by (simp add: res inv flip_parent_step_def headcount_none)
    with GBPost show ?thesis by (intro stay) (simp_all add: res next_round_def flip_parent_step_def flip_abs_loop)
  qed (use st in \<open>simp_all add: flip_parent_step_def\<close>)
qed

section \<open>The refinement\<close>

text \<open>A state of this program stands for one the program with the barrier reaches.\<close>

definition flip_stands_for :: "proc_cfg \<Rightarrow> int_matrix \<Rightarrow> flip_state \<Rightarrow> nat \<Rightarrow> bool" where
  "flip_stands_for c m s R \<longleftrightarrow> (proc_step c)\<^sup>*\<^sup>* (proc_init m) (flip_abs c R s) \<and> flip_inv c R s"

lemma flip_abs_init: "flip_abs c 0 (flip_init c m) = proc_init m"
  by (simp add: flip_abs_def flip_init_def proc_init_def flip_abs_parent_def)

lemma flip_stands_for_init: "flip_stands_for c m (flip_init c m) 0"
proof -
  have "flip_inv c 0 (flip_init c m)"
    by (simp add: flip_inv_def Let_def flip_init_def headcount_none)
  then show ?thesis by (simp add: flip_stands_for_def flip_abs_init)
qed

lemma flip_stands_for_working:
  assumes "flip_stands_for c m s R" and "int_fits (lineCount c) m"
  shows "flip_inv c R s" and "proc_working c (int_edge (lineCount c) m) R (flip_abs c R s)"
  using assms flip_working [OF proc_inv_reachable [OF _ assms(2)]] by (auto simp: flip_stands_for_def)

lemma flip_stands_for_child:
  assumes a: "flip_stands_for c m s R" and fit: "int_fits (lineCount c) m"
    and st: "x < threadCount c" "flip_child_step c x s = Some s'"
  shows "flip_stands_for c m s' R"
proof -
  note iw = flip_stands_for_working [OF a fit]
  from flip_child_move [OF iw st] flip_inv_move [OF iw(1) st(1)] have "flip_inv c R s'" by blast
  moreover have "(proc_step c)\<^sup>*\<^sup>* (flip_abs c R s) (flip_abs c R s')"
    using flip_child_refines [OF iw st] proc_step.child [OF st(1)] by (auto split: if_splits)
  ultimately show ?thesis using a unfolding flip_stands_for_def by (meson rtranclp_trans)
qed

lemma flip_stands_for_parent:
  assumes a: "flip_stands_for c m s R" and fit: "int_fits (lineCount c) m" and T: "0 < threadCount c"
    and st: "flip_parent_step c r s = Some s'"
  shows "flip_stands_for c m s' (next_round R (f_parent s))"
  using flip_parent_refines [OF flip_stands_for_working [OF a fit] T st] a
  unfolding flip_stands_for_def by (meson rtranclp_trans)

lemma flip_stands_for_step:
  assumes a: "flip_stands_for c m s R" and fit: "int_fits (lineCount c) m" and T: "0 < threadCount c"
    and st: "flip_step c s s'"
  shows "\<exists>R'. flip_stands_for c m s' R' \<and> (proc_step c)\<^sup>*\<^sup>* (flip_abs c R s) (flip_abs c R' s')"
proof -
  note iw = flip_stands_for_working [OF a fit]
  from st show ?thesis
  proof cases
    case (child x)
    have "(proc_step c)\<^sup>*\<^sup>* (flip_abs c R s) (flip_abs c R s')"
      using flip_child_refines [OF iw child] proc_step.child [OF child(1)] by (auto split: if_splits)
    with flip_stands_for_child [OF a fit child] show ?thesis by blast
  next
    case (parent r)
    from flip_parent_refines [OF iw T parent] flip_stands_for_parent [OF a fit T parent] show ?thesis by blast
  qed
qed

text \<open>The refinement, for the matrices and numbers of children the program is meant for.\<close>

definition flip_refines :: "proc_cfg \<Rightarrow> int_matrix \<Rightarrow> flip_state \<Rightarrow> proc_state \<Rightarrow> bool" where
  "flip_refines c m s a \<longleftrightarrow>
     (int_fits (lineCount c) m \<and> 0 < threadCount c \<longrightarrow> (\<exists>R. a = flip_abs c R s \<and> flip_stands_for c m s R))"

interpretation flip: simulation "flip_init c m" "flip_step c" "proc_init m" "proc_step c" "flip_refines c m" for c m
proof unfold_locales
  show "flip_refines c m (flip_init c m) (proc_init m)"
    using flip_stands_for_init [of c m] flip_abs_init [of c m] unfolding flip_refines_def by metis
next
  fix a s s'
  assume r: "(proc_step c)\<^sup>*\<^sup>* (proc_init m) a" and a: "flip_refines c m s a" and st: "flip_step c s s'"
  show "\<exists>a'. (proc_step c)\<^sup>*\<^sup>* a a' \<and> flip_refines c m s' a'"
  proof (cases "int_fits (lineCount c) m \<and> 0 < threadCount c")
    case True
    then obtain R where R: "a = flip_abs c R s" "flip_stands_for c m s R" using a by (auto simp: flip_refines_def)
    from True have fit: "int_fits (lineCount c) m" and T: "0 < threadCount c" by simp_all
    obtain R' where R': "flip_stands_for c m s' R'" and run: "(proc_step c)\<^sup>*\<^sup>* a (flip_abs c R' s')"
      using flip_stands_for_step [OF R(2) fit T st] unfolding R(1) by (elim exE conjE)
    from R' have "flip_refines c m s' (flip_abs c R' s')" by (auto simp: flip_refines_def)
    with run show ?thesis by (intro exI conjI)
  next
    case False
    then have "flip_refines c m s' a" by (auto simp: flip_refines_def)
    then show ?thesis by blast
  qed
qed

lemma flip_stands_for_reachable:
  assumes "(flip_step c)\<^sup>*\<^sup>* (flip_init c m) s" and "int_fits (lineCount c) m" and "0 < threadCount c"
  shows "\<exists>R. flip_stands_for c m s R"
  using flip.reachable_stands_for [OF assms(1)] assms(2,3) by (auto simp: flip_refines_def)

section \<open>Where the shared words lie\<close>

text \<open>
  The segment has \<^verbatim>\<open>size\<close> bytes; the words are placed by adding byte counts to a pointer to \<^verbatim>\<open>int\<close>, so
  every summand counts four times. Each entry is the offset and the size in bytes of \<^verbatim>\<open>matrixLock\<close>,
  \<^verbatim>\<open>cLock\<close>, \<^verbatim>\<open>count\<close>, \<^verbatim>\<open>bLock\<close>, \<^verbatim>\<open>bCount\<close>, \<^verbatim>\<open>cont\<close> and \<^verbatim>\<open>contLock\<close>; \<open>sem\<close> is \<^verbatim>\<open>sizeof(sem_t)\<close>, a parameter.
\<close>

definition test_size :: "nat \<Rightarrow> nat \<Rightarrow> nat" where
  "test_size sem n = 4 * n * n + sem * 4 + 4 * 4"

definition test_layout :: "nat \<Rightarrow> nat \<Rightarrow> (nat \<times> nat) list" where
  "test_layout sem n =
     [(4 * (4 * n * n), sem),
      (4 * (4 * n * n + sem), sem),
      (4 * (4 * n * n + 2 * sem), 4),
      (4 * (4 * n * n + 2 * sem + 4), sem),
      (4 * (4 * n * n + 3 * sem + 4), 4),
      (4 * (4 * n * n + 3 * sem + 2 * 4), 4),
      (4 * (4 * n * n + 3 * sem + 3 * 4), sem)]"

text \<open>What the kernel maps for a segment of \<open>sz\<close> bytes: whole pages of 4096 bytes.\<close>

definition mapped_bytes :: "nat \<Rightarrow> nat" where
  "mapped_bytes sz = (sz + 4095) div 4096 * 4096"

section \<open>Properties\<close>


text \<open>
  When the number of children divides the number of nodes and no \<^verbatim>\<open>fork\<close> fails, the parent of
  \<^verbatim>\<open>wtc_proc_test\<close> prints exactly the transitive closure of the input graph.
\<close>

theorem flip_computes_closure:
  assumes "(flip_step c)\<^sup>*\<^sup>* (flip_init c m) s" and "f_parent s = GDone"
    and "int_fits (lineCount c) m" and "0 < threadCount c" and "threadCount c dvd lineCount c"
    and "i < lineCount c" and "j < lineCount c"
  shows "int_edge (lineCount c) (f_matrix s) i j \<longleftrightarrow>
         path_closure (lineCount c) (int_edge (lineCount c) m) i j"
proof -
  obtain R where r: "(proc_step c)\<^sup>*\<^sup>* (proc_init m) (flip_abs c R s)"
    using flip_stands_for_reachable [OF assms(1,3,4)] by (auto simp: flip_stands_for_def)
  have d: "p_parent (flip_abs c R s) = PDone" using assms(2) by (simp add: flip_abs_def flip_abs_parent_def)
  from agreeD [OF proc_done_graph [OF proc_inv_reachable [OF r assms(3)] d] assms(6,7)]
    wrounds_closure [OF columns_covered [OF assms(5)] assms(6,7)]
  show ?thesis by (simp add: proc_graph_def flip_abs_def)
qed

text \<open>
  With the 32 bytes of glibc's \<^verbatim>\<open>sem_t\<close> on x86-64 the last of the seven shared words of \<^verbatim>\<open>wtc_proc_test\<close>
  always lies behind the segment asked for; all of them are on a mapped page exactly for graphs of
  at most 15 vertices.
\<close>

theorem test_words_mapped:
  "test_size 32 n \<le> fst (last (test_layout 32 n)) \<and>
   (list_all (\<lambda>(p, w). p + w \<le> mapped_bytes (test_size 32 n)) (test_layout 32 n) \<longleftrightarrow> n \<le> 15)"
proof -
  let ?m = "mapped_bytes (144 + 4 * n * n)"
  have l: "list_all (\<lambda>(p, w). p + w \<le> mapped_bytes (test_size 32 n)) (test_layout 32 n) \<longleftrightarrow>
      16 * (n * n) + 464 \<le> ?m"
    by (auto simp: test_size_def test_layout_def)
  have "16 * (n * n) + 464 \<le> ?m \<longleftrightarrow> n \<le> 15"
  proof (cases "n \<le> 15")
    case True
    then have "n * n \<le> 15 * 15" by (intro mult_mono) auto
    moreover have "1 \<le> (144 + 4 * n * n + 4095) div (4096 :: nat)" using div_le_mono [of 4096 _ 4096] by simp
    then have "4096 \<le> ?m" unfolding mapped_bytes_def by linarith
    ultimately have "16 * (n * n) + 464 \<le> ?m" by linarith
    then show ?thesis using True by simp
  next
    case False
    then have "16 * 16 \<le> n * n" by (intro mult_mono) auto
    then have big: "256 \<le> n * n" by simp
    have "\<not> 16 * (n * n) + 464 \<le> ?m"
    proof (cases "n * n \<le> 900")
      case True
      then have "144 + 4 * n * n + 4095 < 2 * (4096 :: nat)" by simp
      then have "(144 + 4 * n * n + 4095) div (4096 :: nat) < 2" by (rule less_mult_imp_div_less)
      then have "?m \<le> 4096" unfolding mapped_bytes_def by linarith
      then show ?thesis using big by linarith
    next
      case False
      have "?m \<le> 144 + 4 * n * n + 4095" unfolding mapped_bytes_def by (rule div_times_less_eq_dividend)
      then show ?thesis using False by (simp add: mult.assoc)
    qed
    then show ?thesis using False by simp
  qed
  with l show ?thesis by (simp add: test_size_def test_layout_def)
qed

text \<open>The seven words and the matrix do not overlap.\<close>

lemma test_words_apart:
  "4 * (n * n) \<le> fst (hd (test_layout sem n)) \<and>
   (4 \<le> sem \<longrightarrow> sorted_wrt (\<lambda>(p, w) (q, v). p + w \<le> q) (test_layout sem n))"
  by (auto simp: test_layout_def)

section \<open>Concrete runs\<close>

definition flip_sample_work :: "nat \<Rightarrow> flip_mover list" where
  "flip_sample_work steps = replicate steps (FlipChild 0) @ replicate steps (FlipChild 1)"

definition flip_sample_run :: "flip_mover list" where
  "flip_sample_run =
     replicate 3 (FlipParent Forked) @
     concat (replicate 2 (flip_sample_work 15 @ replicate 10 (FlipParent Forked) @ flip_sample_work 4)) @
     flip_sample_work 4 @ replicate 9 (FlipParent Forked)"

lemma flip_sample_end:
  "map_option (\<lambda>s. (f_parent s, f_matrix s)) (flip_run proc_sample flip_sample_run (flip_init proc_sample [0, 1, 1, 0])) =
   Some (GDone, [1, 1, 1, 1])"
  by code_simp

lemma flip_sample_reached:
  "\<exists>s. (flip_step proc_sample)\<^sup>*\<^sup>* (flip_init proc_sample [0, 1, 1, 0]) s \<and> f_parent s = GDone \<and> f_matrix s = [1, 1, 1, 1]"
  using flip_sample_end by (auto intro: flip_run_steps)


theorem flip_computes_closure_witness:
  "\<exists>s. (flip_step proc_sample)\<^sup>*\<^sup>* (flip_init proc_sample [0, 1, 1, 0]) s \<and> f_parent s = GDone \<and>
       (int_edge 2 (f_matrix s) 1 1 \<longleftrightarrow> path_closure 2 (int_edge 2 [0, 1, 1, 0]) 1 1)"
proof -
  obtain s where s: "(flip_step proc_sample)\<^sup>*\<^sup>* (flip_init proc_sample [0, 1, 1, 0]) s" "f_parent s = GDone"
    using flip_sample_reached by blast
  have "int_edge 2 (f_matrix s) 1 1 \<longleftrightarrow> path_closure 2 (int_edge 2 [0, 1, 1, 0]) 1 1"
    using flip_computes_closure [OF s proc_sample_fits, of 1 1] by (simp add: proc_sample_def)
  with s show ?thesis by blast
qed

end
