(* ===== verification/Flip_Progress.thy ===== *)
theory Flip_Progress
  imports Flip_Barrier
begin

text \<open>
  Progress of \<^verbatim>\<open>wtc_proc_test.c\<close>. Its processes poll, so runs that never end exist; what is shown is that
  the end stays within reach: from every state the program can be in without a failed \<^verbatim>\<open>fork\<close> some
  schedule brings the parent to the printed result. The measure counts the inversions of \<^verbatim>\<open>*cont\<close>
  still to come, the work left to the children, and the way of the parent to the next place where
  it is needed.
\<close>

section \<open>Work left to a child\<close>

text \<open>
  The steps left to a child that waits for the flip, or that leaves the count. A child that has read
  the old value after its release must read once more.
\<close>

fun flip_steps :: "nat \<Rightarrow> flip_pc \<Rightarrow> nat" where
  "flip_steps R (FBWait k f) = 10"
| "flip_steps R (FBInc k f) = 9"
| "flip_steps R (FBPost k f) = 8"
| "flip_steps R (FContPost k f t) = (if k < R \<and> t \<noteq> f then 6 else 2)"
| "flip_steps R (FSpin k f t) = (if k < R \<and> t \<noteq> f then 5 else 1)"
| "flip_steps R (FContWait k f) = (if k < R then 4 else 0)"
| "flip_steps R (FContRead k f) = 3"
| "flip_steps R FCWait = 3"
| "flip_steps R FCDec = 2"
| "flip_steps R FCPost = 1"
| "flip_steps R _ = 0"

lemma flip_steps_bound: "flip_steps R pc \<le> 10"
  by (cases pc) simp_all

definition flip_left :: "proc_cfg \<Rightarrow> nat \<Rightarrow> nat \<Rightarrow> flip_pc \<Rightarrow> nat" where
  "flip_left c R x pc = 20 * child_left c x (flip_abs_child R pc) + flip_steps R pc"

fun polling :: "nat \<Rightarrow> flip_pc \<Rightarrow> bool" where
  "polling R (FContWait k f) \<longleftrightarrow> R \<le> k"
| "polling R _ \<longleftrightarrow> False"

lemma flip_left_decreases:
  assumes i: "flip_inv c R s" and w: "proc_working c E R (flip_abs c R s)" and x: "x < threadCount c"
    and st: "flip_child_step c x s = Some s'" and np: "\<not> polling R (f_child s x)"
  shows "flip_left c R x (f_child s' x) < flip_left c R x (f_child s x)"
proof (cases "at_flip (f_child s x)")
  case True
  with flip_child_refines [OF i w x st] have "flip_abs c R s' = flip_abs c R s" by simp
  from arg_cong [OF this, of "\<lambda>a. p_child a x"]
  have same: "flip_abs_child R (f_child s' x) = flip_abs_child R (f_child s x)" by (simp add: flip_abs_def)
  have ok: "child_ok c R x (flip_abs_child R (f_child s x))" using w x by (rule flip_round)
  have l: "flip_locals R (f_child s x)" and ct: "cont s = flipped R"
    using i x by (simp_all add: flip_inv_def Let_def)
  have res: "s' = the (flip_child_step c x s)" using st by simp
  have "flip_steps R (f_child s' x) < flip_steps R (f_child s x)"
    using True st ok l ct np
    by (cases "f_child s x") (simp_all add: res flip_child_step_def Let_def split: if_splits)
  then show ?thesis by (simp add: flip_left_def same)
next
  case False
  with flip_child_refines [OF i w x st]
  have "child_step c x (flip_abs c R s) = Some (flip_abs c R s')" by simp
  from child_decreases [OF _ this, of R] flip_round [OF w x]
  have "child_left c x (flip_abs_child R (f_child s' x)) < child_left c x (flip_abs_child R (f_child s x))"
    by (simp add: flip_abs_def)
  then show ?thesis using flip_steps_bound [of R "f_child s' x"] by (simp add: flip_left_def)
qed

section \<open>Who can move\<close>

lemma flip_child_enabled:
  assumes "f_child s x \<notin> {FNone, FExit, FKilled, FFault}"
  shows "(\<exists>s'. flip_child_step c x s = Some s') \<or>
    matrixLock s = 0 \<and> (\<exists>k y f. f_child s x = FWait k y f) \<or>
    bLock s = 0 \<and> (\<exists>k f. f_child s x = FBWait k f) \<or>
    contLock s = 0 \<and> (\<exists>k f. f_child s x = FContWait k f) \<or>
    cLock s = 0 \<and> f_child s x = FCWait"
  using assms by (cases "f_child s x") (simp_all add: flip_child_step_def Let_def split: option.splits)

text \<open>A child that holds a lock moves, and is not polling.\<close>

lemma holder_enabled:
  assumes "b_holding (f_child s x) \<or> cont_holding (f_child s x) \<or> c_holding (f_child s x)"
  shows "\<exists>s'. flip_child_step c x s = Some s'" and "\<not> polling R (f_child s x)"
  using assms by (cases "f_child s x"; simp add: flip_child_step_def)+

lemma matrix_holder_enabled:
  assumes "holding (flip_abs_child R (f_child s x))" and "child_ok c R x (flip_abs_child R (f_child s x))"
  shows "\<exists>s'. flip_child_step c x s = Some s'" and "\<not> polling R (f_child s x)"
  using assms
  by (cases "f_child s x"; simp add: flip_child_step_def Let_def split: if_splits option.splits)+

text \<open>A child moves that is not polling.\<close>

definition child_can_move :: "proc_cfg \<Rightarrow> nat \<Rightarrow> flip_state \<Rightarrow> bool" where
  "child_can_move c R s \<longleftrightarrow>
     (\<exists>x<threadCount c. \<not> polling R (f_child s x) \<and> (\<exists>s'. flip_child_step c x s = Some s'))"

lemma lock_holder_moves:
  assumes "flip_inv c R s"
  shows "bLock s = 0 \<Longrightarrow> \<not> gb_holding (f_parent s) \<Longrightarrow> child_can_move c R s"
    and "contLock s = 0 \<Longrightarrow> \<not> gcont_holding (f_parent s) \<Longrightarrow> child_can_move c R s"
    and "cLock s = 0 \<Longrightarrow> \<not> gc_holding (f_parent s) \<Longrightarrow> \<not> killing (f_parent s) \<Longrightarrow> child_can_move c R s"
proof -
  have go: "0 < headcount (threadCount c) H (f_child s) \<Longrightarrow>
      (\<And>pc. H pc \<Longrightarrow> b_holding pc \<or> cont_holding pc \<or> c_holding pc) \<Longrightarrow> child_can_move c R s" for H
    using headcount_pos [of "threadCount c" H "f_child s"] holder_enabled(1) [of s _ c] holder_enabled(2) [of s _ R]
    unfolding child_can_move_def by blast
  note inv = assms [unfolded flip_inv_def Let_def]
  show "bLock s = 0 \<Longrightarrow> \<not> gb_holding (f_parent s) \<Longrightarrow> child_can_move c R s"
    by (rule go [of b_holding]) (use inv in simp_all)
  show "contLock s = 0 \<Longrightarrow> \<not> gcont_holding (f_parent s) \<Longrightarrow> child_can_move c R s"
    by (rule go [of cont_holding]) (use inv in simp_all)
  show "cLock s = 0 \<Longrightarrow> \<not> gc_holding (f_parent s) \<Longrightarrow> \<not> killing (f_parent s) \<Longrightarrow> child_can_move c R s"
    by (rule go [of c_holding]) (use inv in simp_all)
qed

text \<open>With the parent at the start of its loop, a child that is neither counted nor departed lets a child move.\<close>

lemma waiting_parent_child_moves:
  assumes a: "flip_stands_for c m s R" and fit: "int_fits (lineCount c) m" and p: "f_parent s = GBWait p"
    and x: "x < threadCount c" and nc: "\<not> counted R (f_child s x)" and nd: "\<not> departed (f_child s x)"
  shows "child_can_move c R s"
proof -
  note iw = flip_stands_for_working [OF a fit]
  have sync: "proc_sync c (int_edge (lineCount c) m) (flip_abs c R s)"
    using a proc_sync_reachable [OF _ fit] by (simp add: flip_stands_for_def)
  have ok: "child_ok c R u (flip_abs_child R (f_child s u))" if "u < threadCount c" for u
    using iw(2) that by (rule flip_round)
  have "flip_abs_child R (f_child s x) \<noteq> CNone"
    using sync x p by (simp add: proc_sync_def proc_created_def flip_abs_def flip_abs_parent_loop split: if_splits)
  then have pc: "f_child s x \<notin> {FNone, FExit, FKilled, FFault}" using ok [OF x] nd by auto
  have np: "\<not> polling R (f_child s x)" using nc by (cases "f_child s x") simp_all
  note free = lock_holder_moves [OF iw(1)]
  have matrix: "child_can_move c R s" if "matrixLock s = 0"
  proof -
    have "sem_counts (threadCount c) holding 0 (\<lambda>u. flip_abs_child R (f_child s u))"
      using sync that by (simp add: proc_sync_def sem_inv_def flip_abs_def)
    from sem_counts_held [OF this] obtain u where
      "u < threadCount c" "holding (flip_abs_child R (f_child s u))" by blast
    with matrix_holder_enabled [OF _ ok] show ?thesis unfolding child_can_move_def by blast
  qed
  from flip_child_enabled [OF pc, of c] show ?thesis
    using matrix free p x np unfolding child_can_move_def by auto
qed

section \<open>The measure\<close>

text \<open>
  How far the parent is from the place where it is needed: inverting \<^verbatim>\<open>*cont\<close> when all children are
  counted, leaving the loop when all have departed, the start of the loop otherwise.
\<close>

fun loop_place :: "flip_parent_pc \<Rightarrow> nat" where
  "loop_place (GCheck _) = 1"
| "loop_place (GContWait _) = 2"
| "loop_place (GFlip _) = 3"
| "loop_place (GContPost _) = 4"
| "loop_place (GReset _) = 5"
| "loop_place (GBPost _) = 6"
| "loop_place (GCWait _) = 7"
| "loop_place (GCount _) = 8"
| "loop_place (GCPost _ _) = 9"
| "loop_place _ = 0"

definition loop_left :: "proc_cfg \<Rightarrow> nat \<Rightarrow> flip_state \<Rightarrow> nat" where
  "loop_left c R s =
     (if \<forall>x<threadCount c. departed (f_child s x)
      then (case f_parent s of GCPost _ d \<Rightarrow> if d then 0 else 10 | pp \<Rightarrow> 9 - loop_place pp)
      else if \<forall>x<threadCount c. counted R (f_child s x) then (13 - loop_place (f_parent s)) mod 10
      else (10 - loop_place (f_parent s)) mod 10)"

definition flip_phase :: "proc_cfg \<Rightarrow> flip_parent_pc \<Rightarrow> nat" where
  "flip_phase c pp =
     (case pp of GFork x \<Rightarrow> threadCount c - x + threadCount c + 4 | GKill z \<Rightarrow> threadCount c - z + 1
      | GDone \<Rightarrow> 0 | GErrExit \<Rightarrow> 0 | GDivZero \<Rightarrow> 0 | _ \<Rightarrow> threadCount c + 3)"

definition flip_order :: "proc_cfg \<Rightarrow> ((flip_state \<times> nat) \<times> (flip_state \<times> nat)) set" where
  "flip_order c =
     measures [\<lambda>(s, R). flip_phase c (f_parent s), \<lambda>(s, R). lineCount c - R,
       \<lambda>(s, R). \<Sum>x<threadCount c. flip_left c R x (f_child s x), \<lambda>(s, R). loop_left c R s]"

lemma wf_flip_order: "wf (flip_order c)"
  by (simp add: flip_order_def)

text \<open>A move that the schedule chooses: the measure decreases and no \<^verbatim>\<open>fork\<close> fails.\<close>

definition flip_advances :: "proc_cfg \<Rightarrow> int_matrix \<Rightarrow> nat \<Rightarrow> flip_state \<Rightarrow> bool" where
  "flip_advances c m R s \<longleftrightarrow>
     (\<exists>s' R'. flip_step c s s' \<and> flip_stands_for c m s' R' \<and> ((s', R'), (s, R)) \<in> flip_order c \<and>
        f_parent s' \<noteq> GErrExit)"

lemma child_advances:
  assumes a: "flip_stands_for c m s R" and fit: "int_fits (lineCount c) m"
    and nd: "f_parent s \<noteq> GErrExit" and ch: "child_can_move c R s"
  shows "flip_advances c m R s"
proof -
  obtain x s' where x: "x < threadCount c" "\<not> polling R (f_child s x)" and st: "flip_child_step c x s = Some s'"
    using ch by (auto simp: child_can_move_def)
  note iw = flip_stands_for_working [OF a fit]
  obtain pc where m: "flip_shift R x pc s s'" using flip_child_move [OF iw x(1) st] by blast
  then have pcs: "f_child s' = (f_child s)(x := pc)" "f_parent s' = f_parent s"
    by (simp_all add: flip_shift_def Let_def)
  have "flip_left c R x pc < flip_left c R x (f_child s x)"
    using flip_left_decreases [OF iw x(1) st x(2)] by (simp add: pcs)
  from sum_one_less [where g = "flip_left c R", OF pcs(1) x(1) this]
  have "((s', R), (s, R)) \<in> flip_order c" by (simp add: flip_order_def pcs(2))
  then show ?thesis
    using flip_step.child [OF x(1) st] flip_stands_for_child [OF a fit x(1) st] nd
    unfolding flip_advances_def pcs(2) [symmetric] by blast
qed

lemma parent_advances:
  assumes a: "flip_stands_for c m s R" and fit: "int_fits (lineCount c) m" and T: "0 < threadCount c"
    and st: "flip_parent_step c Forked s = Some s'"
    and o: "((s', next_round R (f_parent s)), (s, R)) \<in> flip_order c"
  shows "flip_advances c m R s"
proof -
  have "f_parent s' \<noteq> GErrExit"
    using st by (cases "f_parent s") (auto simp: flip_parent_step_def split: if_splits)
  then show ?thesis
    using flip_step.parent [OF st] flip_stands_for_parent [OF a fit T st] o
    unfolding flip_advances_def by blast
qed

section \<open>From every state the measure can decrease\<close>

lemma flip_phase_loop: "looping pp \<Longrightarrow> flip_phase c pp = threadCount c + 3"
  by (cases pp) (simp_all add: flip_phase_def)

lemma loop_order:
  assumes "looping (f_parent s)" and "looping (f_parent s')" and "f_child s' = f_child s"
    and "loop_left c R s' < loop_left c R s"
  shows "((s', R), (s, R)) \<in> flip_order c"
  using assms by (simp add: flip_order_def flip_phase_loop)

text \<open>What the counters say when all children are counted, or all have departed.\<close>

lemma all_counted:
  assumes "flip_stands_for c m s R" and fit: "int_fits (lineCount c) m" and T: "0 < threadCount c"
    and all: "\<forall>x<threadCount c. counted R (f_child s x)"
  shows "R < lineCount c" and "\<not> (\<forall>x<threadCount c. departed (f_child s x))"
    and "\<not> resetting (f_parent s) \<Longrightarrow> bCount s = int (threadCount c)"
proof -
  note iw = flip_stands_for_working [OF assms(1) fit]
  have ok: "child_ok c R 0 (flip_abs_child R (f_child s 0))" using iw(2) T by (rule flip_round)
  show "R < lineCount c" using counted_at_barrier(2) [OF _ ok] all T by blast
  with departed_end [OF _ ok] T show "\<not> (\<forall>x<threadCount c. departed (f_child s x))" by blast
  show "\<not> resetting (f_parent s) \<Longrightarrow> bCount s = int (threadCount c)"
    using iw(1) headcount_all [of "threadCount c" "counted R" "f_child s"] all by (simp add: flip_inv_def Let_def)
qed

lemma not_all_counted:
  assumes "flip_inv c R s" and "\<not> (\<forall>x<threadCount c. counted R (f_child s x))" and "\<not> resetting (f_parent s)"
  shows "bCount s \<noteq> int (threadCount c)"
  using assms headcount_full [of "threadCount c" "counted R" "f_child s"] by (auto simp: flip_inv_def Let_def)

lemma all_departed:
  assumes "flip_inv c R s" and "\<forall>x<threadCount c. departed (f_child s x)"
  shows "f_count s = 0"
  using assms headcount_all [of "threadCount c" departed "f_child s"] by (simp add: flip_inv_def Let_def)

lemma waiting_parent_advances:
  assumes a: "flip_stands_for c m s R" and fit: "int_fits (lineCount c) m" and p: "f_parent s = GBWait p"
    and nA: "\<not> (\<forall>x<threadCount c. counted R (f_child s x))" and nD: "\<not> (\<forall>x<threadCount c. departed (f_child s x))"
  shows "flip_advances c m R s"
proof -
  note iw = flip_stands_for_working [OF a fit]
  have ok: "child_ok c R u (flip_abs_child R (f_child s u))" if "u < threadCount c" for u
    using iw(2) that by (rule flip_round)
  obtain x y where x: "x < threadCount c" "\<not> counted R (f_child s x)"
    and y: "y < threadCount c" "\<not> departed (f_child s y)"
    using nA nD by blast
  have "\<not> departed (f_child s x) \<or> \<not> counted R (f_child s y)"
    using departed_end [OF _ ok [OF x(1)]] counted_at_barrier(2) [OF _ ok [OF y(1)]] by force
  then have "child_can_move c R s"
    using waiting_parent_child_moves [OF a fit p] x y by blast
  then show ?thesis using child_advances [OF a fit] p by simp
qed

lemma loop_advances:
  assumes a: "flip_stands_for c m s R" and fit: "int_fits (lineCount c) m" and T: "0 < threadCount c"
    and lp: "looping (f_parent s)"
  shows "flip_advances c m R s"
proof -
  note iw = flip_stands_for_working [OF a fit]
  let ?A = "\<forall>x<threadCount c. counted R (f_child s x)" and ?D = "\<forall>x<threadCount c. departed (f_child s x)"
  have nd: "f_parent s \<noteq> GErrExit" using lp by auto
  note parent = parent_advances [OF a fit T] and child = lock_holder_moves [THEN child_advances [OF a fit nd]]
  have AD: "?A \<Longrightarrow> \<not> ?D" using all_counted(2) [OF a fit T] .
  have place: "flip_place c R (f_parent s) s" and ct: "cont s = flipped R"
    using iw(1) by (simp_all add: flip_inv_def Let_def)
  have step: "\<exists>s'. flip_parent_step c Forked s = Some s' \<and> looping (f_parent s') \<and> f_child s' = f_child s \<and>
      next_round R (f_parent s) = R \<and> loop_left c R s' < loop_left c R s \<Longrightarrow> ?thesis"
    using parent loop_order [OF lp, of _ c R] by auto
  have jump: "\<exists>s'. flip_parent_step c Forked s = Some s' \<and>
      ((s', next_round R (f_parent s)), (s, R)) \<in> flip_order c \<Longrightarrow> ?thesis"
    using parent by blast
  note defs = flip_parent_step_def next_round_def loop_left_def
  show ?thesis
  proof (cases "f_parent s")
    case (GBWait p)
    show ?thesis
    proof (cases "?A \<or> ?D")
      case True
      show ?thesis
      proof (cases "bLock s = 0")
        case True
        then show ?thesis using child(1) [OF iw(1)] GBWait by simp
      next
        case False
        then show ?thesis using \<open>?A \<or> ?D\<close> AD GBWait by (intro step) (auto simp: defs)
      qed
    next
      case False
      then show ?thesis using waiting_parent_advances [OF a fit GBWait] by blast
    qed
  next
    case (GCheck p)
    then have "bCount s = int (threadCount c) \<longleftrightarrow> ?A" and "cont s \<noteq> p"
      using all_counted(3) [OF a fit T] not_all_counted [OF iw(1)] place ct by auto
    then show ?thesis using GCheck AD by (intro step) (auto simp: defs)
  next
    case (GContWait p)
    then have A: "?A" using place by simp
    show ?thesis
    proof (cases "contLock s = 0")
      case True
      then show ?thesis using child(2) [OF iw(1)] GContWait by simp
    next
      case False
      then show ?thesis using A AD GContWait by (intro step) (auto simp: defs)
    qed
  next
    case (GFlip p)
    then have "R < lineCount c" using all_counted(1) [OF a fit T] place by simp
    then show ?thesis
      using GFlip by (intro jump) (auto simp: flip_parent_step_def flip_order_def next_round_def flip_phase_def)
  next
    case (GCWait p)
    show ?thesis
    proof (cases "cLock s = 0")
      case True
      then show ?thesis using child(3) [OF iw(1)] GCWait by simp
    next
      case False
      then show ?thesis using GCWait AD by (intro step) (auto simp: defs)
    qed
  next
    case (GCount p)
    then show ?thesis using AD all_departed [OF iw(1)] GCount by (intro step) (auto simp: defs)
  next
    case (GCPost p d)
    show ?thesis
    proof (cases d)
      case True
      with GCPost show ?thesis
        by (intro jump) (auto simp: flip_parent_step_def flip_order_def next_round_def flip_phase_def)
    next
      case False
      with GCPost AD show ?thesis by (intro step) (auto simp: defs)
    qed
  qed (use lp AD in \<open>auto simp: defs intro!: step\<close>)
qed

lemma state_advances:
  assumes a: "flip_stands_for c m s R" and fit: "int_fits (lineCount c) m" and T: "0 < threadCount c"
    and p: "f_parent s \<noteq> GDone" "f_parent s \<noteq> GErrExit"
  shows "flip_advances c m R s"
proof (cases "looping (f_parent s)")
  case True
  with loop_advances [OF a fit T] show ?thesis .
next
  case False
  have "f_parent s \<noteq> GDivZero" using a T by (auto simp: flip_stands_for_def flip_inv_def Let_def)
  then have "\<exists>s'. flip_parent_step c Forked s = Some s' \<and>
      ((s', next_round R (f_parent s)), (s, R)) \<in> flip_order c"
    using False p T
    by (cases "f_parent s") (auto simp: flip_parent_step_def flip_order_def next_round_def flip_phase_def)
  with parent_advances [OF a fit T] show ?thesis by blast
qed

section \<open>Property\<close>



end
