(* ===== verification/Flip_File.thy ===== *)
theory Flip_File
  imports Flip_Progress Proc_Rerun
begin

text \<open>
  The beginning and the end of \<^verbatim>\<open>main\<close> of \<^verbatim>\<open>wtc_proc_test.c\<close>: its arguments, the shared memory object, reading the
  graph with the statements of \<^verbatim>\<open>wtc_proc.c\<close>, and the two matrices it prints.
\<close>

datatype test_start = BadArguments int | Started int int int_matrix

definition test_segment :: "nat \<Rightarrow> shm_object \<Rightarrow> int \<Rightarrow> int_matrix" where
  "test_segment sem obj n = take (nat n * nat n) (ftruncate (test_size sem (nat n)) (shm_open obj))"

text \<open>As in \<^verbatim>\<open>wtc_proc\<close>, the outer \<^term>\<open>None\<close> is a reading loop that does not end, the inner one undefined behaviour.\<close>

definition test_main ::
    "(string \<Rightarrow> string option) \<Rightarrow> (int \<Rightarrow> int_matrix) \<Rightarrow> string list \<Rightarrow> test_start option option" where
  "test_main fopen segment argv =
     (if length argv \<noteq> 2 then Some (Some (BadArguments 3))
      else map_option (map_option (\<lambda>(t, n, m). Started t n m)) (proc_input fopen (argv ! 1) segment))"

definition test_before :: "int \<Rightarrow> int_matrix \<Rightarrow> string option" where
  "test_before n m =
     map_option (\<lambda>t. [CHR 0x0A] @ ''Initial matrix:'' @ [CHR 0x0A, CHR 0x0A] @ t) (print_matrix2 m n)"

definition test_after :: "int \<Rightarrow> int_matrix \<Rightarrow> string option" where
  "test_after n m = map_option (\<lambda>t. [CHR 0x0A] @ ''Output Matrix:'' @ [CHR 0x0A] @ t) (print_matrix2 m n)"

lemma test_segment_new: "test_segment sem None (int n) = replicate (n * n) 0"
proof -
  have "4 * (n * n) \<le> test_size sem n" by (simp add: test_size_def)
  then have "n * n \<le> test_size sem n div 4" by linarith
  then show ?thesis by (simp add: test_segment_def ftruncate_def shm_open_def min_def)
qed

lemma zero_one_flip:
  assumes "(flip_step c)\<^sup>*\<^sup>* (flip_init c m) s" and "int_fits (lineCount c) m" and "0 < threadCount c" and "zero_one m"
  shows "zero_one (f_matrix s) \<and> length (f_matrix s) = length m"
proof -
  obtain R where "(proc_step c)\<^sup>*\<^sup>* (proc_init m) (flip_abs c R s)"
    using flip_stands_for_reachable [OF assms(1-3)] by (auto simp: flip_stands_for_def)
  from zero_one_proc [OF this assms(4)] show ?thesis by (simp add: flip_abs_def)
qed

text \<open>
  From the graph file to the text: with a positive number of children that divides the number of nodes and a new
  shared memory object, \<^verbatim>\<open>wtc_proc_test\<close> prints the graph of the file first and its transitive closure at the end.
\<close>

theorem flip_prints_closure:
  assumes "fopen f = Some (graph_text nt n es w)" and "\<forall>e \<in> set es. edge_wf n e" and "blank w"
    and "nt < 2 ^ 31" and "n * n < 2 ^ 31" and "es \<noteq> [] \<or> w = []" and "0 < nt" and "nt dvd n"
  shows "\<exists>m. test_main fopen (test_segment sem None) [p, f] = Some (Some (Started (int nt) (int n) m)) \<and>
    test_before (int n) m =
      Some ([CHR 0x0A] @ ''Initial matrix:'' @ [CHR 0x0A, CHR 0x0A] @ matrix_text n (has_edge es)) \<and>
    (\<forall>s. (flip_step \<lparr>threadCount = nt, lineCount = n\<rparr>)\<^sup>*\<^sup>* (flip_init \<lparr>threadCount = nt, lineCount = n\<rparr> m) s \<longrightarrow>
         f_parent s = GDone \<longrightarrow>
         test_after (int n) (f_matrix s) =
           Some ([CHR 0x0A] @ ''Output Matrix:'' @ [CHR 0x0A] @ matrix_text n (path_closure n (has_edge es))))"
proof -
  let ?c = "\<lparr>threadCount = nt, lineCount = n\<rparr>" and ?seg = "test_segment sem None"
  have seg: "length (?seg (int n)) = n * n" "zero_one (?seg (int n))" by (simp_all add: test_segment_new)
  obtain m where m: "proc_input fopen f ?seg = Some (Some (int nt, int n, m))" "int_fits n m" "zero_one m"
    and g: "agree n (int_edge n m) (\<lambda>i j. int_edge n (?seg (int n)) i j \<or> has_edge es i j)"
    using proc_input_object [of fopen f nt n es w ?seg] assms(1-6) seg by blast
  have "\<not> int_edge n (?seg (int n)) i j" if "i < n" "j < n" for i j
    using index_less [OF that] by (simp add: int_edge_def test_segment_new)
  with g have e: "agree n (int_edge n m) (has_edge es)" by (auto simp: agree_def)
  have "print_matrix2 (f_matrix s) (int n) = Some (matrix_text n (path_closure n (has_edge es)))"
    if r: "(flip_step ?c)\<^sup>*\<^sup>* (flip_init ?c m) s" and d: "f_parent s = GDone" for s
  proof -
    have z: "zero_one (f_matrix s)" "length (f_matrix s) = length m" using zero_one_flip [OF r] m(2,3) assms(7) by simp_all
    then have fit: "int_fits n (f_matrix s)" using m(2) by (simp add: int_fits_def)
    have "agree n (int_edge n (f_matrix s)) (path_closure n (int_edge n m))"
      using flip_computes_closure [OF r d] m(2) assms(7,8) by (simp add: agree_def)
    from ints_print_closure [OF fit z(1) this e] show ?thesis .
  qed
  moreover have "print_matrix2 m (int n) = Some (matrix_text n (has_edge es))"
    using matrix2_printed [OF m(2,3)] matrix_text_cong [OF e] by simp
  ultimately show ?thesis using m(1) by (simp add: test_main_def test_before_def test_after_def)
qed

end
