(* ===== verification/Sched_State.thy ===== *)
theory Sched_State
  imports Prelude
begin

text \<open>
  The data of the scheduler of \<^verbatim>\<open>Project_2/stuff/sched.c\<close> (Linux 2.4 with a fair-share
  \<^verbatim>\<open>schedule()\<close>): the fields of a task the file reads or writes, the users with their lists of
  processes, the run queue and the per-CPU data. Pointers to tasks, users and address spaces are
  numbers, \<^verbatim>\<open>NULL\<close> is \<^term>\<open>None\<close>. What the kernel headers provide (they are not in the
  repository) is a parameter: the configuration \<open>kernel\<close>.
\<close>

section \<open>Header constants and configuration\<close>

text \<open>\<^verbatim>\<open>unsigned long\<close> of the i386 kernel.\<close>

type_synonym ulong = "32 word"
type_synonym tid = nat
type_synonym uid = nat
type_synonym mm_ref = nat

text \<open>The scheduling policies and task states, with the numbers of the system call interface.\<close>

abbreviation (input) SCHED_OTHER :: ulong where "SCHED_OTHER \<equiv> 0"
abbreviation (input) SCHED_FIFO :: ulong where "SCHED_FIFO \<equiv> 1"
abbreviation (input) SCHED_RR :: ulong where "SCHED_RR \<equiv> 2"

abbreviation (input) TASK_RUNNING :: ulong where "TASK_RUNNING \<equiv> 0"
abbreviation (input) TASK_INTERRUPTIBLE :: ulong where "TASK_INTERRUPTIBLE \<equiv> 1"
abbreviation (input) TASK_UNINTERRUPTIBLE :: ulong where "TASK_UNINTERRUPTIBLE \<equiv> 2"

datatype errno = EPERM | ESRCH | EFAULT | EINVAL

section \<open>Tasks, users, processors\<close>

record task =
  policy :: ulong
  counter :: int
  nice :: int
  rt_priority :: int
  state :: ulong
  need_resched :: int
  processor :: nat
  cpus_runnable :: ulong
  cpus_allowed :: ulong
  mm :: "mm_ref option"
  active_mm :: "mm_ref option"
  t_uid :: uid
  t_euid :: uid
  super :: int
  t_hasRun :: int

record kernel =
  CONFIG_SMP :: bool
  HZ :: nat
  PROC_CHANGE_PENALTY :: int
  SCHED_YIELD :: ulong
  smp_num_cpus :: nat
  cpu_logical_map :: "nat \<Rightarrow> nat"
  cpu_number_map :: "nat \<Rightarrow> nat"
  smp_num_siblings :: nat
  cpu_sibling_map :: "nat \<Rightarrow> nat"
  init_tasks :: "nat \<Rightarrow> tid"
  init_task :: tid
  task_set_cpu :: "nat \<Rightarrow> task \<Rightarrow> task"
  task_release_cpu :: "task \<Rightarrow> task"
  task_has_cpu :: "task \<Rightarrow> bool"

text \<open>
  What the code relies on: \<^verbatim>\<open>SCHED_YIELD\<close> is a bit of its own, apart from those of the policies, and
  the two header functions that give a task a processor and take it away change nothing of the task
  but its two processor fields.
\<close>

definition yield_bit :: "kernel \<Rightarrow> bool" where
  "yield_bit k \<longleftrightarrow> SCHED_YIELD k \<noteq> 0 \<and> SCHED_YIELD k AND 3 = 0"

definition cpu_fields_only :: "(task \<Rightarrow> task) \<Rightarrow> bool" where
  "cpu_fields_only f \<longleftrightarrow> (\<forall>t. f t = t\<lparr>processor := processor (f t), cpus_runnable := cpus_runnable (f t)\<rparr>)"

definition header_ok :: "kernel \<Rightarrow> bool" where
  "header_ok k \<longleftrightarrow> yield_bit k \<and> (\<forall>cpu. cpu_fields_only (task_set_cpu k cpu)) \<and>
     cpu_fields_only (task_release_cpu k)"

record user =
  procs :: "tid list"
  u_hasRun :: int

text \<open>
  \<open>userlist\<close> are the users behind \<^verbatim>\<open>root_user.userlist\<close>, in order; \<open>ipis\<close> records the calls of
  \<^verbatim>\<open>smp_send_reschedule\<close>; \<open>this_cpu\<close> is \<^verbatim>\<open>smp_processor_id()\<close>.
\<close>

record kstate =
  task_of :: "tid \<Rightarrow> task"
  user_of :: "uid \<Rightarrow> user"
  root_user :: uid
  userlist :: "uid list"
  runqueue :: "tid list"
  nr_running :: int
  cpu_curr :: "nat \<Rightarrow> tid"
  last_schedule :: "nat \<Rightarrow> u64"
  ipis :: "nat list"
  current :: tid
  this_cpu :: nat
  mm_count :: "mm_ref \<Rightarrow> int"
  context_swtch :: int

definition idle_task :: "kernel \<Rightarrow> nat \<Rightarrow> tid" where
  "idle_task k cpu = (if CONFIG_SMP k then init_tasks k (cpu_number_map k cpu) else init_task k)"

definition can_schedule :: "kernel \<Rightarrow> task \<Rightarrow> nat \<Rightarrow> bool" where
  "can_schedule k p cpu \<longleftrightarrow>
     \<not> CONFIG_SMP k \<or> cpus_runnable p AND cpus_allowed p AND push_bit cpu 1 \<noteq> 0"

definition upd_task :: "tid \<Rightarrow> (task \<Rightarrow> task) \<Rightarrow> kstate \<Rightarrow> kstate" where
  "upd_task t f s = s\<lparr>task_of := (task_of s)(t := f (task_of s t))\<rparr>"

definition upd_user :: "uid \<Rightarrow> (user \<Rightarrow> user) \<Rightarrow> kstate \<Rightarrow> kstate" where
  "upd_user u f s = s\<lparr>user_of := (user_of s)(u := f (user_of s u))\<rparr>"

lemma upd_task_simps [simp, frame]:
  "task_of (upd_task t f s) = (task_of s)(t := f (task_of s t))"
  "user_of (upd_task t f s) = user_of s" "root_user (upd_task t f s) = root_user s"
  "userlist (upd_task t f s) = userlist s" "runqueue (upd_task t f s) = runqueue s"
  "nr_running (upd_task t f s) = nr_running s" "cpu_curr (upd_task t f s) = cpu_curr s"
  "last_schedule (upd_task t f s) = last_schedule s" "ipis (upd_task t f s) = ipis s"
  "current (upd_task t f s) = current s" "this_cpu (upd_task t f s) = this_cpu s"
  "mm_count (upd_task t f s) = mm_count s" "context_swtch (upd_task t f s) = context_swtch s"
  by (simp_all add: upd_task_def)

lemma upd_user_simps [simp, frame]:
  "user_of (upd_user u g s) = (user_of s)(u := g (user_of s u))"
  "task_of (upd_user u g s) = task_of s" "root_user (upd_user u g s) = root_user s"
  "userlist (upd_user u g s) = userlist s" "runqueue (upd_user u g s) = runqueue s"
  "nr_running (upd_user u g s) = nr_running s" "cpu_curr (upd_user u g s) = cpu_curr s"
  "last_schedule (upd_user u g s) = last_schedule s" "ipis (upd_user u g s) = ipis s"
  "current (upd_user u g s) = current s" "this_cpu (upd_user u g s) = this_cpu s"
  "mm_count (upd_user u g s) = mm_count s" "context_swtch (upd_user u g s) = context_swtch s"
  by (simp_all add: upd_user_def)

section \<open>The run queue\<close>

text \<open>
  What the callers rely on: a queue of tasks with a counter; \<open>add\<close> puts a task at the end, \<open>rotate\<close>
  moves a queued task to the end.
\<close>

locale run_queue =
  fixes add :: "'t \<Rightarrow> 'q \<Rightarrow> 'q"
    and rotate :: "'t \<Rightarrow> 'q \<Rightarrow> 'q"
    and items :: "'q \<Rightarrow> 't list"
    and counted :: "'q \<Rightarrow> int"
  assumes items_add: "items (add t q) = items q @ [t]"
    and items_rotate: "items (rotate t q) = remove1 t (items q) @ [t]"
    and counted_add: "counted (add t q) = counted q + 1"
    and counted_rotate: "counted (rotate t q) = counted q"
begin

definition sound :: "'q \<Rightarrow> bool" where
  "sound q \<longleftrightarrow> distinct (items q) \<and> counted q = int (length (items q))"

lemma sound_add: "sound q \<Longrightarrow> t \<notin> set (items q) \<Longrightarrow> sound (add t q)"
  by (simp add: sound_def items_add counted_add)

lemma sound_rotate:
  assumes "sound q" and "t \<in> set (items q)"
  shows "sound (rotate t q)"
proof -
  have "length (items q) > 0" using assms(2) by (cases "items q") auto
  with assms show ?thesis
    by (simp add: sound_def items_rotate counted_rotate length_remove1 distinct_remove1)
qed

lemma members_add: "set (items (add t q)) = insert t (set (items q))"
  by (simp add: items_add)

lemma members_rotate: "t \<in> set (items q) \<Longrightarrow> set (items (rotate t q)) = set (items q)"
  by (auto simp: items_rotate dest: set_remove1_subset [THEN subsetD]) (metis in_set_remove1)

text \<open>The other tasks keep their order.\<close>

lemma order_rotate: "filter (\<lambda>u. u \<noteq> t) (items (rotate t q)) = filter (\<lambda>u. u \<noteq> t) (items q)"
  by (simp add: items_rotate filter_remove1)

end

definition add_to_runqueue :: "tid \<Rightarrow> kstate \<Rightarrow> kstate" where
  "add_to_runqueue p s = s\<lparr>runqueue := runqueue s @ [p], nr_running := nr_running s + 1\<rparr>"

definition move_last_runqueue :: "tid \<Rightarrow> kstate \<Rightarrow> kstate" where
  "move_last_runqueue p s = s\<lparr>runqueue := remove1 p (runqueue s) @ [p]\<rparr>"

definition task_on_runqueue :: "tid \<Rightarrow> kstate \<Rightarrow> bool" where
  "task_on_runqueue p s \<longleftrightarrow> p \<in> set (runqueue s)"

interpretation rq: run_queue add_to_runqueue move_last_runqueue runqueue nr_running
  by unfold_locales (simp_all add: add_to_runqueue_def move_last_runqueue_def)

lemma add_to_runqueue_frame [simp, frame]:
  "task_of (add_to_runqueue p s) = task_of s" "cpu_curr (add_to_runqueue p s) = cpu_curr s"
  "current (add_to_runqueue p s) = current s" "this_cpu (add_to_runqueue p s) = this_cpu s"
  "ipis (add_to_runqueue p s) = ipis s" "last_schedule (add_to_runqueue p s) = last_schedule s"
  by (simp_all add: add_to_runqueue_def)

lemma move_last_runqueue_frame [simp, frame]:
  "task_of (move_last_runqueue p s) = task_of s" "cpu_curr (move_last_runqueue p s) = cpu_curr s"
  "current (move_last_runqueue p s) = current s" "this_cpu (move_last_runqueue p s) = this_cpu s"
  by (simp_all add: move_last_runqueue_def)

end
