(* ===== verification/Sched_Choose.thy ===== *)
theory Sched_Choose
  imports Sched_State
begin

text \<open>
  The fair-share part of \<^verbatim>\<open>schedule()\<close> in \<^verbatim>\<open>Project_2/stuff/sched.c\<close>: from the label \<^verbatim>\<open>choose_task\<close> to the
  choice of \<^verbatim>\<open>run_task\<close>. Every user has a counter of turns, every process a counter of turns within
  its user, two for a \<^verbatim>\<open>super\<close> process. The jumps back to \<^verbatim>\<open>choose_task\<close> are a recursion that may not
  end, so \<^term>\<open>None\<close> is a scheduler that never returns.
\<close>

section \<open>One pass\<close>

definition ready :: "kstate \<Rightarrow> tid \<Rightarrow> bool" where
  "ready s t \<longleftrightarrow> t_hasRun (task_of s t) > 0"

definition first_ready :: "kstate \<Rightarrow> uid \<Rightarrow> tid option" where
  "first_ready s u = find (ready s) (procs (user_of s u))"

definition spend_user :: "uid \<Rightarrow> kstate \<Rightarrow> kstate" where
  "spend_user u = upd_user u (\<lambda>x. x\<lparr>u_hasRun := u_hasRun x - 1\<rparr>)"

definition spend_task :: "tid \<Rightarrow> kstate \<Rightarrow> kstate" where
  "spend_task t = upd_task t (\<lambda>x. x\<lparr>t_hasRun := t_hasRun x - 1\<rparr>)"

text \<open>The part for the root user: the chosen process pays for its turn.\<close>

definition root_part :: "tid option \<Rightarrow> nat \<Rightarrow> kstate \<Rightarrow> tid option \<times> nat \<times> kstate" where
  "root_part run count s =
     (let u = root_user s
      in if u_hasRun (user_of s u) > 0
         then (case first_ready s u of
                 None \<Rightarrow> (run, count + 1, spend_user u s)
               | Some p \<Rightarrow> (Some p, count + 1, spend_user u (spend_task p s)))
         else (run, count, s))"

text \<open>The loop over the other users, which ends as soon as there is a process to run.\<close>

fun users_part :: "tid option \<Rightarrow> nat \<Rightarrow> uid list \<Rightarrow> kstate \<Rightarrow> tid option \<times> nat \<times> kstate" where
  "users_part run count [] s = (run, count, s)"
| "users_part run count (u # us) s =
     (let (run', count', s') =
        (if u_hasRun (user_of s u) > 0
         then (case first_ready s u of None \<Rightarrow> run | Some p \<Rightarrow> Some p, count + 1, spend_user u s)
         else (run, count, s))
      in if run' \<noteq> None then (run', count', s') else users_part run' count' us s')"

definition choose_pass :: "tid option \<Rightarrow> nat \<Rightarrow> kstate \<Rightarrow> tid option \<times> nat \<times> kstate" where
  "choose_pass run count s =
     (let (run1, count1, s1) = root_part run count s
      in if run1 \<noteq> None then users_part run1 count1 (userlist s1) s1 else (run1, count1, s1))"

section \<open>The two resets\<close>

definition fresh_user :: "uid \<Rightarrow> kstate \<Rightarrow> kstate" where
  "fresh_user u = upd_user u (\<lambda>x. x\<lparr>u_hasRun := 1\<rparr>)"

definition fresh_task :: "tid \<Rightarrow> kstate \<Rightarrow> kstate" where
  "fresh_task t = upd_task t (\<lambda>x. x\<lparr>t_hasRun := (if super x = 1 then 2 else 1)\<rparr>)"

definition reset_users :: "kstate \<Rightarrow> kstate" where
  "reset_users s = fold fresh_user (userlist s) (fresh_user (root_user s) s)"

definition reset_user_procs :: "uid \<Rightarrow> kstate \<Rightarrow> kstate" where
  "reset_user_procs u s = (let s1 = fresh_user u s in fold fresh_task (procs (user_of s1 u)) s1)"

definition reset_all :: "kstate \<Rightarrow> kstate" where
  "reset_all s = fold reset_user_procs (userlist s) (reset_user_procs (root_user s) s)"

section \<open>The choice\<close>

partial_function (option) choose_task :: "tid option \<Rightarrow> nat \<Rightarrow> kstate \<Rightarrow> (tid \<times> kstate) option" where
  "choose_task run count s =
     (let (run1, count1, s1) = choose_pass run count s
      in if count1 = 0 then choose_task run1 count1 (reset_users s1)
         else case run1 of
           None \<Rightarrow> choose_task run1 count1 (reset_all s1)
         | Some t \<Rightarrow> Some (t, s1))"

text \<open>The processes a number of calls choose, one after the other.\<close>

fun choices :: "nat \<Rightarrow> kstate \<Rightarrow> (tid list \<times> kstate) option" where
  "choices 0 s = Some ([], s)"
| "choices (Suc n) s =
     do { (t, s1) \<leftarrow> choose_task None 0 s; (ts, s2) \<leftarrow> choices n s1; Some (t # ts, s2) }"

section \<open>What the steps leave alone\<close>

lemma spend_simps [simp]:
  "task_of (spend_user u s) = task_of s" "root_user (spend_user u s) = root_user s"
  "userlist (spend_user u s) = userlist s"
  "user_of (spend_user u s) = (user_of s)(u := (user_of s u)\<lparr>u_hasRun := u_hasRun (user_of s u) - 1\<rparr>)"
  "user_of (spend_task t s) = user_of s" "root_user (spend_task t s) = root_user s"
  "userlist (spend_task t s) = userlist s"
  "task_of (spend_task t s) = (task_of s)(t := (task_of s t)\<lparr>t_hasRun := t_hasRun (task_of s t) - 1\<rparr>)"
  by (simp_all add: spend_user_def spend_task_def)

lemma fresh_simps [simp]:
  "task_of (fresh_user u s) = task_of s" "root_user (fresh_user u s) = root_user s"
  "userlist (fresh_user u s) = userlist s"
  "user_of (fresh_user u s) = (user_of s)(u := (user_of s u)\<lparr>u_hasRun := 1\<rparr>)"
  "user_of (fresh_task t s) = user_of s" "root_user (fresh_task t s) = root_user s"
  "userlist (fresh_task t s) = userlist s"
  "task_of (fresh_task t s) =
    (task_of s)(t := (task_of s t)\<lparr>t_hasRun := (if super (task_of s t) = 1 then 2 else 1)\<rparr>)"
  by (simp_all add: fresh_user_def fresh_task_def)

text \<open>
  \<open>same_lists s s'\<close>: the users, their processes and all fields of a task but its counter are the
  same; so are the fields of the state the choice does not mention.
\<close>

definition strip :: "task \<Rightarrow> task" where
  "strip t = t\<lparr>t_hasRun := 0\<rparr>"

definition same_lists :: "kstate \<Rightarrow> kstate \<Rightarrow> bool" where
  "same_lists s s' \<longleftrightarrow>
     s' = s\<lparr>task_of := task_of s', user_of := user_of s'\<rparr> \<and>
     (\<forall>u. procs (user_of s' u) = procs (user_of s u)) \<and>
     (\<forall>t. strip (task_of s' t) = strip (task_of s t))"

lemma same_refl [simp]: "same_lists s s"
  by (simp add: same_lists_def)

lemma same_trans:
  assumes "same_lists s s1" and "same_lists s1 s2"
  shows "same_lists s s2"
proof -
  have "s2 = s1\<lparr>task_of := task_of s2, user_of := user_of s2\<rparr>"
    and "s1 = s\<lparr>task_of := task_of s1, user_of := user_of s1\<rparr>"
    using assms by (simp_all only: same_lists_def)
  then have "s2 = s\<lparr>task_of := task_of s2, user_of := user_of s2\<rparr>"
    by (cases s; cases s1; cases s2) simp
  with assms show ?thesis by (simp only: same_lists_def) metis
qed

lemma same_steps [simp]:
  "same_lists s (spend_user u s)" "same_lists s (spend_task t s)"
  "same_lists s (fresh_user u s)" "same_lists s (fresh_task t s)"
  by (simp_all add: same_lists_def strip_def spend_user_def spend_task_def fresh_user_def
      fresh_task_def upd_task_def upd_user_def)

lemma same_fold: "(\<And>x s. same_lists s (f x s)) \<Longrightarrow> same_lists s (fold f xs s)"
proof (induction xs arbitrary: s)
  case (Cons x xs)
  from Cons.IH [OF Cons.prems, of "f x s"] Cons.prems [of s x] same_trans show ?case by simp
qed simp

lemma same_reset_user_procs: "same_lists s (reset_user_procs u s)"
  unfolding reset_user_procs_def Let_def by (rule same_trans [OF same_steps(3) same_fold]) simp

lemma same_resets [simp]: "same_lists s (reset_users s)" "same_lists s (reset_all s)"
  unfolding reset_users_def reset_all_def
  by (rule same_trans [OF _ same_fold]; simp add: same_reset_user_procs)+

lemma same_root_part: "root_part run count s = (run', count', s') \<Longrightarrow> same_lists s s'"
  by (auto simp: root_part_def Let_def split: if_splits option.splits
      intro: same_trans [OF same_steps(2) same_steps(1)])

lemma same_users_part: "users_part run count us s = (run', count', s') \<Longrightarrow> same_lists s s'"
proof (induction us arbitrary: run count s)
  case (Cons u us)
  let ?run = "if u_hasRun (user_of s u) > 0 then (case first_ready s u of None \<Rightarrow> run | Some p \<Rightarrow> Some p) else run"
  let ?count = "if u_hasRun (user_of s u) > 0 then count + 1 else count"
  let ?s = "if u_hasRun (user_of s u) > 0 then spend_user u s else s"
  have u: "same_lists s ?s" by simp
  show ?case
  proof (cases "?run = None")
    case True
    with Cons.prems have "users_part ?run ?count us ?s = (run', count', s')"
      by (simp add: Let_def split: if_splits)
    from same_trans [OF u Cons.IH [OF this]] show ?thesis .
  next
    case False
    with Cons.prems have "s' = ?s" by (auto simp: Let_def split: if_splits)
    with u show ?thesis by simp
  qed
qed simp

lemma same_choose_pass: "choose_pass run count s = (run', count', s') \<Longrightarrow> same_lists s s'"
  by (auto simp: choose_pass_def Let_def split: prod.splits if_splits
      intro: same_trans dest!: same_root_part same_users_part)

lemma same_proj:
  assumes "same_lists s s'"
  shows "root_user s' = root_user s" "userlist s' = userlist s" "procs (user_of s' u) = procs (user_of s u)"
    "cpu_curr s' = cpu_curr s" "current s' = current s" "mm_count s' = mm_count s"
    "context_swtch s' = context_swtch s" "runqueue s' = runqueue s"
proof -
  have e: "s' = s\<lparr>task_of := task_of s', user_of := user_of s'\<rparr>" using assms by (simp only: same_lists_def)
  show "root_user s' = root_user s" "userlist s' = userlist s"
    "cpu_curr s' = cpu_curr s" "current s' = current s" "mm_count s' = mm_count s"
    "context_swtch s' = context_swtch s" "runqueue s' = runqueue s"
    by (subst e, simp)+
  show "procs (user_of s' u) = procs (user_of s u)" using assms by (simp add: same_lists_def)
qed

section \<open>What the resets give\<close>

definition share :: "task \<Rightarrow> int" where
  "share t = (if super t = 1 then 2 else 1)"

lemma share_pos [simp]: "0 < share t"
  by (simp add: share_def)

lemma share_strip: "strip t = strip t' \<Longrightarrow> share t = share t'"
proof -
  have "super t = super (strip t)" for t by (simp add: strip_def)
  then show "strip t = strip t' \<Longrightarrow> share t = share t'" by (metis share_def)
qed

lemma same_share: "same_lists s s' \<Longrightarrow> share (task_of s' t) = share (task_of s t)"
  by (rule share_strip) (simp only: same_lists_def)

lemma fold_fresh_user:
  "task_of (fold fresh_user us s) = task_of s"
  "u_hasRun (user_of (fold fresh_user us s) u) = (if u \<in> set us then 1 else u_hasRun (user_of s u))"
  by (induction us arbitrary: s) auto

lemma fold_fresh_task:
  "user_of (fold fresh_task ts s) = user_of s"
  "t_hasRun (task_of (fold fresh_task ts s) t) =
    (if t \<in> set ts then share (task_of s t) else t_hasRun (task_of s t))"
  by (induction ts arbitrary: s) (auto simp: share_def)

lemma reset_users_values:
  "task_of (reset_users s) = task_of s"
  "u = root_user s \<or> u \<in> set (userlist s) \<Longrightarrow> u_hasRun (user_of (reset_users s) u) = 1"
  by (auto simp: reset_users_def fold_fresh_user)

lemma reset_user_procs_values:
  "u_hasRun (user_of (reset_user_procs u s) v) = (if v = u then 1 else u_hasRun (user_of s v))"
  "t_hasRun (task_of (reset_user_procs u s) t) =
    (if t \<in> set (procs (user_of s u)) then share (task_of s t) else t_hasRun (task_of s t))"
  by (auto simp: reset_user_procs_def Let_def fold_fresh_task)

lemma fold_reset_values:
  "u_hasRun (user_of (fold reset_user_procs us s) v) = (if v \<in> set us then 1 else u_hasRun (user_of s v))"
  "t_hasRun (task_of (fold reset_user_procs us s) t) =
    (if \<exists>u\<in>set us. t \<in> set (procs (user_of s u)) then share (task_of s t) else t_hasRun (task_of s t))"
proof (induction us arbitrary: s)
  case (Cons u us)
  {
    case 1
    show ?case by (simp add: Cons.IH reset_user_procs_values)
  next
    case 2
    show ?case
      by (simp add: Cons.IH reset_user_procs_values same_proj(3) [OF same_reset_user_procs]
          same_share [OF same_reset_user_procs])
  }
qed simp_all

lemma reset_all_values:
  "u = root_user s \<or> u \<in> set (userlist s) \<Longrightarrow> u_hasRun (user_of (reset_all s) u) = 1"
  "t_hasRun (task_of (reset_all s) t) =
    (if \<exists>u\<in>insert (root_user s) (set (userlist s)). t \<in> set (procs (user_of s u))
     then share (task_of s t) else t_hasRun (task_of s t))"
  using same_proj(3) [OF same_reset_user_procs [of s "root_user s"]]
    same_share [OF same_reset_user_procs [of s "root_user s"]]
  by (auto simp: reset_all_def fold_reset_values reset_user_procs_values)

lemma first_ready_Some:
  "first_ready s u = Some t \<Longrightarrow> t \<in> set (procs (user_of s u)) \<and> ready s t"
  by (auto simp: first_ready_def find_Some_iff)

lemma first_ready_None: "first_ready s u = None \<longleftrightarrow> (\<forall>t\<in>set (procs (user_of s u)). \<not> ready s t)"
  by (auto simp: first_ready_def find_None_iff)

lemma reset_all_ready:
  assumes "u = root_user s \<or> u \<in> set (userlist s)" and "procs (user_of s u) \<noteq> []"
  shows "first_ready (reset_all s) u = Some (hd (procs (user_of s u)))"
proof -
  have p: "procs (user_of (reset_all s) u) = procs (user_of s u)"
    using same_proj(3) [OF same_resets(2)] .
  obtain t ts where t: "procs (user_of s u) = t # ts" using assms(2) by (cases "procs (user_of s u)") auto
  then have "ready (reset_all s) t" using assms(1) by (auto simp: ready_def reset_all_values)
  then show ?thesis by (simp add: first_ready_def p t)
qed

section \<open>What a call chooses\<close>

text \<open>A pass that has found the process \<open>p\<close> of the root user.\<close>

definition run_first :: "tid \<Rightarrow> kstate \<Rightarrow> tid \<times> kstate" where
  "run_first p s =
     (let s1 = spend_user (root_user s) (spend_task p s)
      in case userlist s of
        [] \<Rightarrow> (p, s1)
      | u # _ \<Rightarrow>
          if u_hasRun (user_of s1 u) > 0
          then (case first_ready s1 u of None \<Rightarrow> p | Some q \<Rightarrow> q, spend_user u s1) else (p, s1))"

text \<open>The state in which the pass that succeeds starts.\<close>

definition prepared :: "kstate \<Rightarrow> kstate" where
  "prepared s =
     (let s1 = if u_hasRun (user_of s (root_user s)) > 0 then s else reset_users s
      in if first_ready s1 (root_user s) = None then reset_all (spend_user (root_user s) s1) else s1)"

lemma choose_task_ready:
  assumes "u_hasRun (user_of s (root_user s)) > 0" and "first_ready s (root_user s) = Some p"
  shows "choose_task None count s = Some (run_first p s)"
proof -
  let ?s1 = "spend_user (root_user s) (spend_task p s)"
  have "\<exists>c. users_part (Some p) (count + 1) (userlist s) ?s1 = (Some (fst (run_first p s)), Suc c, snd (run_first p s))"
  proof (cases "userlist s")
    case (Cons u us)
    show ?thesis
      by (cases "u_hasRun (user_of ?s1 u) > 0"; cases "first_ready ?s1 u")
        (simp_all only: Cons run_first_def Let_def users_part.simps if_True if_False
          prod.case list.case option.case fst_conv snd_conv, simp_all)
  qed (simp add: run_first_def)
  then obtain c where "users_part (Some p) (count + 1) (userlist s) ?s1 =
      (Some (fst (run_first p s)), Suc c, snd (run_first p s))" by blast
  then have "choose_pass None count s = (Some (fst (run_first p s)), Suc c, snd (run_first p s))"
    using assms by (simp add: choose_pass_def root_part_def Let_def)
  then show ?thesis by (subst choose_task.simps) simp
qed

lemma choose_task_not_ready:
  assumes "u_hasRun (user_of s (root_user s)) > 0" and "first_ready s (root_user s) = None"
  shows "choose_task None count s = choose_task None (count + 1) (reset_all (spend_user (root_user s) s))"
  using assms by (subst choose_task.simps) (simp add: choose_pass_def root_part_def Let_def)

lemma choose_task_idle_root:
  assumes "\<not> u_hasRun (user_of s (root_user s)) > 0"
  shows "choose_task None 0 s = choose_task None 0 (reset_users s)"
  using assms by (subst choose_task.simps) (simp add: choose_pass_def root_part_def Let_def)

lemma same_prepared: "same_lists s (prepared s)"
  unfolding prepared_def Let_def
  by (auto intro: same_trans [OF same_trans [OF _ same_steps(1)] same_resets(2)]
      same_trans [OF same_steps(1) same_resets(2)])

text \<open>With a process of the root user, a call chooses in one pass from the prepared state.\<close>

lemma choose_task_prepared:
  assumes "procs (user_of s (root_user s)) \<noteq> []"
  shows "\<exists>p. first_ready (prepared s) (root_user s) = Some p \<and> u_hasRun (user_of (prepared s) (root_user s)) > 0 \<and>
             choose_task None 0 s = Some (run_first p (prepared s))"
proof -
  let ?r = "root_user s"
  let ?s1 = "if u_hasRun (user_of s ?r) > 0 then s else reset_users s"
  have same: "same_lists s ?s1" by simp
  have r: "root_user ?s1 = ?r" and pr: "procs (user_of ?s1 ?r) = procs (user_of s ?r)"
    using same_proj(1,3) [OF same] by blast+
  have up: "u_hasRun (user_of ?s1 ?r) > 0" by (simp add: reset_users_values)
  have eq: "choose_task None 0 s = choose_task None 0 ?s1" using choose_task_idle_root [of s] by simp
  show ?thesis
  proof (cases "first_ready ?s1 ?r")
    case (Some p)
    then have "prepared s = ?s1" by (simp add: prepared_def Let_def)
    then show ?thesis
      using Some up eq choose_task_ready [of ?s1 p 0] unfolding r by simp
  next
    case None
    let ?s2 = "reset_all (spend_user ?r ?s1)"
    have p: "prepared s = ?s2" using None by (simp add: prepared_def Let_def)
    have r2: "root_user ?s2 = ?r" using same_proj(1) [OF same_resets(2), of "spend_user ?r ?s1"] r by simp
    have "procs (user_of (spend_user ?r ?s1) ?r) \<noteq> []" using assms pr by simp
    then have f: "first_ready ?s2 ?r = Some (hd (procs (user_of (spend_user ?r ?s1) ?r)))"
      using reset_all_ready [of ?r "spend_user ?r ?s1"] r by simp
    have u: "u_hasRun (user_of ?s2 ?r) > 0"
      using reset_all_values(1) [of ?r "spend_user ?r ?s1"] r by simp
    have "choose_task None 0 ?s1 = choose_task None 1 ?s2"
      using choose_task_not_ready [of ?s1 0] up None unfolding r by simp
    with f u eq choose_task_ready [of ?s2 _ 1] show ?thesis unfolding p r2 by simp
  qed
qed

lemma pass_no_root_procs:
  assumes "procs (user_of s (root_user s)) = []"
  shows "\<exists>c s1. choose_pass None count s = (None, c, s1) \<and> same_lists s s1"
  using assms by (auto simp: choose_pass_def root_part_def Let_def first_ready_def)

lemma choose_task_hangs:
  assumes "procs (user_of s (root_user s)) = []"
  shows "choose_task None count s = None"
proof (rule ccontr)
  assume "choose_task None count s \<noteq> None"
  then obtain r where r: "choose_task None count s = Some r" by blast
  let ?at = "\<lambda>(run :: tid option) s. run = None \<and> procs (user_of s (root_user s)) = []"
  have "?at None s \<longrightarrow> False"
  proof (rule choose_task.raw_induct [where P = "\<lambda>run count s r. ?at run s \<longrightarrow> False", OF _ r])
    fix loop :: "tid option \<Rightarrow> nat \<Rightarrow> kstate \<Rightarrow> (tid \<times> kstate) option" and run count s r
    assume IH: "\<And>run count s r. loop run count s = Some r \<Longrightarrow> ?at run s \<longrightarrow> False"
      and eq: "(let (run1, count1, s1) = choose_pass run count s
        in if count1 = 0 then loop run1 count1 (reset_users s1)
           else case run1 of None \<Rightarrow> loop run1 count1 (reset_all s1) | Some t \<Rightarrow> Some (t, s1)) = Some r"
    show "?at run s \<longrightarrow> False"
    proof
      assume at: "?at run s"
      then obtain c s1 where p: "choose_pass run count s = (None, c, s1)" and same: "same_lists s s1"
        using pass_no_root_procs by blast
      have "?at None (reset_users s1)" "?at None (reset_all s1)"
        using at same_proj(1,3) [OF same_trans [OF same same_resets(1)]]
          same_proj(1,3) [OF same_trans [OF same same_resets(2)]] by simp_all
      moreover have "loop None c (reset_users s1) = Some r \<or> loop None c (reset_all s1) = Some r"
        using eq by (simp add: p split: if_splits)
      ultimately show False using IH by blast
    qed
  qed
  with assms show False by blast
qed

lemma same_run_first: "same_lists s (snd (run_first p s))"
proof -
  have s1: "same_lists s (spend_user (root_user s) (spend_task p s))"
    using same_trans [OF same_steps(2) same_steps(1)] .
  then show ?thesis
    using same_trans [OF s1 same_steps(1)] by (auto simp: run_first_def Let_def split: list.splits)
qed

lemma choose_task_same:
  assumes "choose_task None 0 s = Some (t, s')"
  shows "same_lists s s'"
proof -
  have "procs (user_of s (root_user s)) \<noteq> []" using assms choose_task_hangs by force
  from choose_task_prepared [OF this] assms obtain p where "run_first p (prepared s) = (t, s')" by auto
  then show ?thesis using same_trans [OF same_prepared same_run_first, of s p] by simp
qed

lemma choices_same: "choices n s = Some (ts, s') \<Longrightarrow> same_lists s s'"
  by (induction n arbitrary: s ts)
    (auto split: Option.bind_splits prod.splits intro: same_trans [OF choose_task_same])

text \<open>The users that can be served: the root user and the first other one.\<close>

definition served :: "kstate \<Rightarrow> tid set" where
  "served s = set (procs (user_of s (root_user s))) \<union>
     (case userlist s of [] \<Rightarrow> {} | u # _ \<Rightarrow> set (procs (user_of s u)))"

lemma same_served: "same_lists s s' \<Longrightarrow> served s' = served s"
  using same_proj(1-3) by (simp add: served_def split: list.splits)

lemma choose_task_served:
  assumes "choose_task None 0 s = Some (t, s')"
  shows "t \<in> served s"
proof -
  let ?q = "prepared s"
  have "procs (user_of s (root_user s)) \<noteq> []" using assms choose_task_hangs by force
  from choose_task_prepared [OF this] assms obtain p
    where p: "first_ready ?q (root_user s) = Some p" and r: "run_first p ?q = (t, s')" by auto
  note same = same_proj(1-3) [OF same_prepared [of s]]
  have "p \<in> set (procs (user_of s (root_user s)))" using first_ready_Some [OF p] same by simp
  moreover have "t = p \<or> (\<exists>u us. userlist ?q = u # us \<and> t \<in> set (procs (user_of ?q u)))"
  proof (cases "userlist ?q")
    case (Cons u us)
    let ?s1 = "spend_user (root_user ?q) (spend_task p ?q)"
    have pr: "procs (user_of ?s1 u) = procs (user_of ?q u)" by simp
    have "t = (if u_hasRun (user_of ?s1 u) > 0 then (case first_ready ?s1 u of None \<Rightarrow> p | Some q \<Rightarrow> q) else p)"
      using r unfolding run_first_def Let_def Cons list.case by (metis fst_conv)
    moreover have "first_ready ?s1 u = Some q \<Longrightarrow> q \<in> set (procs (user_of ?q u))" for q
      using first_ready_Some [of ?s1 u q] unfolding pr by blast
    ultimately show ?thesis using Cons by (cases "first_ready ?s1 u") (auto split: if_splits)
  qed (use r in \<open>simp add: run_first_def Let_def\<close>)
  ultimately show ?thesis by (auto simp: served_def same split: list.splits)
qed

section \<open>Repeated calls\<close>

lemma prepared_tasks:
  "t_hasRun (task_of (prepared s) t) = t_hasRun (task_of s t) \<or>
   t_hasRun (task_of (prepared s) t) = share (task_of s t)"
  by (auto simp: prepared_def Let_def reset_all_values reset_users_values)

lemma prepared_users:
  assumes "u = root_user s \<or> u \<in> set (userlist s)"
  shows "u_hasRun (user_of (prepared s) (root_user s)) = 1 \<and> u_hasRun (user_of (prepared s) u) = 1 \<or>
         u_hasRun (user_of s (root_user s)) > 0 \<and> user_of (prepared s) = user_of s"
proof -
  let ?s1 = "if u_hasRun (user_of s (root_user s)) > 0 then s else reset_users s"
  have same: "same_lists s ?s1" by simp
  have "root_user (spend_user (root_user s) ?s1) = root_user s"
    "userlist (spend_user (root_user s) ?s1) = userlist s"
    using same_proj(1,2) [OF same] by simp_all
  then have "u_hasRun (user_of (reset_all (spend_user (root_user s) ?s1)) v) = 1"
    if "v = root_user s \<or> v \<in> set (userlist s)" for v
    using that reset_all_values(1) [of v "spend_user (root_user s) ?s1"] by simp
  with assms show ?thesis by (simp add: prepared_def Let_def reset_users_values)
qed

lemma prepared_ready:
  assumes "\<exists>t\<in>set (procs (user_of s (root_user s))). ready s t"
  shows "task_of (prepared s) = task_of s"
proof -
  let ?s1 = "if u_hasRun (user_of s (root_user s)) > 0 then s else reset_users s"
  have t: "task_of ?s1 = task_of s" by (simp add: reset_users_values)
  have "procs (user_of ?s1 (root_user s)) = procs (user_of s (root_user s))"
    using same_proj(3) [of s ?s1] by simp
  with assms t have "first_ready ?s1 (root_user s) \<noteq> None" unfolding first_ready_None ready_def by metis
  then have "prepared s = ?s1" by (auto simp: prepared_def Let_def)
  with t show ?thesis by simp
qed

lemma prepared_exhausted:
  assumes "\<not> (\<exists>t\<in>set (procs (user_of s (root_user s))). ready s t)" and "t \<in> set (procs (user_of s (root_user s)))"
  shows "t_hasRun (task_of (prepared s) t) = share (task_of s t)"
proof -
  let ?r = "root_user s"
  let ?s1 = "if u_hasRun (user_of s ?r) > 0 then s else reset_users s"
  have t: "task_of ?s1 = task_of s" by (simp add: reset_users_values)
  have same: "same_lists s ?s1" by simp
  note p = same_proj(1,3) [OF same]
  have "first_ready ?s1 ?r = None" using assms(1) t p unfolding first_ready_None ready_def by metis
  then have "prepared s = reset_all (spend_user ?r ?s1)" by (simp add: prepared_def Let_def)
  moreover have "t_hasRun (task_of (reset_all (spend_user ?r ?s1)) t) = share (task_of s t)"
    using reset_all_values(2) [of "spend_user ?r ?s1" t] p assms(2) t by simp
  ultimately show ?thesis by simp
qed

lemma prepared_idem:
  assumes "procs (user_of s (root_user s)) \<noteq> []"
  shows "choose_task None 0 (prepared s) = choose_task None 0 s"
proof -
  from choose_task_prepared [OF assms] obtain p where
    "first_ready (prepared s) (root_user s) = Some p" "u_hasRun (user_of (prepared s) (root_user s)) > 0"
    "choose_task None 0 s = Some (run_first p (prepared s))" by blast
  with choose_task_ready [of "prepared s" p 0] same_proj(1) [OF same_prepared [of s]] show ?thesis by simp
qed

lemma choices_prepared:
  "procs (user_of s (root_user s)) \<noteq> [] \<Longrightarrow> n \<noteq> 0 \<Longrightarrow> choices n (prepared s) = choices n s"
  by (cases n) (simp_all add: prepared_idem)

lemma choices_add:
  "choices (m + n) s = do { (ts, s1) \<leftarrow> choices m s; (us, s2) \<leftarrow> choices n s1; Some (ts @ us, s2) }"
proof (induction m arbitrary: s)
  case (Suc m)
  show ?case
    by (cases "choose_task None 0 s") (auto simp: Suc split: Option.bind_splits)
qed (auto split: Option.bind_splits)

text \<open>Nobody but the root user has processes in front of the others.\<close>

definition alone :: "kstate \<Rightarrow> bool" where
  "alone s \<longleftrightarrow> (case userlist s of [] \<Rightarrow> True | u # _ \<Rightarrow> procs (user_of s u) = [])"

lemma same_alone: "same_lists s s' \<Longrightarrow> alone s' = alone s"
  using same_proj(2,3) by (simp add: alone_def split: list.splits)

lemma run_first_alone:
  assumes "alone s"
  shows "fst (run_first p s) = p"
    and "task_of (snd (run_first p s)) = (task_of s)(p := (task_of s p)\<lparr>t_hasRun := t_hasRun (task_of s p) - 1\<rparr>)"
proof -
  let ?s1 = "spend_user (root_user s) (spend_task p s)"
  have "run_first p s = (p, ?s1) \<or> (\<exists>u. run_first p s = (p, spend_user u ?s1))"
  proof (cases "userlist s")
    case (Cons u us)
    then have "procs (user_of s u) = []" using assms by (simp add: alone_def)
    then have "procs (user_of ?s1 u) = []" by (cases "u = root_user s") simp_all
    then have "first_ready ?s1 u = None" by (simp only: first_ready_def find.simps)
    then show ?thesis unfolding run_first_def Let_def Cons list.case by auto
  qed (simp add: run_first_def)
  then show "fst (run_first p s) = p"
    and "task_of (snd (run_first p s)) = (task_of s)(p := (task_of s p)\<lparr>t_hasRun := t_hasRun (task_of s p) - 1\<rparr>)"
    by (elim disjE exE; simp)+
qed

lemma choose_alone:
  assumes "alone s" and "first_ready s (root_user s) = Some p"
  shows "\<exists>s'. choose_task None 0 s = Some (p, s') \<and>
     task_of s' = (task_of s)(p := (task_of s p)\<lparr>t_hasRun := t_hasRun (task_of s p) - 1\<rparr>)"
proof -
  have r: "\<exists>t\<in>set (procs (user_of s (root_user s))). ready s t" using first_ready_Some [OF assms(2)] by blast
  then have n: "procs (user_of s (root_user s)) \<noteq> []" by auto
  note t = prepared_ready [OF r] and same = same_proj(1,3) [OF same_prepared [of s]]
  from t have "ready (prepared s) = ready s" by (simp add: ready_def fun_eq_iff)
  with assms(2) same have p: "first_ready (prepared s) (root_user s) = Some p" by (simp add: first_ready_def)
  from choose_task_prepared [OF n] p have "choose_task None 0 s = Some (run_first p (prepared s))" by auto
  with run_first_alone [of "prepared s" p] assms(1) same_alone [OF same_prepared [of s]] t show ?thesis
    by (metis prod.collapse)
qed

text \<open>The process at the front of the root user runs until its turns are used up.\<close>

lemma choices_front:
  assumes "alone s" and "procs (user_of s (root_user s)) = xs @ p # ys"
    and "\<forall>x\<in>set xs. t_hasRun (task_of s x) = 0" and "p \<notin> set xs" and "t_hasRun (task_of s p) = int k"
  shows "\<exists>s'. choices k s = Some (replicate k p, s') \<and> task_of s' = (task_of s)(p := (task_of s p)\<lparr>t_hasRun := 0\<rparr>)"
  using assms
proof (induction k arbitrary: s)
  case 0
  then have "task_of s p = (task_of s p)\<lparr>t_hasRun := 0\<rparr>" by simp
  then show ?case using 0 by (metis choices.simps(1) fun_upd_triv of_nat_0 replicate_0)
next
  case (Suc k)
  have "find (ready s) (xs @ p # ys) = Some p"
    using Suc.prems(3,5) by (induction xs) (auto simp: ready_def)
  then have "first_ready s (root_user s) = Some p" by (simp add: first_ready_def Suc.prems(2))
  from choose_alone [OF Suc.prems(1) this] obtain s1 where s1: "choose_task None 0 s = Some (p, s1)"
    "task_of s1 = (task_of s)(p := (task_of s p)\<lparr>t_hasRun := t_hasRun (task_of s p) - 1\<rparr>)" by blast
  note same = choose_task_same [OF s1(1)]
  have "\<exists>s'. choices k s1 = Some (replicate k p, s') \<and> task_of s' = (task_of s1)(p := (task_of s1 p)\<lparr>t_hasRun := 0\<rparr>)"
  proof (rule Suc.IH)
    show "alone s1" using Suc.prems(1) same_alone [OF same] by simp
    show "procs (user_of s1 (root_user s1)) = xs @ p # ys"
      using Suc.prems(2) same_proj(1,3) [OF same] by simp
    show "\<forall>x\<in>set xs. t_hasRun (task_of s1 x) = 0" using Suc.prems(3,4) unfolding s1(2) by simp
    show "t_hasRun (task_of s1 p) = int k" using Suc.prems(5) unfolding s1(2) by simp
  qed (rule Suc.prems(4))
  then obtain s2 where "choices k s1 = Some (replicate k p, s2)"
    "task_of s2 = (task_of s1)(p := (task_of s1 p)\<lparr>t_hasRun := 0\<rparr>)" by blast
  moreover from this(2) have "task_of s2 = (task_of s)(p := (task_of s p)\<lparr>t_hasRun := 0\<rparr>)"
    unfolding s1(2) by (simp only: fun_upd_upd fun_upd_same) simp
  moreover have "choices (Suc k) s = Some (replicate (Suc k) p, s2)" using s1(1) calculation(1) by simp
  ultimately show ?case by blast
qed

definition cycle :: "kstate \<Rightarrow> tid list" where
  "cycle s = concat (map (\<lambda>t. replicate (nat (share (task_of s t))) t) (procs (user_of s (root_user s))))"

lemma choices_round:
  assumes "alone s" and "procs (user_of s (root_user s)) = xs @ ys" and "distinct (xs @ ys)"
    and "\<forall>x\<in>set xs. t_hasRun (task_of s x) = 0"
    and "\<forall>y\<in>set ys. t_hasRun (task_of s y) = share (task_of s y)"
  shows "\<exists>s'. choices (length (concat (map (\<lambda>t. replicate (nat (share (task_of s t))) t) ys))) s =
      Some (concat (map (\<lambda>t. replicate (nat (share (task_of s t))) t) ys), s') \<and>
      (\<forall>x\<in>set (xs @ ys). t_hasRun (task_of s' x) = 0)"
  using assms
proof (induction ys arbitrary: xs s)
  case (Cons p ys)
  let ?k = "nat (share (task_of s p))"
  obtain s1 where s1: "choices ?k s = Some (replicate ?k p, s1)"
    "task_of s1 = (task_of s)(p := (task_of s p)\<lparr>t_hasRun := 0\<rparr>)"
    using choices_front [OF Cons.prems(1,2,4), of ?k] Cons.prems(3,5) by (auto simp: less_imp_le)
  note same = choices_same [OF s1(1)]
  have sh: "share (task_of s1 t) = share (task_of s t)" for t using same_share [OF same] .
  have "\<exists>s'. choices (length (concat (map (\<lambda>t. replicate (nat (share (task_of s1 t))) t) ys))) s1 =
      Some (concat (map (\<lambda>t. replicate (nat (share (task_of s1 t))) t) ys), s') \<and>
      (\<forall>x\<in>set ((xs @ [p]) @ ys). t_hasRun (task_of s' x) = 0)"
  proof (rule Cons.IH [of s1 "xs @ [p]"])
    show "alone s1" using Cons.prems(1) same_alone [OF same] by simp
    show "procs (user_of s1 (root_user s1)) = (xs @ [p]) @ ys"
      using Cons.prems(2) same_proj(1,3) [OF same] by simp
    show "distinct ((xs @ [p]) @ ys)" using Cons.prems(3) by simp
    show "\<forall>x\<in>set (xs @ [p]). t_hasRun (task_of s1 x) = 0" using Cons.prems(4) unfolding s1(2) by simp
    show "\<forall>y\<in>set ys. t_hasRun (task_of s1 y) = share (task_of s1 y)"
      unfolding sh using Cons.prems(3,5) unfolding s1(2) by auto
  qed
  then obtain s2 where "choices (length (concat (map (\<lambda>t. replicate (nat (share (task_of s t))) t) ys))) s1 =
      Some (concat (map (\<lambda>t. replicate (nat (share (task_of s t))) t) ys), s2)"
    "\<forall>x\<in>set ((xs @ [p]) @ ys). t_hasRun (task_of s2 x) = 0" unfolding sh by blast
  with s1(1) show ?case by (simp add: choices_add)
qed simp

section \<open>Properties of the choice\<close>

text \<open>
  C25. \<^verbatim>\<open>schedule()\<close> gets out of the loop around \<^verbatim>\<open>choose_task\<close> exactly when the root user has a process: if
  only other users have processes, it loops for ever.
\<close>

theorem choose_returns_iff_root_has_process:
  "(\<exists>t s'. choose_task None 0 s = Some (t, s')) \<longleftrightarrow> procs (user_of s (root_user s)) \<noteq> []"
proof
  assume "\<exists>t s'. choose_task None 0 s = Some (t, s')"
  then show "procs (user_of s (root_user s)) \<noteq> []" using choose_task_hangs [of s 0] by auto
next
  assume "procs (user_of s (root_user s)) \<noteq> []"
  from choose_task_prepared [OF this] show "\<exists>t s'. choose_task None 0 s = Some (t, s')"
    by (metis surj_pair)
qed

text \<open>
  C24. However often \<^verbatim>\<open>schedule()\<close> is called, it only chooses processes of the root user and of the first
  other user in the list: every other user starves.
\<close>

theorem choices_starve_later_users:
  assumes "choices n s = Some (ts, s')" and "t \<in> set ts"
  shows "t \<in> served s"
  using assms
proof (induction n arbitrary: s ts)
  case (Suc n)
  then obtain t1 s1 ts' where t1: "choose_task None 0 s = Some (t1, s1)"
    and ts: "choices n s1 = Some (ts', s')" "t = t1 \<or> t \<in> set ts'"
    by (auto split: Option.bind_splits)
  then show ?case
    using choose_task_served [OF t1] Suc.IH [OF ts(1)] same_served [OF choose_task_same [OF t1]] by blast
qed simp

text \<open>
  C22. When the root user is the only one with processes, the processor is shared as intended: started
  with the counters used up, \<open>m\<close> rounds of calls run the processes of the root user in turn, each once
  per round, a \<^verbatim>\<open>super\<close> process twice.
\<close>

theorem choices_fair_among_root_processes:
  assumes "alone s" and "procs (user_of s (root_user s)) \<noteq> []" and "distinct (procs (user_of s (root_user s)))"
    and "\<forall>t\<in>set (procs (user_of s (root_user s))). t_hasRun (task_of s t) = 0"
  shows "\<exists>s'. choices (m * length (cycle s)) s = Some (concat (replicate m (cycle s)), s') \<and>
             (\<forall>t\<in>set (procs (user_of s (root_user s))). t_hasRun (task_of s' t) = 0)"
  using assms
proof (induction m arbitrary: s)
  case (Suc m)
  let ?z = "prepared s" and ?ps = "procs (user_of s (root_user s))"
  note same = same_prepared [of s]
  have ps: "procs (user_of ?z (root_user ?z)) = ?ps" using same_proj(1,3) [OF same] by simp
  have sh: "share (task_of ?z t) = share (task_of s t)" for t using same_share [OF same] .
  have cyc: "cycle ?z = cycle s" by (simp add: cycle_def ps sh)
  have ex: "\<not> (\<exists>t\<in>set ?ps. ready s t)" using Suc.prems(4) by (simp add: ready_def)
  have full: "\<forall>y\<in>set ?ps. t_hasRun (task_of ?z y) = share (task_of ?z y)"
    using prepared_exhausted [OF ex] sh by simp
  have al: "alone ?z" using Suc.prems(1) same_alone [OF same] by simp
  have "\<exists>s'. choices (length (cycle ?z)) ?z = Some (cycle ?z, s') \<and> (\<forall>x\<in>set ([] @ ?ps). t_hasRun (task_of s' x) = 0)"
    unfolding cycle_def ps
    by (rule choices_round [where xs = "[]", OF al]) (use ps Suc.prems(3) full in simp_all)
  then obtain s1 where s1: "choices (length (cycle s)) ?z = Some (cycle s, s1)"
    "\<forall>x\<in>set ?ps. t_hasRun (task_of s1 x) = 0" unfolding cyc by auto
  have "length (cycle s) \<noteq> 0"
    using Suc.prems(2) by (cases ?ps) (simp_all add: cycle_def share_def)
  with choices_prepared [OF Suc.prems(2)] s1(1) have s1': "choices (length (cycle s)) s = Some (cycle s, s1)" by simp
  note same1 = choices_same [OF s1']
  have ps1: "procs (user_of s1 (root_user s1)) = ?ps" using same_proj(1,3) [OF same1] by simp
  have cyc1: "cycle s1 = cycle s" by (simp add: cycle_def ps1 same_share [OF same1])
  have al1: "alone s1" using Suc.prems(1) same_alone [OF same1] by simp
  have "\<exists>s'. choices (m * length (cycle s1)) s1 = Some (concat (replicate m (cycle s1)), s') \<and>
             (\<forall>t\<in>set (procs (user_of s1 (root_user s1))). t_hasRun (task_of s' t) = 0)"
    by (rule Suc.IH) (use al1 ps1 Suc.prems s1(2) in simp_all)
  with s1' show ?case unfolding ps1 cyc1 by (auto simp: choices_add)
qed simp

text \<open>
  C23. As soon as another user has a process that may run, the processor is not shared at all: the first
  process of the first user is chosen by every call, since its turns are never counted, and neither
  the root user nor the user's other processes ever run again.
\<close>

theorem choices_monopoly:
  assumes "procs (user_of s (root_user s)) \<noteq> []" and "userlist s = u # us" and "u \<noteq> root_user s"
    and "procs (user_of s u) = q # qs" and "t_hasRun (task_of s q) > 0"
    and "q \<notin> set (procs (user_of s (root_user s)))"
    and "u_hasRun (user_of s (root_user s)) \<le> 0 \<or>
         u_hasRun (user_of s (root_user s)) \<le> u_hasRun (user_of s u)"
  shows "\<exists>s'. choices n s = Some (replicate n q, s')"
  using assms
proof (induction n arbitrary: s)
  case (Suc n)
  let ?z = "prepared s" and ?r = "root_user s"
  note same = same_prepared [of s]
  have r: "root_user ?z = ?r" and us: "userlist ?z = u # us" and pr: "procs (user_of ?z v) = procs (user_of s v)" for v
    using same_proj [OF same] Suc.prems(2) by simp_all
  obtain p where p: "first_ready ?z ?r = Some p" "u_hasRun (user_of ?z ?r) > 0"
    and c: "choose_task None 0 s = Some (run_first p ?z)"
    using choose_task_prepared [OF Suc.prems(1)] by blast
  have pq: "p \<noteq> q" using first_ready_Some [OF p(1)] Suc.prems(6) pr by auto
  have ready_q: "t_hasRun (task_of ?z q) > 0" using prepared_tasks [of s q] Suc.prems(5) by auto
  have le: "u_hasRun (user_of ?z ?r) \<le> u_hasRun (user_of ?z u)"
    using prepared_users [of u s] Suc.prems(2,7) by auto
  let ?s1 = "spend_user ?r (spend_task p ?z)"
  have "first_ready ?s1 u = Some q"
    using pr [of u] Suc.prems(3,4) pq ready_q by (simp add: first_ready_def ready_def)
  moreover have "u_hasRun (user_of ?s1 u) > 0" using le p(2) Suc.prems(3) by simp
  ultimately have s1: "choose_task None 0 s = Some (q, spend_user u ?s1)"
    using c by (simp add: run_first_def r us Let_def del: spend_simps)
  note same1 = choose_task_same [OF s1]
  let ?s2 = "spend_user u ?s1"
  note pr2 = same_proj(1,2,3) [OF same1]
  have "\<exists>s'. choices n ?s2 = Some (replicate n q, s')"
  proof (rule Suc.IH)
    show "procs (user_of ?s2 (root_user ?s2)) \<noteq> []" unfolding pr2 by (rule Suc.prems(1))
    show "userlist ?s2 = u # us" unfolding pr2 by (rule Suc.prems(2))
    show "u \<noteq> root_user ?s2" unfolding pr2 by (rule Suc.prems(3))
    show "procs (user_of ?s2 u) = q # qs" unfolding pr2 by (rule Suc.prems(4))
    show "q \<notin> set (procs (user_of ?s2 (root_user ?s2)))" unfolding pr2 by (rule Suc.prems(6))
    show "t_hasRun (task_of ?s2 q) > 0" using ready_q pq by simp
    show "u_hasRun (user_of ?s2 (root_user ?s2)) \<le> 0 \<or> u_hasRun (user_of ?s2 (root_user ?s2)) \<le> u_hasRun (user_of ?s2 u)"
      unfolding pr2(1) using le Suc.prems(3) by simp
  qed
  with s1 show ?case by auto
qed simp

section \<open>Concrete schedules\<close>

definition idle_fields :: task where
  "idle_fields = \<lparr>policy = 0, counter = 0, nice = 0, rt_priority = 0, state = 0, need_resched = 0,
     processor = 0, cpus_runnable = 0, cpus_allowed = 0, mm = None, active_mm = None, t_uid = 0, t_euid = 0,
     super = 0, t_hasRun = 0\<rparr>"

text \<open>Root (user 0) has the processes 1 and 2, the second one \<^verbatim>\<open>super\<close>; the users 1 and 2 come behind.\<close>

definition some_users :: "tid list \<Rightarrow> tid list \<Rightarrow> int \<Rightarrow> kstate" where
  "some_users ps1 ps2 h = \<lparr>
     task_of = (\<lambda>t. idle_fields\<lparr>super := (if t = 2 then 1 else 0), t_hasRun := h\<rparr>),
     user_of = (\<lambda>u. \<lparr>procs = (if u = 0 then [1, 2] else if u = 1 then ps1 else ps2), u_hasRun = 0\<rparr>),
     root_user = 0, userlist = [1, 2], runqueue = [], nr_running = 0, cpu_curr = (\<lambda>_. 0),
     last_schedule = (\<lambda>_. 0), ipis = [], current = 0, this_cpu = 0, mm_count = (\<lambda>_. 0), context_swtch = 0\<rparr>"

theorem choices_fair_among_root_processes_witness:
  "\<exists>s'. choices 6 (some_users [] [] 0) = Some ([1, 2, 2, 1, 2, 2], s')"
proof -
  have c: "cycle (some_users [] [] 0) = [1, 2, 2]" by code_simp
  have "\<exists>s'. choices (2 * length (cycle (some_users [] [] 0))) (some_users [] [] 0) =
      Some (concat (replicate 2 (cycle (some_users [] [] 0))), s')"
    using choices_fair_among_root_processes [of "some_users [] [] 0" 2]
    by (auto simp: some_users_def alone_def idle_fields_def)
  moreover have "2 * length [1, 2, 2 :: nat] = 6" by simp
  moreover have "concat (replicate 2 [1, 2, 2 :: nat]) = [1, 2, 2, 1, 2, 2]" by code_simp
  ultimately show ?thesis unfolding c by metis
qed

theorem choices_monopoly_witness:
  "\<exists>s'. choices 100 (some_users [3, 4] [5] 1) = Some (replicate 100 3, s')"
  by (rule choices_monopoly [where u = 1 and us = "[2]" and qs = "[4]"])
    (simp_all add: some_users_def idle_fields_def)

theorem choices_starve_later_users_witness:
  "\<exists>ts s'. choices 1 (some_users [] [5] 1) = Some (ts, s') \<and> set ts \<subseteq> {1, 2}"
proof -
  have "procs (user_of (some_users [] [5] 1) (root_user (some_users [] [5] 1))) \<noteq> []"
    by (simp add: some_users_def)
  from choose_task_prepared [OF this] obtain t s' where "choose_task None 0 (some_users [] [5] 1) = Some (t, s')"
    by (metis surj_pair)
  then have c: "choices 1 (some_users [] [5] 1) = Some ([t], s')" by simp
  have "t \<in> served (some_users [] [5] 1)" using choices_starve_later_users [OF c, of t] by simp
  with c show ?thesis by (auto simp: served_def some_users_def)
qed

end
