(* ===== verification/Sched_Fields.thy ===== *)
theory Sched_Fields
  imports Sched_Choose
begin

text \<open>
  What the fair-share choice of \<^verbatim>\<open>schedule()\<close> looks at: of a task only \<^verbatim>\<open>super\<close> and \<^verbatim>\<open>hasRun\<close>. The choice
  commutes with any change of all the other fields.
\<close>

definition relabel :: "(tid \<Rightarrow> task) \<Rightarrow> kstate \<Rightarrow> kstate" where
  "relabel g s = s\<lparr>task_of := \<lambda>t. (g t)\<lparr>super := super (task_of s t), t_hasRun := t_hasRun (task_of s t)\<rparr>\<rparr>"

abbreviation relabelled :: "(tid \<Rightarrow> task) \<Rightarrow> 'a \<times> 'b \<times> kstate \<Rightarrow> 'a \<times> 'b \<times> kstate" where
  "relabelled g \<equiv> \<lambda>(a, b, s). (a, b, relabel g s)"

lemma relabel_simps [simp]:
  "user_of (relabel g s) = user_of s" "root_user (relabel g s) = root_user s"
  "userlist (relabel g s) = userlist s" "super (task_of (relabel g s) t) = super (task_of s t)"
  "t_hasRun (task_of (relabel g s) t) = t_hasRun (task_of s t)" "first_ready (relabel g s) u = first_ready s u"
  by (simp_all add: relabel_def first_ready_def ready_def [abs_def])

lemma relabel_back: "relabel (task_of s) (relabel g s) = s"
  by (simp add: relabel_def)

lemma relabel_user [simp]: "spend_user u (relabel g s) = relabel g (spend_user u s)"
  "fresh_user u (relabel g s) = relabel g (fresh_user u s)"
  by (simp_all add: relabel_def spend_user_def fresh_user_def upd_user_def)

lemma relabel_task [simp]: "spend_task t (relabel g s) = relabel g (spend_task t s)"
  "fresh_task t (relabel g s) = relabel g (fresh_task t s)"
  by (simp_all add: relabel_def spend_task_def fresh_task_def upd_task_def fun_eq_iff)

lemma relabel_fold:
  assumes "\<And>x s. f x (relabel g s) = relabel g (f x s)"
  shows "fold f xs (relabel g s) = relabel g (fold f xs s)"
  by (induction xs arbitrary: s) (simp_all add: assms)

lemma relabel_resets [simp]: "reset_users (relabel g s) = relabel g (reset_users s)"
  "reset_all (relabel g s) = relabel g (reset_all s)"
proof -
  have "reset_user_procs u (relabel g s) = relabel g (reset_user_procs u s)" for u s
    by (simp add: reset_user_procs_def Let_def relabel_fold)
  then show "reset_all (relabel g s) = relabel g (reset_all s)"
    by (simp add: reset_all_def relabel_fold)
  show "reset_users (relabel g s) = relabel g (reset_users s)"
    by (simp add: reset_users_def relabel_fold)
qed

lemma relabel_users_part: "users_part run count us (relabel g s) = relabelled g (users_part run count us s)"
  by (induction us arbitrary: run count s) (simp_all add: Let_def)

lemma relabel_pass: "choose_pass run count (relabel g s) = relabelled g (choose_pass run count s)"
proof -
  have "root_part run count (relabel g s) = relabelled g (root_part run count s)"
    by (simp add: root_part_def Let_def split: option.split)
  then show ?thesis
    by (simp add: choose_pass_def relabel_users_part split: prod.split)
qed

lemma relabel_choice:
  assumes "choose_task run count s = Some r"
  shows "choose_task run count (relabel g s) = Some (fst r, relabel g (snd r))"
proof (rule choose_task.raw_induct [where
    P = "\<lambda>run count s r. choose_task run count (relabel g s) = Some (fst r, relabel g (snd r))", OF _ assms])
  fix loop :: "tid option \<Rightarrow> nat \<Rightarrow> kstate \<Rightarrow> (tid \<times> kstate) option" and run count s r
  assume IH: "\<And>run count s r. loop run count s = Some r \<Longrightarrow>
      choose_task run count (relabel g s) = Some (fst r, relabel g (snd r))"
    and eq: "(let (run1, count1, s1) = choose_pass run count s
      in if count1 = 0 then loop run1 count1 (reset_users s1)
         else case run1 of None \<Rightarrow> loop run1 count1 (reset_all s1) | Some t \<Rightarrow> Some (t, s1)) = Some r"
  obtain run1 count1 s1 where p: "choose_pass run count s = (run1, count1, s1)" by (metis prod_cases3)
  show "choose_task run count (relabel g s) = Some (fst r, relabel g (snd r))"
    using eq IH by (subst choose_task.simps) (auto simp: relabel_pass p split: if_splits option.splits)
qed

lemma relabel_choose_task:
  "choose_task run count (relabel g s) = map_option (\<lambda>(t, s'). (t, relabel g s')) (choose_task run count s)"
proof (cases "choose_task run count s")
  case None
  moreover have "choose_task run count (relabel g s) = None"
  proof (rule ccontr)
    assume "choose_task run count (relabel g s) \<noteq> None"
    then obtain r where "choose_task run count (relabel g s) = Some r" by blast
    from relabel_choice [OF this, of "task_of s"] None show False by (simp add: relabel_back)
  qed
  ultimately show ?thesis by simp
next
  case (Some r)
  from relabel_choice [OF this] Some show ?thesis by (simp add: split_beta)
qed

section \<open>Properties\<close>

text \<open>
  C26. The choice of \<^verbatim>\<open>schedule()\<close> does not depend on the state, policy, priority, niceness, time slice or
  allowed processors of any task: whatever these fields are, the same processes run in the same order
  (or no choice returns), and the fields are left as they are. So a sleeping process is scheduled
  like a running one, and the scheduling system calls have no effect.
\<close>

theorem choices_ignore_task_fields:
  "choices n (relabel g s) = map_option (\<lambda>(ts, s'). (ts, relabel g s')) (choices n s)"
  by (induction n arbitrary: s) (simp_all add: relabel_choose_task option.map_comp split_beta
      map_option_bind bind_map_option comp_def)

end
