(* ===== verification/Sched_Switch.thy ===== *)
theory Sched_Switch
  imports Sched_Choose
begin

text \<open>
  The second half of \<^verbatim>\<open>schedule()\<close> in \<^verbatim>\<open>Project_2/stuff/sched.c\<close>: the switch to the chosen process with
  the lazy handling of address spaces. A kernel thread has no \<^verbatim>\<open>mm\<close> and borrows the \<^verbatim>\<open>active_mm\<close> of the
  process before it, counted in \<^verbatim>\<open>mm_count\<close>. \<^verbatim>\<open>BUG_ON\<close> and the use of a null pointer are outcomes.
\<close>

section \<open>The switch\<close>

datatype sched_outcome = Switched kstate | BugOn | Oops

definition enter_mm :: "tid \<Rightarrow> mm_ref option \<Rightarrow> kstate \<Rightarrow> sched_outcome" where
  "enter_mm nxt oldmm s =
     (case mm (task_of s nxt) of
        None \<Rightarrow>
          if active_mm (task_of s nxt) \<noteq> None then BugOn
          else (case oldmm of
                  None \<Rightarrow> Oops
                | Some m \<Rightarrow> Switched ((upd_task nxt (\<lambda>t. t\<lparr>active_mm := oldmm\<rparr>) s)
                                      \<lparr>mm_count := (mm_count s)(m := mm_count s m + 1)\<rparr>))
      | Some m \<Rightarrow> if active_mm (task_of s nxt) \<noteq> Some m then BugOn else Switched s)"

definition leave_mm :: "tid \<Rightarrow> mm_ref option \<Rightarrow> kstate \<Rightarrow> sched_outcome" where
  "leave_mm prev oldmm s =
     (if mm (task_of s prev) = None
      then (case oldmm of
              None \<Rightarrow> Oops
            | Some m \<Rightarrow> Switched ((upd_task prev (\<lambda>t. t\<lparr>active_mm := None\<rparr>) s)
                                  \<lparr>mm_count := (mm_count s)(m := mm_count s m - 1)\<rparr>))
      else Switched s)"

definition context_switch :: "kernel \<Rightarrow> tid \<Rightarrow> kstate \<Rightarrow> sched_outcome" where
  "context_switch k nxt s =
     (let prev = current s; cpu = processor (task_of s prev);
          s1 = (upd_task nxt (task_set_cpu k cpu) s)\<lparr>context_swtch := context_swtch s + 1\<rparr>;
          oldmm = active_mm (task_of s1 prev)
      in case enter_mm nxt oldmm s1 of
           Switched s2 \<Rightarrow>
             (case leave_mm prev oldmm s2 of
                Switched s3 \<Rightarrow> Switched (s3\<lparr>current := nxt\<rparr>)
              | r \<Rightarrow> r)
         | r \<Rightarrow> r)"

definition schedule :: "kernel \<Rightarrow> kstate \<Rightarrow> sched_outcome option" where
  "schedule k s =
     (case choose_task None 0 s of
        None \<Rightarrow> None
      | Some (nxt, s1) \<Rightarrow> Some (context_switch k nxt s1))"

section \<open>References to address spaces\<close>

text \<open>
  A process with an address space of its own uses it; of the threads without one exactly the current
  one has borrowed one. \<open>lazy_refs\<close> counts the borrowers among the tasks \<open>T\<close>.
\<close>

definition mm_wf :: "tid set \<Rightarrow> kstate \<Rightarrow> bool" where
  "mm_wf T s \<longleftrightarrow> finite T \<and> current s \<in> T \<and>
     (\<forall>t\<in>T. case mm (task_of s t) of
        Some m \<Rightarrow> active_mm (task_of s t) = Some m
      | None \<Rightarrow> (active_mm (task_of s t) \<noteq> None) = (t = current s))"

definition lazy_refs :: "tid set \<Rightarrow> kstate \<Rightarrow> mm_ref \<Rightarrow> int" where
  "lazy_refs T s m = int (card {t \<in> T. mm (task_of s t) = None \<and> active_mm (task_of s t) = Some m})"

lemma mm_wfD:
  assumes "mm_wf T s" and "t \<in> T"
  shows "mm (task_of s t) = Some m \<Longrightarrow> active_mm (task_of s t) = Some m"
    and "mm (task_of s t) = None \<Longrightarrow> (active_mm (task_of s t) \<noteq> None) = (t = current s)"
  using assms by (auto simp: mm_wf_def split: option.splits)

lemma lazy_refs_wf:
  assumes "mm_wf T s"
  shows "lazy_refs T s m =
    (if mm (task_of s (current s)) = None \<and> active_mm (task_of s (current s)) = Some m then 1 else 0)"
proof -
  have "{t \<in> T. mm (task_of s t) = None \<and> active_mm (task_of s t) = Some m} =
    (if mm (task_of s (current s)) = None \<and> active_mm (task_of s (current s)) = Some m then {current s} else {})"
    using mm_wfD(2) [OF assms] assms by (auto simp: mm_wf_def)
  then show ?thesis by (simp add: lazy_refs_def)
qed

lemma same_mm:
  assumes "same_lists s s'"
  shows "mm (task_of s' t) = mm (task_of s t)" "active_mm (task_of s' t) = active_mm (task_of s t)"
    "need_resched (task_of s' t) = need_resched (task_of s t)"
    "processor (task_of s' t) = processor (task_of s t)" "policy (task_of s' t) = policy (task_of s t)"
proof -
  have e: "strip (task_of s' t) = strip (task_of s t)" using assms by (simp only: same_lists_def)
  have "mm (strip x) = mm x" "active_mm (strip x) = active_mm x" "need_resched (strip x) = need_resched x"
    "processor (strip x) = processor x" "policy (strip x) = policy x" for x
    by (simp_all add: strip_def)
  then show "mm (task_of s' t) = mm (task_of s t)" "active_mm (task_of s' t) = active_mm (task_of s t)"
    "need_resched (task_of s' t) = need_resched (task_of s t)"
    "processor (task_of s' t) = processor (task_of s t)" "policy (task_of s' t) = policy (task_of s t)"
    using e by metis+
qed

lemma same_mm_wf:
  assumes "same_lists s s'"
  shows "mm_wf T s' = mm_wf T s"
  by (simp add: mm_wf_def same_mm [OF assms] same_proj(5) [OF assms] cong: option.case_cong)

lemma same_lazy: "same_lists s s' \<Longrightarrow> lazy_refs T s' m = lazy_refs T s m"
  using same_mm by (simp add: lazy_refs_def)

lemma set_cpu_fields:
  assumes "header_ok k"
  shows "mm (task_set_cpu k cpu t) = mm t" "active_mm (task_set_cpu k cpu t) = active_mm t"
    "need_resched (task_set_cpu k cpu t) = need_resched t" "policy (task_set_cpu k cpu t) = policy t"
proof -
  let ?f = "task_set_cpu k cpu"
  have e: "?f t = t\<lparr>processor := processor (?f t), cpus_runnable := cpus_runnable (?f t)\<rparr>"
    using assms by (simp only: header_ok_def cpu_fields_only_def)
  show "mm (?f t) = mm t" "active_mm (?f t) = active_mm t" "need_resched (?f t) = need_resched t"
    "policy (?f t) = policy t"
    by (subst e, simp)+
qed

text \<open>The switch on the fields that matter, when it does not fail.\<close>

lemma context_switch_ok:
  assumes wf: "mm_wf T s" and n: "nxt \<in> T" and h: "header_ok k"
    and ok: "nxt \<noteq> current s \<or> mm (task_of s nxt) \<noteq> None"
  shows "\<exists>s'. context_switch k nxt s = Switched s' \<and> current s' = nxt \<and> mm_wf T s' \<and>
     (\<forall>m. mm_count s' m - lazy_refs T s' m = mm_count s m - lazy_refs T s m)"
proof -
  let ?p = "current s"
  define s1 where "s1 = (upd_task nxt (task_set_cpu k (processor (task_of s ?p))) s)\<lparr>context_swtch := context_swtch s + 1\<rparr>"
  have f: "mm (task_of s1 t) = mm (task_of s t)" "active_mm (task_of s1 t) = active_mm (task_of s t)" for t
    using set_cpu_fields [OF h] by (auto simp: s1_def)
  have c1: "current s1 = ?p" "mm_count s1 = mm_count s" by (simp_all add: s1_def)
  have p: "?p \<in> T" using wf by (simp add: mm_wf_def)
  have act: "\<exists>m. active_mm (task_of s ?p) = Some m"
    using mm_wfD [OF wf p] by (cases "mm (task_of s ?p)") auto
  then obtain om where om: "active_mm (task_of s ?p) = Some om" by blast
  obtain s2 where s2: "enter_mm nxt (Some om) s1 = Switched s2" and cur2: "current s2 = ?p"
    and mm2: "\<And>t. mm (task_of s2 t) = mm (task_of s t)"
    and act2: "\<And>t. active_mm (task_of s2 t) =
      (if t = nxt \<and> mm (task_of s nxt) = None then Some om else active_mm (task_of s t))"
    and cnt2: "\<And>m. mm_count s2 m = mm_count s m + (if mm (task_of s nxt) = None \<and> m = om then 1 else 0)"
  proof (cases "mm (task_of s nxt)")
    case None
    then have "nxt \<noteq> ?p" using ok by simp
    then have "active_mm (task_of s nxt) = None" using mm_wfD(2) [OF wf n None] by simp
    then have e: "enter_mm nxt (Some om) s1 = Switched ((upd_task nxt (\<lambda>t. t\<lparr>active_mm := Some om\<rparr>) s1)
        \<lparr>mm_count := (mm_count s1)(om := mm_count s1 om + 1)\<rparr>)" (is "_ = Switched ?s2")
      using None by (simp add: enter_mm_def f c1)
    have "mm (task_of ?s2 t) = mm (task_of s1 t)"
      "active_mm (task_of ?s2 t) = (if t = nxt then Some om else active_mm (task_of s1 t))"
      "mm_count ?s2 m = mm_count s m + (if m = om then 1 else 0)" for t m using c1 by simp_all
    then show ?thesis using None by (intro that [OF e]) (simp_all only: f, simp_all add: c1)
  next
    case (Some m)
    then have "active_mm (task_of s nxt) = Some m" using mm_wfD(1) [OF wf n] by simp
    then have "enter_mm nxt (Some om) s1 = Switched s1" using Some f by (simp add: enter_mm_def)
    then show ?thesis using that Some f c1 by auto
  qed
  obtain s3 where s3: "leave_mm ?p (Some om) s2 = Switched s3"
    and mm3: "\<And>t. mm (task_of s3 t) = mm (task_of s t)"
    and act3: "\<And>t. active_mm (task_of s3 t) =
      (if t = ?p \<and> mm (task_of s ?p) = None then None else active_mm (task_of s2 t))"
    and cnt3: "\<And>m. mm_count s3 m = mm_count s2 m - (if mm (task_of s ?p) = None \<and> m = om then 1 else 0)"
    using mm2 that unfolding leave_mm_def by (cases "mm (task_of s ?p)") auto
  let ?s' = "s3\<lparr>current := nxt\<rparr>"
  have "context_switch k nxt s = Switched ?s'"
    using s2 s3 om f(2) [of ?p] unfolding context_switch_def Let_def s1_def [symmetric] by simp
  moreover have wf': "mm_wf T ?s'"
    unfolding mm_wf_def
  proof (intro conjI ballI)
    show "finite T" using wf by (simp add: mm_wf_def)
    show "current ?s' \<in> T" using n by simp
    fix t assume t: "t \<in> T"
    show "case mm (task_of ?s' t) of
        Some m \<Rightarrow> active_mm (task_of ?s' t) = Some m
      | None \<Rightarrow> (active_mm (task_of ?s' t) \<noteq> None) = (t = current ?s')"
      using mm_wfD [OF wf t] ok by (auto simp: mm3 act3 act2 split: option.splits)
  qed
  moreover have "mm_count ?s' m - lazy_refs T ?s' m = mm_count s m - lazy_refs T s m" for m
  proof -
    have "lazy_refs T ?s' m = (if mm (task_of s nxt) = None \<and> active_mm (task_of s3 nxt) = Some m then 1 else 0)"
      using lazy_refs_wf [OF wf', of m] by (simp add: mm3)
    then show ?thesis
      using ok om mm_wfD [OF wf n] lazy_refs_wf [OF wf, of m]
      by (cases "nxt = ?p") (auto simp: act3 act2 cnt3 cnt2)
  qed
  ultimately show ?thesis by auto
qed

section \<open>Properties\<close>

text \<open>
  C27. A call of \<^verbatim>\<open>schedule()\<close> switches to the chosen process and keeps the books on address spaces: the
  borrowed ones stay counted exactly, whichever of the two tasks are kernel threads, unless a running
  kernel thread is chosen again.
\<close>

theorem schedule_counts_address_spaces:
  assumes "choose_task None 0 s = Some (nxt, s1)" and "mm_wf T s" and "nxt \<in> T" and "header_ok k"
    and "nxt \<noteq> current s \<or> mm (task_of s nxt) \<noteq> None"
  shows "\<exists>s'. schedule k s = Some (Switched s') \<and> current s' = nxt \<and> mm_wf T s' \<and>
             (\<forall>m. mm_count s' m - lazy_refs T s' m = mm_count s m - lazy_refs T s m)"
proof -
  note same = choose_task_same [OF assms(1)]
  have "mm_wf T s1" using assms(2) same_mm_wf [OF same] by simp
  from context_switch_ok [OF this assms(3,4)] assms(5) same_mm(1) [OF same] same_proj(5,6) [OF same] same_lazy [OF same]
  show ?thesis by (simp add: schedule_def assms(1))
qed

text \<open>
  A kernel thread that is chosen again while it runs stops the kernel: its borrowed \<^verbatim>\<open>active_mm\<close> trips
  \<^verbatim>\<open>BUG_ON(next->active_mm)\<close>, since the new \<^verbatim>\<open>schedule()\<close> has no test for \<^verbatim>\<open>prev == next\<close>.
\<close>

theorem schedule_bug_on_same_kernel_thread:
  assumes "choose_task None 0 s = Some (current s, s1)" and "mm_wf T s" and "header_ok k"
    and "mm (task_of s (current s)) = None"
  shows "schedule k s = Some BugOn"
proof -
  note same = choose_task_same [OF assms(1)]
  have "active_mm (task_of s (current s)) \<noteq> None"
    using mm_wfD(2) [OF assms(2) _ assms(4)] assms(2) by (auto simp: mm_wf_def)
  then show ?thesis
    using assms(4) same_mm(1,2) [OF same] same_proj(5) [OF same] set_cpu_fields(1,2) [OF assms(3)]
    by (simp add: schedule_def assms(1) context_switch_def enter_mm_def Let_def)
qed

lemma enter_leave_frame:
  "enter_mm nxt oldmm s = Switched s' \<Longrightarrow> cpu_curr s' = cpu_curr s \<and> current s' = current s \<and>
     need_resched (task_of s' t) = need_resched (task_of s t) \<and> policy (task_of s' t) = policy (task_of s t)"
  "leave_mm prev oldmm s = Switched s' \<Longrightarrow> cpu_curr s' = cpu_curr s \<and> current s' = current s \<and>
     need_resched (task_of s' t) = need_resched (task_of s t) \<and> policy (task_of s' t) = policy (task_of s t)"
  by (auto simp: enter_mm_def leave_mm_def split: option.splits if_splits)

lemma context_switch_frame:
  assumes "context_switch k nxt s = Switched s'" and "header_ok k"
  shows "cpu_curr s' = cpu_curr s" "current s' = nxt"
    "need_resched (task_of s' t) = need_resched (task_of s t)" "policy (task_of s' t) = policy (task_of s t)"
proof -
  define s1 where "s1 = (upd_task nxt (task_set_cpu k (processor (task_of s (current s)))) s)
    \<lparr>context_swtch := context_swtch s + 1\<rparr>"
  obtain s2 s3 where "enter_mm nxt (active_mm (task_of s1 (current s))) s1 = Switched s2"
    "leave_mm (current s) (active_mm (task_of s1 (current s))) s2 = Switched s3" "s' = s3\<lparr>current := nxt\<rparr>"
    using assms(1) unfolding context_switch_def Let_def s1_def [symmetric]
    by (auto split: sched_outcome.splits)
  moreover have "cpu_curr s1 = cpu_curr s" "need_resched (task_of s1 t) = need_resched (task_of s t)"
    "policy (task_of s1 t) = policy (task_of s t)"
    using set_cpu_fields(3,4) [OF assms(2)] by (auto simp: s1_def)
  ultimately show "cpu_curr s' = cpu_curr s" "current s' = nxt"
    "need_resched (task_of s' t) = need_resched (task_of s t)" "policy (task_of s' t) = policy (task_of s t)"
    using enter_leave_frame by auto
qed

text \<open>
  \<^verbatim>\<open>schedule()\<close> leaves the data of the other routines stale: after a switch to another task \<^verbatim>\<open>cpu_curr\<close>
  still names the old one, no \<^verbatim>\<open>need_resched\<close> is cleared, and a task that has yielded keeps its
  \<^verbatim>\<open>SCHED_YIELD\<close> mark, since \<^verbatim>\<open>__schedule_tail\<close> is no longer called.
\<close>

theorem schedule_leaves_stale_data:
  assumes "schedule k s = Some (Switched s')" and "header_ok k"
    and "cpu_curr s cpu = current s" and "current s' \<noteq> current s"
  shows "cpu_curr s' cpu \<noteq> current s' \<and> need_resched (task_of s' t) = need_resched (task_of s t) \<and>
         policy (task_of s' t) = policy (task_of s t)"
proof -
  obtain nxt s1 where c: "choose_task None 0 s = Some (nxt, s1)" and w: "context_switch k nxt s1 = Switched s'"
    using assms(1) by (auto simp: schedule_def split: option.splits)
  note same = choose_task_same [OF c]
  from context_switch_frame [OF w assms(2)] same_proj(4) [OF same] same_mm(3,5) [OF same] assms(3,4)
  show ?thesis by simp
qed

section \<open>Concrete switches\<close>

text \<open>
  A configuration of one processor; the tasks 1 and 2 of the root user are a process with the address
  space 7 and a kernel thread.
\<close>

definition up_kernel :: kernel where
  "up_kernel = \<lparr>CONFIG_SMP = False, HZ = 100, PROC_CHANGE_PENALTY = 15, SCHED_YIELD = 16, smp_num_cpus = 1,
     cpu_logical_map = id, cpu_number_map = id, smp_num_siblings = 1, cpu_sibling_map = id,
     init_tasks = (\<lambda>_. 0), init_task = 0, task_set_cpu = (\<lambda>cpu t. t\<lparr>processor := cpu\<rparr>),
     task_release_cpu = id, task_has_cpu = (\<lambda>_. True)\<rparr>"

lemma up_header_ok: "header_ok up_kernel"
  by (simp add: header_ok_def yield_bit_def cpu_fields_only_def up_kernel_def)

definition two_tasks :: "tid \<Rightarrow> kstate" where
  "two_tasks cur = (some_users [] [] 0)\<lparr>
     task_of := (\<lambda>t. idle_fields\<lparr>t_hasRun := (if t = 2 then 1 else 0),
       mm := (if t = 1 then Some 7 else None),
       active_mm := (if t = 1 \<or> t = cur then Some 7 else None)\<rparr>),
     current := cur, cpu_curr := (\<lambda>_. cur)\<rparr>"

lemma two_tasks_wf: "cur = 1 \<or> cur = 2 \<Longrightarrow> mm_wf {1, 2} (two_tasks cur)"
  by (auto simp: mm_wf_def two_tasks_def idle_fields_def)

lemma two_tasks_choose: "\<exists>s1. choose_task None 0 (two_tasks cur) = Some (2, s1)"
proof -
  let ?s = "two_tasks cur"
  have "procs (user_of ?s (root_user ?s)) = [1, 2]" "ready ?s 2" "\<not> ready ?s 1"
    by (simp_all add: two_tasks_def some_users_def ready_def)
  then have "first_ready ?s (root_user ?s) = Some 2" by (simp add: first_ready_def)
  moreover have "alone ?s" by (simp add: alone_def two_tasks_def some_users_def)
  ultimately show ?thesis using choose_alone [of ?s 2] by blast
qed

theorem schedule_counts_address_spaces_witness:
  "\<exists>s'. schedule up_kernel (two_tasks 1) = Some (Switched s') \<and> current s' = 2 \<and>
        mm_count s' 7 - lazy_refs {1, 2} s' 7 = 0"
proof -
  obtain s1 where c: "choose_task None 0 (two_tasks 1) = Some (2, s1)" using two_tasks_choose by blast
  have cur: "current (two_tasks 1) = 1" by (simp add: two_tasks_def)
  have "mm_count (two_tasks 1) 7 - lazy_refs {1, 2} (two_tasks 1) 7 = 0"
    using lazy_refs_wf [OF two_tasks_wf [of 1]] by (simp add: two_tasks_def some_users_def idle_fields_def)
  moreover obtain s' where "schedule up_kernel (two_tasks 1) = Some (Switched s')" "current s' = 2"
    "\<forall>m. mm_count s' m - lazy_refs {1, 2} s' m = mm_count (two_tasks 1) m - lazy_refs {1, 2} (two_tasks 1) m"
    using schedule_counts_address_spaces [OF c two_tasks_wf [of 1] _ up_header_ok] cur by auto
  ultimately show ?thesis by metis
qed

theorem schedule_bug_on_same_kernel_thread_witness:
  "schedule up_kernel (two_tasks 2) = Some BugOn"
proof -
  have cur: "current (two_tasks 2) = 2" by (simp add: two_tasks_def)
  obtain s1 where "choose_task None 0 (two_tasks 2) = Some (current (two_tasks 2), s1)"
    using two_tasks_choose [of 2] cur by auto
  from schedule_bug_on_same_kernel_thread [OF this two_tasks_wf up_header_ok] show ?thesis
    by (simp add: two_tasks_def idle_fields_def)
qed

theorem schedule_leaves_stale_data_witness:
  "\<exists>s'. schedule up_kernel (two_tasks 1) = Some (Switched s') \<and> current s' = 2 \<and> cpu_curr s' 0 \<noteq> current s'"
proof -
  obtain s1 where c: "choose_task None 0 (two_tasks 1) = Some (2, s1)" using two_tasks_choose by blast
  note same = choose_task_same [OF c]
  have cur: "current (two_tasks 1) = 1" "cpu_curr (two_tasks 1) 0 = 1" by (simp_all add: two_tasks_def)
  have wf: "mm_wf {1, 2} s1" using two_tasks_wf [of 1] same_mm_wf [OF same] by simp
  have "2 \<noteq> current s1" using same_proj(5) [OF same] cur by simp
  from context_switch_ok [OF wf _ up_header_ok, of 2] this obtain s' where
    "context_switch up_kernel 2 s1 = Switched s'" "current s' = 2" by auto
  then have s': "schedule up_kernel (two_tasks 1) = Some (Switched s')" "current s' = 2"
    unfolding schedule_def c by simp_all
  with schedule_leaves_stale_data [OF s'(1) up_header_ok, of 0] cur show ?thesis by auto
qed

end
