(* ===== verification/Sched_Wakeup.thy ===== *)
theory Sched_Wakeup
  imports Sched_Switch
begin

text \<open>
  Waking up tasks in \<^verbatim>\<open>Project_2/stuff/sched.c\<close>: \<^verbatim>\<open>goodness\<close> and \<^verbatim>\<open>preemption_goodness\<close>, the choice of a
  processor for a woken task in \<^verbatim>\<open>reschedule_idle\<close>, \<^verbatim>\<open>try_to_wake_up\<close>, the wait queues and completions.
  The spin locks around them are left out: every routine here runs under its lock.
\<close>

section \<open>Goodness\<close>

definition goodness :: "kernel \<Rightarrow> task \<Rightarrow> nat \<Rightarrow> mm_ref option \<Rightarrow> int" where
  "goodness k p cpu this_mm =
     (if policy p AND SCHED_YIELD k \<noteq> 0 then - 1
      else if policy p = SCHED_OTHER then
        (let weight = counter p
         in if weight = 0 then weight
            else weight
              + (if CONFIG_SMP k \<and> processor p = cpu then PROC_CHANGE_PENALTY k else 0)
              + (if mm p = this_mm \<or> mm p = None then 1 else 0)
              + (20 - nice p))
      else 1000 + rt_priority p)"

definition preemption_goodness :: "kernel \<Rightarrow> task \<Rightarrow> task \<Rightarrow> nat \<Rightarrow> int" where
  "preemption_goodness k prev p cpu = goodness k p cpu (active_mm prev) - goodness k prev cpu (active_mm prev)"

section \<open>A processor for a woken task\<close>

definition send_now_idle :: "nat \<Rightarrow> tid \<Rightarrow> kstate \<Rightarrow> kstate" where
  "send_now_idle best_cpu tsk s =
     (let old = need_resched (task_of s tsk); s1 = upd_task tsk (\<lambda>t. t\<lparr>need_resched := 1\<rparr>) s
      in if best_cpu \<noteq> this_cpu s \<and> old = 0 then s1\<lparr>ipis := ipis s1 @ [best_cpu]\<rparr> else s1)"

text \<open>The loop over the processors; \<^verbatim>\<open>(cycles_t) -1\<close> is the largest value.\<close>

fun scan_cpus :: "kernel \<Rightarrow> tid \<Rightarrow> kstate \<Rightarrow> nat list \<Rightarrow> u64 \<Rightarrow> tid option \<Rightarrow> int \<Rightarrow> u64 \<times> tid option" where
  "scan_cpus k p s [] oldest_idle target max_prio = (oldest_idle, target)"
| "scan_cpus k p s (cpu # cpus) oldest_idle target max_prio =
     (if \<not> can_schedule k (task_of s p) cpu then scan_cpus k p s cpus oldest_idle target max_prio
      else let tsk = cpu_curr s cpu
        in if tsk = idle_task k cpu then
             (if smp_num_siblings k = 2 \<and>
                 cpu_curr s (cpu_sibling_map k cpu) = idle_task k (cpu_sibling_map k cpu)
              then (last_schedule s cpu, Some tsk)
              else if last_schedule s cpu < oldest_idle
              then scan_cpus k p s cpus (last_schedule s cpu) (Some tsk) max_prio
              else scan_cpus k p s cpus oldest_idle target max_prio)
           else if oldest_idle = - 1 then
             (let prio = preemption_goodness k (task_of s tsk) (task_of s p) cpu
              in if prio > max_prio then scan_cpus k p s cpus oldest_idle (Some tsk) prio
                 else scan_cpus k p s cpus oldest_idle target max_prio)
           else scan_cpus k p s cpus oldest_idle target max_prio)"

definition reschedule_idle :: "kernel \<Rightarrow> tid \<Rightarrow> kstate \<Rightarrow> kstate" where
  "reschedule_idle k p s =
     (if CONFIG_SMP k then
        (let best_cpu = processor (task_of s p)
         in if can_schedule k (task_of s p) best_cpu \<and> cpu_curr s best_cpu = idle_task k best_cpu
            then send_now_idle best_cpu (idle_task k best_cpu) s
            else case scan_cpus k p s (map (cpu_logical_map k) [0..<smp_num_cpus k]) (- 1) None 0 of
              (_, None) \<Rightarrow> s
            | (oldest_idle, Some tsk) \<Rightarrow>
                if oldest_idle \<noteq> - 1 then send_now_idle (processor (task_of s tsk)) tsk s
                else let s1 = upd_task tsk (\<lambda>t. t\<lparr>need_resched := 1\<rparr>) s
                  in if processor (task_of s tsk) \<noteq> this_cpu s
                     then s1\<lparr>ipis := ipis s1 @ [processor (task_of s tsk)]\<rparr> else s1)
      else
        (let tsk = cpu_curr s (this_cpu s)
         in if preemption_goodness k (task_of s tsk) (task_of s p) (this_cpu s) > 0
            then upd_task tsk (\<lambda>t. t\<lparr>need_resched := 1\<rparr>) s else s))"

section \<open>Wake-up\<close>

definition try_to_wake_up :: "kernel \<Rightarrow> tid \<Rightarrow> bool \<Rightarrow> kstate \<Rightarrow> bool \<times> kstate" where
  "try_to_wake_up k p synchronous s =
     (let s1 = upd_task p (\<lambda>t. t\<lparr>state := TASK_RUNNING\<rparr>) s
      in if task_on_runqueue p s1 then (False, s1)
         else let s2 = add_to_runqueue p s1
           in (True,
               if \<not> synchronous \<or> cpus_allowed (task_of s2 p) AND push_bit (this_cpu s2) 1 = 0
               then reschedule_idle k p s2 else s2))"

definition wake_up_process :: "kernel \<Rightarrow> tid \<Rightarrow> kstate \<Rightarrow> bool \<times> kstate" where
  "wake_up_process k p s = try_to_wake_up k p False s"

text \<open>An entry of a wait queue, with its \<^verbatim>\<open>WQ_FLAG_EXCLUSIVE\<close>.\<close>

record waiter =
  w_task :: tid
  exclusive :: bool

fun wake_up_common :: "kernel \<Rightarrow> waiter list \<Rightarrow> ulong \<Rightarrow> int \<Rightarrow> bool \<Rightarrow> kstate \<Rightarrow> kstate" where
  "wake_up_common k [] mode nr_exclusive sync s = s"
| "wake_up_common k (w # ws) mode nr_exclusive sync s =
     (if state (task_of s (w_task w)) AND mode \<noteq> 0 then
        (let (ok, s1) = try_to_wake_up k (w_task w) sync s
         in if ok \<and> exclusive w
            then (if nr_exclusive - 1 = 0 then s1 else wake_up_common k ws mode (nr_exclusive - 1) sync s1)
            else wake_up_common k ws mode nr_exclusive sync s1)
      else wake_up_common k ws mode nr_exclusive sync s)"

definition wake_up :: "kernel \<Rightarrow> waiter list option \<Rightarrow> ulong \<Rightarrow> int \<Rightarrow> kstate \<Rightarrow> kstate" where
  "wake_up k q mode nr s = (case q of None \<Rightarrow> s | Some ws \<Rightarrow> wake_up_common k ws mode nr False s)"

definition wake_up_sync :: "kernel \<Rightarrow> waiter list option \<Rightarrow> ulong \<Rightarrow> int \<Rightarrow> kstate \<Rightarrow> kstate" where
  "wake_up_sync k q mode nr s = (case q of None \<Rightarrow> s | Some ws \<Rightarrow> wake_up_common k ws mode nr True s)"

record completion =
  completed :: u32
  c_wait :: "waiter list"

definition complete_comp :: "kernel \<Rightarrow> completion \<Rightarrow> kstate \<Rightarrow> completion \<times> kstate" where
  "complete_comp k x s =
     (x\<lparr>completed := completed x + 1\<rparr>,
      wake_up_common k (c_wait x) (TASK_UNINTERRUPTIBLE OR TASK_INTERRUPTIBLE) 1 False s)"

section \<open>Frames\<close>

lemma send_now_idle_frame [frame]:
  "runqueue (send_now_idle c t s) = runqueue s" "nr_running (send_now_idle c t s) = nr_running s"
  "state (task_of (send_now_idle c t s) u) = state (task_of s u)"
  by (auto simp: send_now_idle_def Let_def)

lemma reschedule_idle_frame [frame]:
  "runqueue (reschedule_idle k p s) = runqueue s" "nr_running (reschedule_idle k p s) = nr_running s"
  "state (task_of (reschedule_idle k p s) u) = state (task_of s u)"
  by (auto simp: reschedule_idle_def Let_def send_now_idle_frame split: prod.splits option.splits)

lemma try_to_wake_up_effect:
  assumes "try_to_wake_up k p sync s = (ok, s')"
  shows "ok \<longleftrightarrow> p \<notin> set (runqueue s)"
    and "state (task_of s' u) = (if u = p then TASK_RUNNING else state (task_of s u))"
    and "runqueue s' = (if ok then runqueue s @ [p] else runqueue s)"
    and "nr_running s' = (if ok then nr_running s + 1 else nr_running s)"
  using assms
  by (auto simp: try_to_wake_up_def Let_def task_on_runqueue_def reschedule_idle_frame
      add_to_runqueue_def split: if_splits)

section \<open>The search for a processor\<close>

definition idle_for :: "kernel \<Rightarrow> tid \<Rightarrow> kstate \<Rightarrow> nat \<Rightarrow> bool" where
  "idle_for k p s cpu \<longleftrightarrow> can_schedule k (task_of s p) cpu \<and> cpu_curr s cpu = idle_task k cpu"

definition busy_for :: "kernel \<Rightarrow> tid \<Rightarrow> kstate \<Rightarrow> nat \<Rightarrow> bool" where
  "busy_for k p s cpu \<longleftrightarrow> can_schedule k (task_of s p) cpu \<and> cpu_curr s cpu \<noteq> idle_task k cpu"

definition gain :: "kernel \<Rightarrow> tid \<Rightarrow> kstate \<Rightarrow> nat \<Rightarrow> int" where
  "gain k p s cpu = preemption_goodness k (task_of s (cpu_curr s cpu)) (task_of s p) cpu"

definition cpus :: "kernel \<Rightarrow> nat list" where
  "cpus k = map (cpu_logical_map k) [0..<smp_num_cpus k]"

lemma scan_oldest_idle:
  assumes "smp_num_siblings k \<noteq> 2" and "scan_cpus k p s cs old tgt mp = (oldest, t)"
  shows "(\<forall>cpu\<in>set cs. idle_for k p s cpu \<longrightarrow> oldest \<le> last_schedule s cpu) \<and>
    (oldest = old \<and> (old \<noteq> - 1 \<longrightarrow> t = tgt) \<or>
     oldest < old \<and>
      (\<exists>cpu\<in>set cs. idle_for k p s cpu \<and> last_schedule s cpu = oldest \<and> t = Some (idle_task k cpu)))"
  using assms(2)
proof (induction cs arbitrary: old tgt mp)
  case (Cons c cs)
  consider "\<not> can_schedule k (task_of s p) c" | "busy_for k p s c"
    | "idle_for k p s c" "last_schedule s c < old" | "idle_for k p s c" "\<not> last_schedule s c < old"
    by (auto simp: idle_for_def busy_for_def)
  then show ?case
  proof cases
    case 1
    then have "scan_cpus k p s cs old tgt mp = (oldest, t)" "\<not> idle_for k p s c"
      using Cons.prems by (simp_all add: idle_for_def)
    with Cons.IH [OF this(1)] show ?thesis by auto
  next
    case 2
    then obtain tgt' mp' where "scan_cpus k p s cs old tgt' mp' = (oldest, t)" "old \<noteq> - 1 \<longrightarrow> tgt' = tgt"
      using Cons.prems by (auto simp: busy_for_def Let_def split: if_splits)
    moreover have "\<not> idle_for k p s c" using 2 by (simp add: idle_for_def busy_for_def)
    ultimately show ?thesis using Cons.IH by fastforce
  next
    case 3
    then have "scan_cpus k p s cs (last_schedule s c) (Some (idle_task k c)) mp = (oldest, t)"
      using Cons.prems assms(1) by (simp add: idle_for_def Let_def)
    from Cons.IH [OF this] have IH: "\<forall>cpu\<in>set cs. idle_for k p s cpu \<longrightarrow> oldest \<le> last_schedule s cpu"
      "oldest = last_schedule s c \<and> (last_schedule s c \<noteq> - 1 \<longrightarrow> t = Some (idle_task k c)) \<or>
       oldest < last_schedule s c \<and>
        (\<exists>cpu\<in>set cs. idle_for k p s cpu \<and> last_schedule s cpu = oldest \<and> t = Some (idle_task k cpu))"
      by blast+
    have "last_schedule s c \<noteq> - 1" using 3(2) by (metis word_not_simps(3))
    then show ?thesis using IH 3 by (auto simp: less_imp_le)
  next
    case 4
    then have "scan_cpus k p s cs old tgt mp = (oldest, t)"
      using Cons.prems assms(1) by (simp add: idle_for_def Let_def)
    from Cons.IH [OF this] 4(2) show ?thesis by (auto simp: not_less)
  qed
qed simp

lemma scan_best_busy:
  assumes "\<forall>cpu\<in>set cs. \<not> idle_for k p s cpu" and "scan_cpus k p s cs (- 1) tgt mp = (oldest, t)"
  shows "oldest = - 1 \<and>
    ((\<forall>cpu\<in>set cs. busy_for k p s cpu \<longrightarrow> gain k p s cpu \<le> mp) \<and> t = tgt \<or>
     (\<exists>cpu\<in>set cs. busy_for k p s cpu \<and> t = Some (cpu_curr s cpu) \<and> mp < gain k p s cpu \<and>
        (\<forall>cpu'\<in>set cs. busy_for k p s cpu' \<longrightarrow> gain k p s cpu' \<le> gain k p s cpu)))"
  using assms
proof (induction cs arbitrary: tgt mp)
  case (Cons c cs)
  have no: "\<forall>cpu\<in>set cs. \<not> idle_for k p s cpu" using Cons.prems(1) by simp
  consider "\<not> can_schedule k (task_of s p) c" | "busy_for k p s c" "mp < gain k p s c"
    | "busy_for k p s c" "\<not> mp < gain k p s c"
    using Cons.prems(1) by (auto simp: idle_for_def busy_for_def)
  then show ?case
  proof cases
    case 1
    then have "scan_cpus k p s cs (- 1) tgt mp = (oldest, t)" "\<not> busy_for k p s c"
      using Cons.prems(2) by (simp_all add: busy_for_def)
    with Cons.IH [OF no this(1)] show ?thesis by auto
  next
    case 2
    then have "scan_cpus k p s cs (- 1) (Some (cpu_curr s c)) (gain k p s c) = (oldest, t)"
      using Cons.prems(2) by (simp add: busy_for_def gain_def Let_def)
    from Cons.IH [OF no this] 2 show ?thesis by fastforce
  next
    case 3
    then have "scan_cpus k p s cs (- 1) tgt mp = (oldest, t)"
      using Cons.prems(2) by (simp add: busy_for_def gain_def Let_def)
    from Cons.IH [OF no this] 3 show ?thesis by fastforce
  qed
qed simp

text \<open>What happens when the last processor of the task is not idle.\<close>

definition poke :: "tid \<Rightarrow> kstate \<Rightarrow> kstate" where
  "poke tsk s =
     (let s1 = upd_task tsk (\<lambda>t. t\<lparr>need_resched := 1\<rparr>) s
      in if processor (task_of s tsk) \<noteq> this_cpu s
         then s1\<lparr>ipis := ipis s1 @ [processor (task_of s tsk)]\<rparr> else s1)"

lemma poke_tasks: "task_of (poke t s) = (task_of s)(t := (task_of s t)\<lparr>need_resched := 1\<rparr>)"
  by (simp add: poke_def Let_def)

lemma reschedule_idle_search:
  assumes "CONFIG_SMP k" and "\<not> idle_for k p s (processor (task_of s p))"
    and "scan_cpus k p s (cpus k) (- 1) None 0 = (oldest, t)"
  shows "reschedule_idle k p s =
    (case t of None \<Rightarrow> s
     | Some tsk \<Rightarrow> if oldest \<noteq> - 1 then send_now_idle (processor (task_of s tsk)) tsk s else poke tsk s)"
  unfolding reschedule_idle_def Let_def idle_for_def [symmetric] cpus_def [symmetric] assms(3) poke_def
  using assms(1,2) by (simp only: if_True if_False prod.case)

section \<open>Sequences of wake-ups\<close>

definition sleeping :: "kstate \<Rightarrow> ulong \<Rightarrow> waiter \<Rightarrow> bool" where
  "sleeping s mode w \<longleftrightarrow> state (task_of s (w_task w)) AND mode \<noteq> 0 \<and> w_task w \<notin> set (runqueue s)"

lemma rq_sound_same: "runqueue s' = runqueue s \<Longrightarrow> nr_running s' = nr_running s \<Longrightarrow> rq.sound s' = rq.sound s"
  by (simp add: rq.sound_def)

lemma try_to_wake_up_sound:
  assumes "try_to_wake_up k p sync s = (ok, s')" and "rq.sound s"
  shows "rq.sound s'"
proof (cases ok)
  case True
  have "rq.sound (add_to_runqueue p s)"
    using rq.sound_add assms(2) try_to_wake_up_effect(1) [OF assms(1)] True by blast
  moreover have "rq.sound s' = rq.sound (add_to_runqueue p s)"
    using try_to_wake_up_effect(3,4) [OF assms(1)] True by (intro rq_sound_same) (simp_all add: add_to_runqueue_def)
  ultimately show ?thesis by simp
next
  case False
  then show ?thesis
    using rq_sound_same [of s' s] try_to_wake_up_effect(3,4) [OF assms(1)] assms(2) by simp
qed

lemma wake_up_common_keeps:
  "state (task_of s t) = TASK_RUNNING \<Longrightarrow> state (task_of (wake_up_common k ws mode nr sync s) t) = TASK_RUNNING"
  "t \<in> set (runqueue s) \<Longrightarrow> t \<in> set (runqueue (wake_up_common k ws mode nr sync s))"
proof (induction ws arbitrary: nr s)
  case (Cons w ws)
  {
    case 1
    with Cons.IH(1) show ?case
      by (auto simp: Let_def try_to_wake_up_effect(2) split: prod.split)
  next
    case 2
    with Cons.IH(2) show ?case
      by (auto simp: Let_def try_to_wake_up_effect(3) split: prod.split)
  }
qed simp_all

lemma sleeping_after:
  assumes "try_to_wake_up k (w_task w) sync s = (ok, s1)" and "w_task v \<noteq> w_task w"
  shows "sleeping s1 mode v = sleeping s mode v"
  using assms(2) try_to_wake_up_effect(2,3) [OF assms(1)] by (simp add: sleeping_def)

section \<open>Properties\<close>

text \<open>
  A real-time task is always better than a task of the normal policy, whatever processor and address
  space they are compared for: the bonuses of the normal policy never add up to 1000.
\<close>

theorem goodness_prefers_real_time:
  assumes "yield_bit k" and "policy p = SCHED_FIFO \<or> policy p = SCHED_RR" and "0 \<le> rt_priority p"
    and "policy q = SCHED_OTHER \<or> policy q = SCHED_OTHER OR SCHED_YIELD k"
    and "- 20 \<le> nice q" and "0 \<le> PROC_CHANGE_PENALTY k" and "counter q + PROC_CHANGE_PENALTY k < 959"
  shows "goodness k q cpu m < goodness k p cpu m"
proof -
  have y: "SCHED_YIELD k AND 3 = 0" using assms(1) by (simp add: yield_bit_def)
  have "policy p AND SCHED_YIELD k = (policy p AND 3) AND SCHED_YIELD k"
    using assms(2) by auto
  also have "\<dots> = policy p AND (SCHED_YIELD k AND 3)" by (simp add: ac_simps)
  finally have "policy p AND SCHED_YIELD k = 0" using y by simp
  moreover have "policy p \<noteq> SCHED_OTHER" using assms(2) by auto
  ultimately have p: "goodness k p cpu m = 1000 + rt_priority p" by (simp add: goodness_def)
  have "policy q AND SCHED_YIELD k \<noteq> 0 \<or> policy q = SCHED_OTHER"
    using assms(1,4) by (auto simp: yield_bit_def)
  then have "goodness k q cpu m < 1000"
    using assms(5-7) by (auto simp: goodness_def Let_def)
  with p assms(3) show ?thesis by simp
qed

text \<open>
  On a multiprocessor without sibling processors, a woken task that may run on an idle processor of
  the search never preempts a running task: \<^verbatim>\<open>reschedule_idle\<close> pokes its own last processor when that is
  idle, otherwise the idle processor that has been so for longest.
\<close>

theorem reschedule_idle_takes_idle_processor:
  assumes "CONFIG_SMP k" and "smp_num_siblings k \<noteq> 2" and "cpu0 \<in> set (cpus k)" and "idle_for k p s cpu0"
    and "last_schedule s cpu0 < - 1"
  shows "\<exists>cpu. idle_for k p s cpu \<and>
      (cpu = processor (task_of s p) \<and> reschedule_idle k p s = send_now_idle cpu (idle_task k cpu) s \<or>
       cpu \<in> set (cpus k) \<and> (\<forall>c\<in>set (cpus k). idle_for k p s c \<longrightarrow> last_schedule s cpu \<le> last_schedule s c) \<and>
       reschedule_idle k p s = send_now_idle (processor (task_of s (idle_task k cpu))) (idle_task k cpu) s)"
proof (cases "idle_for k p s (processor (task_of s p))")
  case True
  then have "reschedule_idle k p s =
      send_now_idle (processor (task_of s p)) (idle_task k (processor (task_of s p))) s"
    using assms(1) by (simp add: reschedule_idle_def idle_for_def Let_def)
  with True show ?thesis by blast
next
  case False
  obtain oldest t where sc: "scan_cpus k p s (cpus k) (- 1) None 0 = (oldest, t)" by fastforce
  note spec = scan_oldest_idle [OF assms(2) sc]
  have "oldest \<le> last_schedule s cpu0" using spec assms(3,4) by blast
  then have o: "oldest \<noteq> - 1" using assms(5) leD by blast
  with spec obtain cpu where cpu: "cpu \<in> set (cpus k)" "idle_for k p s cpu" "last_schedule s cpu = oldest"
    "t = Some (idle_task k cpu)" by blast
  have "reschedule_idle k p s = send_now_idle (processor (task_of s (idle_task k cpu))) (idle_task k cpu) s"
    using reschedule_idle_search [OF assms(1) False sc] o cpu(4) by simp
  moreover have "\<forall>c\<in>set (cpus k). idle_for k p s c \<longrightarrow> last_schedule s cpu \<le> last_schedule s c"
    unfolding cpu(3) by (rule conjunct1 [OF spec])
  ultimately show ?thesis using cpu(1,2) by metis
qed

text \<open>
  When no processor the task may run on is idle, \<^verbatim>\<open>reschedule_idle\<close> asks for a reschedule where the
  woken task gains most over the running one, and changes nothing when it gains nowhere.
\<close>

theorem reschedule_idle_preempts_where_best:
  assumes "CONFIG_SMP k" and "\<forall>cpu\<in>insert (processor (task_of s p)) (set (cpus k)). \<not> idle_for k p s cpu"
  shows "(\<forall>cpu\<in>set (cpus k). busy_for k p s cpu \<longrightarrow> gain k p s cpu \<le> 0) \<and> reschedule_idle k p s = s \<or>
    (\<exists>cpu\<in>set (cpus k). busy_for k p s cpu \<and> 0 < gain k p s cpu \<and>
       (\<forall>c\<in>set (cpus k). busy_for k p s c \<longrightarrow> gain k p s c \<le> gain k p s cpu) \<and>
       need_resched (task_of (reschedule_idle k p s) (cpu_curr s cpu)) = 1 \<and>
       (\<forall>t. t \<noteq> cpu_curr s cpu \<longrightarrow> task_of (reschedule_idle k p s) t = task_of s t))"
proof -
  obtain oldest t where sc: "scan_cpus k p s (cpus k) (- 1) None 0 = (oldest, t)" by fastforce
  have no: "\<forall>cpu\<in>set (cpus k). \<not> idle_for k p s cpu" using assms(2) by simp
  have "\<not> idle_for k p s (processor (task_of s p))" using assms(2) by simp
  note eq = reschedule_idle_search [OF assms(1) this sc]
  from scan_best_busy [OF no sc] show ?thesis
  proof (elim conjE disjE bexE)
    assume "t = None" "\<forall>cpu\<in>set (cpus k). busy_for k p s cpu \<longrightarrow> gain k p s cpu \<le> 0"
    then show ?thesis using eq by simp
  next
    fix cpu
    assume c: "oldest = - 1" "cpu \<in> set (cpus k)" "busy_for k p s cpu" "t = Some (cpu_curr s cpu)" "0 < gain k p s cpu"
      "\<forall>c\<in>set (cpus k). busy_for k p s c \<longrightarrow> gain k p s c \<le> gain k p s cpu"
    then have "task_of (reschedule_idle k p s) =
        (task_of s)(cpu_curr s cpu := (task_of s (cpu_curr s cpu))\<lparr>need_resched := 1\<rparr>)"
      using eq by (simp add: poke_tasks)
    with c show ?thesis by auto
  qed
qed

text \<open>
  Wake-ups keep the run queue sound: no task is on it twice and \<^verbatim>\<open>nr_running\<close> is its length, whatever the
  waiters, the mode and the flags.
\<close>

theorem wake_up_keeps_runqueue_sound:
  assumes "distinct (runqueue s) \<and> nr_running s = int (length (runqueue s))"
  shows "distinct (runqueue (wake_up_common k ws mode nr sync s)) \<and>
         nr_running (wake_up_common k ws mode nr sync s) = int (length (runqueue (wake_up_common k ws mode nr sync s)))"
proof -
  have "rq.sound s \<Longrightarrow> rq.sound (wake_up_common k ws mode nr sync s)"
  proof (induction ws arbitrary: nr s)
    case (Cons w ws)
    obtain ok s1 where w: "try_to_wake_up k (w_task w) sync s = (ok, s1)" by fastforce
    from Cons.IH try_to_wake_up_sound [OF w Cons.prems] Cons.prems show ?case by (simp add: w)
  qed simp
  with assms show ?thesis by (simp add: rq.sound_def)
qed

text \<open>
  \<^verbatim>\<open>__wake_up\<close> with \<^verbatim>\<open>nr == 0\<close> wakes everybody: every waiter in one of the asked states is running and on
  the run queue afterwards.
\<close>

theorem wake_up_all:
  assumes "nr \<le> 0" and "w \<in> set ws" and "state (task_of s (w_task w)) AND mode \<noteq> 0"
  shows "state (task_of (wake_up_common k ws mode nr sync s) (w_task w)) = TASK_RUNNING \<and>
         w_task w \<in> set (runqueue (wake_up_common k ws mode nr sync s))"
  using assms
proof (induction ws arbitrary: nr s)
  case (Cons v ws)
  show ?case
  proof (cases "state (task_of s (w_task v)) AND mode = 0")
    case True
    with Cons.prems Cons.IH [of nr s] show ?thesis by auto
  next
    case False
    obtain ok s1 where v: "try_to_wake_up k (w_task v) sync s = (ok, s1)" by fastforce
    let ?nr = "if ok \<and> exclusive v then nr - 1 else nr"
    have eq: "wake_up_common k (v # ws) mode nr sync s = wake_up_common k ws mode ?nr sync s1"
      using False v Cons.prems(1) by simp
    note e = try_to_wake_up_effect [OF v]
    show ?thesis
    proof (cases "w_task w = w_task v")
      case True
      have "w_task v \<in> set (runqueue s1)" "state (task_of s1 (w_task v)) = TASK_RUNNING" using e by auto
      then show ?thesis unfolding eq True by (blast intro: wake_up_common_keeps)
    next
      case False
      with Cons.prems have "w \<in> set ws" "state (task_of s1 (w_task w)) AND mode \<noteq> 0" using e(2) by auto
      then show ?thesis unfolding eq using Cons.IH [of ?nr s1] Cons.prems(1) by simp
    qed
  qed
qed simp

text \<open>
  C28. With \<^verbatim>\<open>nr > 0\<close>, \<^verbatim>\<open>__wake_up\<close> goes through the queue in order and puts the sleeping waiters on the run
  queue in this order, up to and including the \<open>nr\<close>-th exclusive one; those behind it stay as they are.
\<close>

theorem wake_up_exclusive:
  assumes "distinct (map w_task ws)" and "0 < nr"
  shows "\<exists>pre post. ws = pre @ post \<and>
     runqueue (wake_up_common k ws mode nr sync s) = runqueue s @ map w_task (filter (sleeping s mode) pre) \<and>
     int (length (filter (\<lambda>w. exclusive w \<and> sleeping s mode w) pre)) \<le> nr \<and>
     (post \<noteq> [] \<longrightarrow> int (length (filter (\<lambda>w. exclusive w \<and> sleeping s mode w) pre)) = nr) \<and>
     (\<forall>w\<in>set post. state (task_of (wake_up_common k ws mode nr sync s) (w_task w)) = state (task_of s (w_task w)))"
  using assms
proof (induction ws arbitrary: nr s)
  case (Cons v ws)
  have dist: "distinct (map w_task ws)" "\<And>w. w \<in> set ws \<Longrightarrow> w_task w \<noteq> w_task v"
    using Cons.prems(1) by (auto simp: image_iff)
  show ?case
  proof (cases "state (task_of s (w_task v)) AND mode = 0")
    case True
    then have eq: "wake_up_common k (v # ws) mode nr sync s = wake_up_common k ws mode nr sync s" by simp
    have ns: "\<not> sleeping s mode v" using True by (simp add: sleeping_def)
    from Cons.IH [OF dist(1) Cons.prems(2), of s] obtain pre post where
      "ws = pre @ post" "runqueue (wake_up_common k ws mode nr sync s) = runqueue s @ map w_task (filter (sleeping s mode) pre)"
      "int (length (filter (\<lambda>w. exclusive w \<and> sleeping s mode w) pre)) \<le> nr"
      "post \<noteq> [] \<longrightarrow> int (length (filter (\<lambda>w. exclusive w \<and> sleeping s mode w) pre)) = nr"
      "\<forall>w\<in>set post. state (task_of (wake_up_common k ws mode nr sync s) (w_task w)) = state (task_of s (w_task w))"
      by blast
    then show ?thesis unfolding eq by (intro exI [of _ "v # pre"] exI [of _ post]) (simp add: ns)
  next
    case False
    obtain ok s1 where v: "try_to_wake_up k (w_task v) sync s = (ok, s1)" by fastforce
    note e = try_to_wake_up_effect [OF v]
    have sl: "sleeping s mode v \<longleftrightarrow> ok" using False e(1) by (simp add: sleeping_def)
    have same: "sleeping s1 mode w = sleeping s mode w" "state (task_of s1 (w_task w)) = state (task_of s (w_task w))"
      if "w \<in> set ws" for w
      using sleeping_after [OF v dist(2) [OF that]] e(2) dist(2) [OF that] by simp_all
    show ?thesis
    proof (cases "ok \<and> exclusive v \<and> nr = 1")
      case True
      then have "wake_up_common k (v # ws) mode nr sync s = s1" using False v by simp
      then show ?thesis using True sl e(3) same(2)
        by (intro exI [of _ "[v]"] exI [of _ ws]) simp
    next
      case no: False
      let ?nr = "if ok \<and> exclusive v then nr - 1 else nr"
      have eq: "wake_up_common k (v # ws) mode nr sync s = wake_up_common k ws mode ?nr sync s1"
        using False no v by auto
      have "0 < ?nr" using Cons.prems(2) no by auto
      from Cons.IH [OF dist(1) this, of s1] obtain pre post where
        ws: "ws = pre @ post"
        and r: "runqueue (wake_up_common k ws mode ?nr sync s1) = runqueue s1 @ map w_task (filter (sleeping s1 mode) pre)"
        and l: "int (length (filter (\<lambda>w. exclusive w \<and> sleeping s1 mode w) pre)) \<le> ?nr"
          "post \<noteq> [] \<longrightarrow> int (length (filter (\<lambda>w. exclusive w \<and> sleeping s1 mode w) pre)) = ?nr"
        and p: "\<forall>w\<in>set post. state (task_of (wake_up_common k ws mode ?nr sync s1) (w_task w)) = state (task_of s1 (w_task w))"
        by blast
      have f: "filter (sleeping s1 mode) pre = filter (sleeping s mode) pre"
        "filter (\<lambda>w. exclusive w \<and> sleeping s1 mode w) pre = filter (\<lambda>w. exclusive w \<and> sleeping s mode w) pre"
        using same(1) ws by (auto intro!: filter_cong)
      show ?thesis unfolding eq
        by (intro exI [of _ "v # pre"] exI [of _ post])
          (use ws r l p same(2) sl e(3) in \<open>auto simp: f\<close>)
    qed
  qed
qed simp

section \<open>Concrete wake-ups\<close>

text \<open>Two processors whose idle tasks are 100 and 101; task 3 runs on processor 0.\<close>

definition smp_kernel :: kernel where
  "smp_kernel = up_kernel\<lparr>CONFIG_SMP := True, smp_num_cpus := 2, init_tasks := (\<lambda>cpu. 100 + cpu)\<rparr>"

definition two_cpus :: "tid \<Rightarrow> kstate" where
  "two_cpus second = (some_users [] [] 0)\<lparr>
     task_of := (\<lambda>t. idle_fields\<lparr>cpus_runnable := - 1, cpus_allowed := - 1,
       policy := (if t = 5 then 1 else 0), counter := 10, state := (if t \<ge> 5 \<and> t < 9 then 2 else 0),
       processor := (if t = 101 then 1 else 0)\<rparr>),
     cpu_curr := (\<lambda>cpu. if cpu = 0 then 3 else second), runqueue := [3, 4], nr_running := 2\<rparr>"

lemma smp_cpus: "cpus smp_kernel = [0, 1]"
  by (simp add: cpus_def smp_kernel_def up_kernel_def upt_rec)

lemma two_cpus_can [simp]: "can_schedule smp_kernel (task_of (two_cpus x) t) 0" "can_schedule smp_kernel (task_of (two_cpus x) t) 1"
  by (simp_all add: can_schedule_def two_cpus_def idle_fields_def)

theorem goodness_prefers_real_time_witness:
  "goodness up_kernel (idle_fields\<lparr>counter := 80, nice := - 20\<rparr>) 0 None <
   goodness up_kernel (idle_fields\<lparr>policy := 2\<rparr>) 0 None"
  by (rule goodness_prefers_real_time)
    (use up_header_ok in \<open>simp_all add: header_ok_def idle_fields_def up_kernel_def\<close>)

theorem reschedule_idle_takes_idle_processor_witness:
  "\<exists>cpu. idle_for smp_kernel 5 (two_cpus 101) cpu"
proof -
  have "idle_for smp_kernel 5 (two_cpus 101) 1"
  proof -
    have "cpu_curr (two_cpus 101) 1 = idle_task smp_kernel 1"
      by (simp add: idle_task_def two_cpus_def smp_kernel_def up_kernel_def)
    with two_cpus_can(2) show ?thesis unfolding idle_for_def by blast
  qed
  moreover have "CONFIG_SMP smp_kernel" "smp_num_siblings smp_kernel \<noteq> 2" "1 \<in> set (cpus smp_kernel)"
    "last_schedule (two_cpus 101) 1 < - 1"
    by (simp_all add: smp_cpus) (simp_all add: smp_kernel_def up_kernel_def two_cpus_def some_users_def word_gt_0)
  ultimately show ?thesis using reschedule_idle_takes_idle_processor by blast
qed

theorem reschedule_idle_preempts_where_best_witness:
  "\<exists>cpu\<in>{0, 1}. 0 < gain smp_kernel 5 (two_cpus 4) cpu \<and>
     need_resched (task_of (reschedule_idle smp_kernel 5 (two_cpus 4)) (cpu_curr (two_cpus 4) cpu)) = 1"
proof -
  let ?s = "two_cpus 4"
  have no: "\<not> idle_for smp_kernel 5 ?s 0" "\<not> idle_for smp_kernel 5 ?s 1"
    by (simp_all add: idle_for_def idle_task_def smp_kernel_def up_kernel_def two_cpus_def)
  have busy: "busy_for smp_kernel 5 ?s 0"
    using no(1) by (simp add: idle_for_def busy_for_def)
  have "0 < gain smp_kernel 5 ?s 0"
    by (simp add: gain_def preemption_goodness_def goodness_def two_cpus_def idle_fields_def smp_kernel_def up_kernel_def)
  with busy have "\<not> (\<forall>cpu\<in>set (cpus smp_kernel). busy_for smp_kernel 5 ?s cpu \<longrightarrow> gain smp_kernel 5 ?s cpu \<le> 0)"
    by (auto simp: smp_cpus intro!: bexI [of _ 0])
  moreover have "CONFIG_SMP smp_kernel" by (simp add: smp_kernel_def)
  moreover have "\<forall>cpu\<in>insert (processor (task_of ?s 5)) (set (cpus smp_kernel)). \<not> idle_for smp_kernel 5 ?s cpu"
    using no by (simp add: smp_cpus) (simp add: two_cpus_def)
  ultimately show ?thesis
    using reschedule_idle_preempts_where_best [where k = smp_kernel and p = 5 and s = ?s] smp_cpus by auto
qed

definition sleepers :: "waiter list" where
  "sleepers = [\<lparr>w_task = 5, exclusive = False\<rparr>, \<lparr>w_task = 6, exclusive = True\<rparr>, \<lparr>w_task = 7, exclusive = True\<rparr>]"

theorem wake_up_keeps_runqueue_sound_witness:
  "distinct (runqueue (wake_up_common up_kernel sleepers 3 0 False (two_cpus 4)))"
  using wake_up_keeps_runqueue_sound [of "two_cpus 4" up_kernel sleepers 3 0 False]
  by (simp add: two_cpus_def)

theorem wake_up_all_witness:
  "w_task (sleepers ! 2) \<in> set (runqueue (wake_up_common up_kernel sleepers 3 0 False (two_cpus 4)))"
  using wake_up_all [of 0 "sleepers ! 2" sleepers "two_cpus 4" 3 up_kernel False]
  by (simp add: sleepers_def two_cpus_def)

theorem wake_up_exclusive_witness:
  "\<exists>pre post. sleepers = pre @ post \<and> int (length (filter (\<lambda>w. exclusive w \<and> sleeping (two_cpus 4) 3 w) pre)) \<le> 1 \<and>
     runqueue (wake_up_common up_kernel sleepers 3 1 False (two_cpus 4)) =
       runqueue (two_cpus 4) @ map w_task (filter (sleeping (two_cpus 4) 3) pre)"
proof -
  have "distinct (map w_task sleepers)" by (simp add: sleepers_def)
  from wake_up_exclusive [OF this, of 1 up_kernel 3 False "two_cpus 4"] show ?thesis by auto
qed

end
