(* ===== verification/Sched_Calls.thy ===== *)
theory Sched_Calls
  imports Sched_Wakeup
begin

text \<open>
  The system calls and helpers of \<^verbatim>\<open>Project_2/stuff/sched.c\<close>: \<^verbatim>\<open>sys_nice\<close>, setting and getting the
  policy, yielding, the priority limits and time slices, \<^verbatim>\<open>schedule_timeout\<close>, \<^verbatim>\<open>schedule_tail\<close> and
  \<^verbatim>\<open>render_sigset_t\<close>. A call returns an error or a value together with the new state.
\<close>

section \<open>The environment of a call\<close>

text \<open>
  \<^verbatim>\<open>capable(CAP_SYS_NICE)\<close>, the process table, and the user memory: the \<^verbatim>\<open>sched_priority\<close> that
  \<^verbatim>\<open>copy_from_user\<close> finds at an address and whether \<^verbatim>\<open>copy_to_user\<close> succeeds there.
\<close>

record call_env =
  capable_nice :: bool
  find_task_by_pid :: "int \<Rightarrow> tid option"
  copy_from_user :: "nat \<Rightarrow> int option"
  copy_to_user :: "nat \<Rightarrow> bool"

definition find_process_by_pid :: "call_env \<Rightarrow> int \<Rightarrow> kstate \<Rightarrow> tid option" where
  "find_process_by_pid e pid s = (if pid \<noteq> 0 then find_task_by_pid e pid else Some (current s))"

section \<open>Niceness\<close>

definition sys_nice :: "call_env \<Rightarrow> int \<Rightarrow> kstate \<Rightarrow> (errno + unit) \<times> kstate" where
  "sys_nice e increment s =
     (if increment < 0 \<and> \<not> capable_nice e then (Inl EPERM, s)
      else
        let inc1 = (if increment < - 40 then - 40 else increment);
            inc2 = (if inc1 > 40 then 40 else inc1);
            newprio = nice (task_of s (current s)) + inc2;
            newprio1 = (if newprio < - 20 then - 20 else newprio);
            newprio2 = (if newprio1 > 19 then 19 else newprio1)
        in (Inr (), upd_task (current s) (\<lambda>t. t\<lparr>nice := newprio2\<rparr>) s))"

text \<open>\<^verbatim>\<open>TICK_SCALE\<close> shifts by an amount that depends on \<^verbatim>\<open>HZ\<close>.\<close>

definition tick_scale :: "kernel \<Rightarrow> int \<Rightarrow> int" where
  "tick_scale k x =
     (if HZ k < 200 then drop_bit 2 x else if HZ k < 400 then drop_bit 1 x
      else if HZ k < 800 then x else if HZ k < 1600 then push_bit 1 x else push_bit 2 x)"

definition NICE_TO_TICKS :: "kernel \<Rightarrow> int \<Rightarrow> int" where
  "NICE_TO_TICKS k n = tick_scale k (20 - n) + 1"

section \<open>Policies\<close>

definition setscheduler ::
    "call_env \<Rightarrow> int \<Rightarrow> int \<Rightarrow> nat option \<Rightarrow> kstate \<Rightarrow> (errno + unit) \<times> kstate" where
  "setscheduler e pid pol param s =
     (case param of
        None \<Rightarrow> (Inl EINVAL, s)
      | Some a \<Rightarrow>
          if pid < 0 then (Inl EINVAL, s)
          else case copy_from_user e a of
            None \<Rightarrow> (Inl EFAULT, s)
          | Some prio \<Rightarrow>
              (case find_process_by_pid e pid s of
                 None \<Rightarrow> (Inl ESRCH, s)
               | Some p \<Rightarrow>
                   let t = task_of s p; cur = task_of s (current s);
                       pol1 = (if pol < 0 then sint (policy t) else pol)
                   in if pol \<ge> 0 \<and> pol \<noteq> sint SCHED_FIFO \<and> pol \<noteq> sint SCHED_RR \<and> pol \<noteq> sint SCHED_OTHER
                      then (Inl EINVAL, s)
                      else if prio < 0 \<or> prio > 99 then (Inl EINVAL, s)
                      else if (pol1 = sint SCHED_OTHER) \<noteq> (prio = 0) then (Inl EINVAL, s)
                      else if (pol1 = sint SCHED_FIFO \<or> pol1 = sint SCHED_RR) \<and> \<not> capable_nice e
                      then (Inl EPERM, s)
                      else if t_euid cur \<noteq> t_euid t \<and> t_euid cur \<noteq> t_uid t \<and> \<not> capable_nice e
                      then (Inl EPERM, s)
                      else (Inr (), upd_task (current s) (\<lambda>x. x\<lparr>need_resched := 1\<rparr>)
                             (upd_task p (\<lambda>x. x\<lparr>policy := word_of_int pol1, rt_priority := prio\<rparr>) s))))"

definition sys_sched_setscheduler ::
    "call_env \<Rightarrow> int \<Rightarrow> int \<Rightarrow> nat option \<Rightarrow> kstate \<Rightarrow> (errno + unit) \<times> kstate" where
  "sys_sched_setscheduler e pid pol param s = setscheduler e pid pol param s"

definition sys_sched_setparam :: "call_env \<Rightarrow> int \<Rightarrow> nat option \<Rightarrow> kstate \<Rightarrow> (errno + unit) \<times> kstate" where
  "sys_sched_setparam e pid param s = setscheduler e pid (- 1) param s"

definition sys_sched_getscheduler :: "kernel \<Rightarrow> call_env \<Rightarrow> int \<Rightarrow> kstate \<Rightarrow> errno + int" where
  "sys_sched_getscheduler k e pid s =
     (if pid < 0 then Inl EINVAL
      else case find_process_by_pid e pid s of
        None \<Rightarrow> Inl ESRCH
      | Some p \<Rightarrow> Inr (sint (policy (task_of s p) AND NOT (SCHED_YIELD k))))"

text \<open>The value is the \<^verbatim>\<open>sched_priority\<close> written to the user's structure.\<close>

definition sys_sched_getparam :: "call_env \<Rightarrow> int \<Rightarrow> nat option \<Rightarrow> kstate \<Rightarrow> errno + int" where
  "sys_sched_getparam e pid param s =
     (case param of
        None \<Rightarrow> Inl EINVAL
      | Some a \<Rightarrow>
          if pid < 0 then Inl EINVAL
          else case find_process_by_pid e pid s of
            None \<Rightarrow> Inl ESRCH
          | Some p \<Rightarrow> if copy_to_user e a then Inr (rt_priority (task_of s p)) else Inl EFAULT)"

definition sys_sched_get_priority_max :: "int \<Rightarrow> errno + int" where
  "sys_sched_get_priority_max pol =
     (if pol = sint SCHED_FIFO \<or> pol = sint SCHED_RR then Inr 99
      else if pol = sint SCHED_OTHER then Inr 0 else Inl EINVAL)"

definition sys_sched_get_priority_min :: "int \<Rightarrow> errno + int" where
  "sys_sched_get_priority_min pol =
     (if pol = sint SCHED_FIFO \<or> pol = sint SCHED_RR then Inr 1
      else if pol = sint SCHED_OTHER then Inr 0 else Inl EINVAL)"

text \<open>The value is the number of jiffies that is turned into a \<^verbatim>\<open>timespec\<close>.\<close>

definition sys_sched_rr_get_interval :: "kernel \<Rightarrow> call_env \<Rightarrow> int \<Rightarrow> nat \<Rightarrow> kstate \<Rightarrow> errno + int" where
  "sys_sched_rr_get_interval k e pid interval s =
     (if pid < 0 then Inl EINVAL
      else case find_process_by_pid e pid s of
        None \<Rightarrow> Inl ESRCH
      | Some p \<Rightarrow>
          let j = (if policy (task_of s p) AND SCHED_FIFO \<noteq> 0 then 0 else NICE_TO_TICKS k (nice (task_of s p)))
          in if copy_to_user e interval then Inr j else Inl EFAULT)"

section \<open>Yielding\<close>

definition nr_pending :: "kernel \<Rightarrow> kstate \<Rightarrow> int" where
  "nr_pending k s =
     (if CONFIG_SMP k
      then nr_running s - int (length (filter (\<lambda>cpu. cpu_curr s cpu \<noteq> idle_task k cpu) (cpus k)))
      else nr_running s - 1)"

definition sys_sched_yield :: "kernel \<Rightarrow> kstate \<Rightarrow> kstate" where
  "sys_sched_yield k s =
     (if nr_pending k s \<noteq> 0
      then move_last_runqueue (current s)
        (upd_task (current s)
          (\<lambda>t. t\<lparr>policy := (if policy t = SCHED_OTHER then policy t OR SCHED_YIELD k else policy t),
                need_resched := 1\<rparr>) s)
      else s)"

definition schedule_tail :: "kernel \<Rightarrow> tid \<Rightarrow> kstate \<Rightarrow> kstate" where
  "schedule_tail k prev s =
     (if CONFIG_SMP k
      then let pol = policy (task_of s prev);
               s1 = upd_task prev (\<lambda>t. t\<lparr>policy := pol AND NOT (SCHED_YIELD k)\<rparr>) s;
               s2 = upd_task prev (task_release_cpu k) s1
           in if state (task_of s2 prev) = TASK_RUNNING
              then (if prev = idle_task k (this_cpu s2) \<or> pol AND SCHED_YIELD k \<noteq> 0 then s2
                    else if state (task_of s2 prev) = TASK_RUNNING \<and> \<not> task_has_cpu k (task_of s2 prev)
                    then reschedule_idle k prev s2 else s2)
              else s2
      else upd_task prev (\<lambda>t. t\<lparr>policy := policy t AND NOT (SCHED_YIELD k)\<rparr>) s)"

section \<open>Sleeping for a time\<close>

text \<open>
  \<^verbatim>\<open>schedule_timeout\<close>: what it waits for and what it returns, when \<^verbatim>\<open>jiffies\<close> is \<open>j0\<close> at the call and
  \<open>j1\<close> when \<^verbatim>\<open>schedule()\<close> comes back. \<^verbatim>\<open>long\<close> values are words read with \<^term>\<open>sint\<close>.
\<close>

datatype sleep = NoSleep | Forever | Until ulong

definition timeout_result :: "ulong \<Rightarrow> ulong" where
  "timeout_result t = (if sint t < 0 then 0 else t)"

definition schedule_timeout :: "ulong \<Rightarrow> ulong \<Rightarrow> ulong \<Rightarrow> ulong \<Rightarrow> kstate \<Rightarrow> sleep \<times> ulong \<times> kstate" where
  "schedule_timeout max_timeout timeout j0 j1 s =
     (if timeout = max_timeout then (Forever, timeout_result timeout, s)
      else if sint timeout < 0
      then (NoSleep, timeout_result timeout, upd_task (current s) (\<lambda>t. t\<lparr>state := TASK_RUNNING\<rparr>) s)
      else let expire = timeout + j0 in (Until expire, timeout_result (expire - j1), s))"

section \<open>Signal sets\<close>

text \<open>\<open>member\<close> is \<^verbatim>\<open>sigismember\<close>; the loop counts \<open>i\<close> down from \<^verbatim>\<open>_NSIG\<close>.\<close>

definition sig_digit :: "(nat \<Rightarrow> bool) \<Rightarrow> nat \<Rightarrow> nat" where
  "sig_digit member i =
     (if member (i + 1) then 1 else 0) + (if member (i + 2) then 2 else 0) +
     (if member (i + 3) then 4 else 0) + (if member (i + 4) then 8 else 0)"

definition hex_char :: "nat \<Rightarrow> char" where
  "hex_char x = char_of ((if x < 10 then 48 else 97 - 10) + x)"

function render_sigset_t :: "(nat \<Rightarrow> bool) \<Rightarrow> nat \<Rightarrow> string" where
  "render_sigset_t member i =
     hex_char (sig_digit member (i - 4)) # (if i - 4 \<ge> 4 then render_sigset_t member (i - 4) else [])"
  by auto
termination by (relation "measure snd") auto

declare render_sigset_t.simps [simp del]

section \<open>Lemmas\<close>

lemma setscheduler_done:
  assumes "setscheduler e pid pol param s = (Inr (), s')"
  obtains a prio p pol1 where "param = Some a" and "0 \<le> pid" and "copy_from_user e a = Some prio"
    and "find_process_by_pid e pid s = Some p"
    and "pol1 = (if pol < 0 then sint (policy (task_of s p)) else pol)"
    and "pol < 0 \<or> pol \<in> {0, 1, 2}" and "0 \<le> prio" and "prio \<le> 99" and "(pol1 = 0) = (prio = 0)"
    and "pol1 = 1 \<or> pol1 = 2 \<Longrightarrow> capable_nice e"
    and "capable_nice e \<or> t_euid (task_of s (current s)) = t_euid (task_of s p) \<or>
         t_euid (task_of s (current s)) = t_uid (task_of s p)"
    and "s' = upd_task (current s) (\<lambda>x. x\<lparr>need_resched := 1\<rparr>)
                (upd_task p (\<lambda>x. x\<lparr>policy := word_of_int pol1, rt_priority := prio\<rparr>) s)"
  using assms
  by (auto simp: setscheduler_def Let_def not_less split: option.splits if_splits)

lemma setscheduler_error: "setscheduler e pid pol param s = (Inl err, s') \<Longrightarrow> s' = s"
  by (auto simp: setscheduler_def Let_def split: option.splits if_splits)

definition real_time :: "task \<Rightarrow> bool" where
  "real_time t \<longleftrightarrow> policy t = SCHED_FIFO \<or> policy t = SCHED_RR"

lemma word_of_policy:
  "pol \<in> {0, 1, 2} \<Longrightarrow> (word_of_int pol :: ulong) = 1 \<longleftrightarrow> pol = 1"
  "pol \<in> {0, 1, 2} \<Longrightarrow> (word_of_int pol :: ulong) = 2 \<longleftrightarrow> pol = 2"
  "pol \<in> {0, 1, 2} \<Longrightarrow> sint (word_of_int pol :: ulong) = pol"
  by auto

lemma no_yield_bit:
  assumes "yield_bit k" and "pol \<in> {0, 1, 2}"
  shows "(word_of_int pol :: ulong) AND NOT (SCHED_YIELD k) = word_of_int pol"
proof -
  have y: "SCHED_YIELD k AND 3 = 0" using assms(1) by (simp add: yield_bit_def)
  have "(word_of_int pol :: ulong) AND SCHED_YIELD k = (word_of_int pol AND 3) AND SCHED_YIELD k"
    using assms(2) by auto
  also have "\<dots> = word_of_int pol AND (SCHED_YIELD k AND 3)" by (simp only: ac_simps)
  finally have z: "(word_of_int pol :: ulong) AND SCHED_YIELD k = 0" using y by simp
  have "(word_of_int pol :: ulong) = (word_of_int pol AND NOT (SCHED_YIELD k)) OR (word_of_int pol AND SCHED_YIELD k)"
    by (simp add: bit_eq_iff bit_simps) blast
  then show ?thesis by (simp add: z)
qed

text \<open>The number a hexadecimal text stands for.\<close>

definition hex_value :: "char \<Rightarrow> nat" where
  "hex_value ch = (let x = of_char ch in if x < 58 then x - 48 else x - 87)"

definition from_hex :: "string \<Rightarrow> nat" where
  "from_hex cs = foldl (\<lambda>v ch. 16 * v + hex_value ch) 0 cs"

definition mask :: "(nat \<Rightarrow> bool) \<Rightarrow> nat \<Rightarrow> nat" where
  "mask member n = (\<Sum>i<n. if member (i + 1) then 2 ^ i else 0)"

lemma sig_digit_less: "sig_digit member i < 16"
  by (simp add: sig_digit_def)

lemma hex_value_char: "x < 16 \<Longrightarrow> hex_value (hex_char x) = x"
  by (simp add: hex_value_def hex_char_def Let_def)

lemma from_hex_shift:
  "foldl (\<lambda>v ch. 16 * v + hex_value ch) a cs = a * 16 ^ length cs + from_hex cs"
proof (induction cs arbitrary: a)
  case (Cons c cs)
  show ?case
    using Cons.IH [of "16 * a + hex_value c"] Cons.IH [of "hex_value c"]
    by (simp add: from_hex_def algebra_simps)
qed (simp add: from_hex_def)

lemma from_hex_Cons: "from_hex (c # cs) = hex_value c * 16 ^ length cs + from_hex cs"
  using from_hex_shift [of "hex_value c" cs] by (simp add: from_hex_def)

lemma mask_add_4: "mask member (n + 4) = sig_digit member n * 2 ^ n + mask member n"
proof -
  have "n + 4 = Suc (Suc (Suc (Suc n)))" by simp
  then show ?thesis
    by (simp only: mask_def sum.lessThan_Suc sig_digit_def)
      (auto simp: algebra_simps numeral_eq_Suc)
qed

lemma render_value:
  "render_sigset_t member (4 * Suc d) = cs \<Longrightarrow>
   length cs = Suc d \<and> from_hex cs = mask member (4 * Suc d)"
proof (induction d arbitrary: cs)
  case 0
  then show ?case
    using mask_add_4 [of member 0] hex_value_char [OF sig_digit_less]
    by (auto simp: render_sigset_t.simps [of member 4] from_hex_def mask_def)
next
  case (Suc d)
  let ?rest = "render_sigset_t member (4 * Suc d)"
  have "4 * Suc (Suc d) - 4 = 4 * Suc d" by simp
  then have cs: "cs = hex_char (sig_digit member (4 * Suc d)) # ?rest"
    using Suc.prems unfolding render_sigset_t.simps [of member "4 * Suc (Suc d)"] by (simp only:) simp
  have pow: "(16::nat) ^ Suc d = 2 ^ (4 * Suc d)" by (simp only: power_mult) simp
  have "from_hex cs = sig_digit member (4 * Suc d) * 2 ^ (4 * Suc d) + mask member (4 * Suc d)"
    unfolding cs from_hex_Cons using Suc.IH [OF refl] pow by (simp add: hex_value_char [OF sig_digit_less])
  also have "\<dots> = mask member (4 * Suc d + 4)" by (simp only: mask_add_4)
  also have "4 * Suc d + 4 = 4 * Suc (Suc d)" by simp
  finally show ?case using cs Suc.IH [OF refl] by simp
qed

text \<open>Signed reading of words.\<close>

lemma sint_of_int: "- 2147483648 \<le> i \<Longrightarrow> i < 2147483648 \<Longrightarrow> sint (word_of_int i :: ulong) = i"
  by (simp add: sint_sbintrunc' signed_take_bit_int_eq_self)

lemma sint_nonneg:
  fixes x :: ulong
  assumes "0 \<le> sint x"
  shows "unat x < 2 ^ 31"
proof (rule ccontr)
  assume big: "\<not> unat x < 2 ^ 31"
  have "unat x < 2 ^ LENGTH(32)" by (rule unsigned_less)
  then have "unat x < 4294967296" by simp
  moreover have "x = word_of_int (int (unat x) - 4294967296)" by simp
  moreover have "2147483648 \<le> unat x" using big by simp
  ultimately have "sint (word_of_int (int (unat x) - 4294967296) :: ulong) = int (unat x) - 4294967296"
    by - (rule sint_of_int; linarith)
  then have "sint x = int (unat x) - 4294967296" by (simp only: \<open>x = word_of_int (int (unat x) - 4294967296)\<close> [symmetric])
  with assms \<open>unat x < 4294967296\<close> show False by linarith
qed

lemma sint_minus:
  fixes x y :: ulong
  assumes "unat x < 2 ^ 31" and "unat y < 2 ^ 31"
  shows "sint (x - y) = int (unat x) - int (unat y)"
proof -
  have e: "x - y = word_of_int (int (unat x) - int (unat y))" by simp
  have "unat x < 2147483648" "unat y < 2147483648" using assms by simp_all
  then show ?thesis unfolding e by - (rule sint_of_int; linarith)
qed

section \<open>Properties\<close>

text \<open>
  \<^verbatim>\<open>sys_nice\<close> keeps niceness between -20 and 19: the new value is the old one plus the increment, cut off
  at these bounds (the earlier cut of the increment at 40 never shows), and only a capable caller can
  lower it.
\<close>

theorem sys_nice_clamps:
  assumes "- 20 \<le> nice (task_of s (current s))" and "nice (task_of s (current s)) \<le> 19"
  shows "sys_nice e increment s =
    (if increment < 0 \<and> \<not> capable_nice e then (Inl EPERM, s)
     else (Inr (), upd_task (current s) (\<lambda>t. t\<lparr>nice := max (- 20) (min 19 (nice t + increment))\<rparr>) s))"
  using assms unfolding sys_nice_def Let_def upd_task_def
  by (auto simp: max_def min_def)

text \<open>
  The time slices respect the nice levels whatever \<^verbatim>\<open>HZ\<close> is: at least one tick at every level, and never
  fewer for a process that is less nice.
\<close>

theorem nice_to_ticks_monotone:
  assumes "a \<le> b" and "b \<le> 19"
  shows "1 \<le> NICE_TO_TICKS k b \<and> NICE_TO_TICKS k b \<le> NICE_TO_TICKS k a"
proof -
  have "0 \<le> 20 - b" "20 - b \<le> 20 - a" using assms by auto
  then have "drop_bit n (20 - b) \<le> drop_bit n (20 - a)" "0 \<le> drop_bit n (20 - b)"
    "push_bit n (20 - b) \<le> push_bit n (20 - a)" "0 \<le> push_bit n (20 - b)" for n
    by (simp_all add: drop_bit_eq_div push_bit_eq_mult zdiv_mono1 pos_imp_zdiv_nonneg_iff)
  then show ?thesis using assms by (simp add: NICE_TO_TICKS_def tick_scale_def)
qed

text \<open>
  C37. Without the capability no caller of \<^verbatim>\<open>sched_setscheduler\<close> or \<^verbatim>\<open>sched_setparam\<close> makes a task real-time or
  changes the real-time priority of one, and a call that fails changes nothing.
\<close>

theorem setscheduler_needs_capability:
  assumes "setscheduler e pid pol param s = (r, s')" and "\<not> capable_nice e"
  shows "(\<forall>err. r = Inl err \<longrightarrow> s' = s) \<and>
    (real_time (task_of s' t) \<longrightarrow>
       real_time (task_of s t) \<and> rt_priority (task_of s' t) = rt_priority (task_of s t))"
proof (cases r)
  case (Inl err)
  with setscheduler_error assms(1) have "s' = s" by blast
  then show ?thesis by simp
next
  case (Inr u)
  with assms(1) have "setscheduler e pid pol param s = (Inr (), s')" by simp
  then show ?thesis
  proof (rule setscheduler_done)
    fix a prio p pol1
    assume pol1: "pol1 = (if pol < 0 then sint (policy (task_of s p)) else pol)" "pol < 0 \<or> pol \<in> {0, 1, 2}"
      and cap: "pol1 = 1 \<or> pol1 = 2 \<Longrightarrow> capable_nice e"
      and s': "s' = upd_task (current s) (\<lambda>x. x\<lparr>need_resched := 1\<rparr>)
                (upd_task p (\<lambda>x. x\<lparr>policy := word_of_int pol1, rt_priority := prio\<rparr>) s)"
    have "pol1 \<noteq> 1" "pol1 \<noteq> 2" using cap assms(2) by blast+
    then have "(word_of_int pol1 :: ulong) \<noteq> 1 \<and> (word_of_int pol1 :: ulong) \<noteq> 2"
    proof (cases "pol < 0")
      case True
      then have "(word_of_int pol1 :: ulong) = policy (task_of s p)" using pol1(1) by simp
      moreover have "sint (policy (task_of s p)) \<noteq> 1" "sint (policy (task_of s p)) \<noteq> 2"
        using True pol1(1) \<open>pol1 \<noteq> 1\<close> \<open>pol1 \<noteq> 2\<close> by simp_all
      ultimately show ?thesis by auto
    next
      case False
      then have "pol1 \<in> {0, 1, 2}" using pol1 by auto
      from word_of_policy(1,2) [OF this] \<open>pol1 \<noteq> 1\<close> \<open>pol1 \<noteq> 2\<close> show ?thesis by metis
    qed
    then show ?thesis using Inr by (auto simp: s' real_time_def split: if_splits)
  qed
qed

text \<open>
  What \<^verbatim>\<open>sched_setscheduler\<close> has set, \<^verbatim>\<open>sched_getscheduler\<close> and \<^verbatim>\<open>sched_getparam\<close> report.
\<close>

theorem setscheduler_getscheduler:
  assumes "sys_sched_setscheduler e pid pol (Some a) s = (Inr (), s')" and "0 \<le> pol" and "yield_bit k"
    and "copy_from_user e a = Some prio" and "copy_to_user e b"
  shows "sys_sched_getscheduler k e pid s' = Inr pol \<and> sys_sched_getparam e pid (Some b) s' = Inr prio"
  using assms(1) unfolding sys_sched_setscheduler_def
proof (rule setscheduler_done)
  fix a' prio' p pol1
  assume a: "Some a = Some a'" "0 \<le> pid" "copy_from_user e a' = Some prio'" "find_process_by_pid e pid s = Some p"
    "pol1 = (if pol < 0 then sint (policy (task_of s p)) else pol)" "pol < 0 \<or> pol \<in> {0, 1, 2}"
    and s': "s' = upd_task (current s) (\<lambda>x. x\<lparr>need_resched := 1\<rparr>)
              (upd_task p (\<lambda>x. x\<lparr>policy := word_of_int pol1, rt_priority := prio'\<rparr>) s)"
  have pol: "pol1 = pol" "pol \<in> {0, 1, 2}" and prio: "prio' = prio" using a assms(2,4) by auto
  have "find_process_by_pid e pid s' = Some p" using a(4) by (simp add: find_process_by_pid_def s' split: if_splits)
  moreover have "policy (task_of s' p) = word_of_int pol" "rt_priority (task_of s' p) = prio"
    by (simp_all add: s' pol prio)
  ultimately show ?thesis
    using a(2) assms(5) no_yield_bit [OF assms(3) pol(2)] word_of_policy(3) [OF pol(2)]
    by (simp add: sys_sched_getscheduler_def sys_sched_getparam_def)
qed

text \<open>
  The limits that \<^verbatim>\<open>sched_get_priority_min\<close> and \<^verbatim>\<open>sched_get_priority_max\<close> report are exactly the priorities
  \<^verbatim>\<open>sched_setscheduler\<close> accepts for the policy.
\<close>

theorem priority_limits_exact:
  assumes "0 \<le> pol" and "0 \<le> pid" and "capable_nice e" and "copy_from_user e a = Some prio"
    and "find_process_by_pid e pid s \<noteq> None"
  shows "(\<exists>s'. sys_sched_setscheduler e pid pol (Some a) s = (Inr (), s')) \<longleftrightarrow>
    (\<exists>lo hi. sys_sched_get_priority_min pol = Inr lo \<and> sys_sched_get_priority_max pol = Inr hi \<and> lo \<le> prio \<and> prio \<le> hi)"
proof -
  obtain p where p: "find_process_by_pid e pid s = Some p" using assms(5) by blast
  have set: "(\<exists>s'. sys_sched_setscheduler e pid pol (Some a) s = (Inr (), s')) \<longleftrightarrow>
      (pol = 0 \<or> pol = 1 \<or> pol = 2) \<and> 0 \<le> prio \<and> prio \<le> 99 \<and> (pol = 0) = (prio = 0)"
    using assms p by (auto simp: sys_sched_setscheduler_def setscheduler_def Let_def)
  show ?thesis unfolding set
    by (auto simp: sys_sched_get_priority_min_def sys_sched_get_priority_max_def)
qed

text \<open>
  While the yield mark is set on a task of the normal policy, \<^verbatim>\<open>sched_setparam\<close> treats it as none of the
  policies: it refuses the only valid priority 0 and gives the task a real-time priority instead,
  without any capability.
\<close>

theorem setparam_after_yield:
  assumes "yield_bit k" and "find_process_by_pid e pid s = Some p" and "0 \<le> pid"
    and "policy (task_of s p) = SCHED_OTHER OR SCHED_YIELD k"
    and "t_euid (task_of s (current s)) = t_euid (task_of s p)"
    and "copy_from_user e a = Some prio" and "0 \<le> prio" and "prio \<le> 99"
  shows "if prio = 0 then sys_sched_setparam e pid (Some a) s = (Inl EINVAL, s)
         else fst (sys_sched_setparam e pid (Some a) s) = Inr () \<and>
           rt_priority (task_of (snd (sys_sched_setparam e pid (Some a) s)) p) = prio \<and>
           policy (task_of (snd (sys_sched_setparam e pid (Some a) s)) p) = SCHED_OTHER OR SCHED_YIELD k"
proof -
  have y: "SCHED_YIELD k AND 3 = 0" "SCHED_YIELD k \<noteq> 0" using assms(1) by (simp_all add: yield_bit_def)
  have ne: "SCHED_YIELD k \<noteq> 1" "SCHED_YIELD k \<noteq> 2" using y(1) by auto
  have "sint (SCHED_YIELD k) = i \<Longrightarrow> SCHED_YIELD k = word_of_int i" for i
    by (metis of_int_sint scast_id)
  from this [of 0] this [of 1] this [of 2] y(2) ne
  have "sint (SCHED_YIELD k) \<noteq> 0" "sint (SCHED_YIELD k) \<noteq> 1" "sint (SCHED_YIELD k) \<noteq> 2" by auto
  then show ?thesis
    using assms by (auto simp: sys_sched_setparam_def setscheduler_def Let_def)
qed

text \<open>
  A process that yields while others wait goes to the end of the run queue, the others keep their order,
  nothing is lost, and for its next choice it ranks behind every task with a time slice left.
\<close>

theorem yield_moves_to_end:
  assumes "distinct (runqueue s) \<and> nr_running s = int (length (runqueue s))" and "current s \<in> set (runqueue s)"
    and "nr_pending k s \<noteq> 0" and "policy (task_of s (current s)) = SCHED_OTHER" and "yield_bit k"
  shows "runqueue (sys_sched_yield k s) = filter (\<lambda>t. t \<noteq> current s) (runqueue s) @ [current s] \<and>
    distinct (runqueue (sys_sched_yield k s)) \<and>
    nr_running (sys_sched_yield k s) = int (length (runqueue (sys_sched_yield k s))) \<and>
    goodness k (task_of (sys_sched_yield k s) (current s)) cpu m = - 1"
proof -
  let ?f = "\<lambda>t. t\<lparr>policy := (if policy t = SCHED_OTHER then policy t OR SCHED_YIELD k else policy t), need_resched := 1\<rparr>"
  let ?s1 = "upd_task (current s) ?f s"
  have y: "sys_sched_yield k s = move_last_runqueue (current s) ?s1"
    using assms(3) by (simp add: sys_sched_yield_def)
  have s1: "rq.sound ?s1" "current s \<in> set (runqueue ?s1)" using assms(1,2) by (simp_all add: rq.sound_def)
  have "rq.sound (sys_sched_yield k s)" unfolding y using rq.sound_rotate [OF s1] .
  moreover have "runqueue (sys_sched_yield k s) = filter (\<lambda>t. t \<noteq> current s) (runqueue s) @ [current s]"
    unfolding y rq.items_rotate using assms(1)
    by (simp add: distinct_remove1_removeAll removeAll_filter_not_eq) (rule filter_cong, auto)
  moreover have "goodness k (task_of (sys_sched_yield k s) (current s)) cpu m = - 1"
    using assms(4,5) by (simp add: y goodness_def yield_bit_def)
  ultimately show ?thesis by (simp add: rq.sound_def)
qed

text \<open>
  \<^verbatim>\<open>schedule_timeout\<close> returns what is left of the time-out when the sleep ended early and 0 when it did
  not, also when \<^verbatim>\<open>jiffies\<close> wraps around during the sleep.
\<close>

theorem schedule_timeout_returns_rest:
  assumes "0 \<le> sint timeout" and "timeout \<noteq> max_timeout" and "unat (j1 - j0) < 2 ^ 31"
  shows "unat (fst (snd (schedule_timeout max_timeout timeout j0 j1 s))) = unat timeout - unat (j1 - j0)"
proof -
  let ?t = "timeout" and ?e = "j1 - j0"
  have d: "sint (?t - ?e) = int (unat ?t) - int (unat ?e)"
    using sint_minus [OF sint_nonneg [OF assms(1)] assms(3)] .
  have r: "fst (snd (schedule_timeout max_timeout timeout j0 j1 s)) = timeout_result (?t - ?e)"
    using assms(1,2) by (simp add: schedule_timeout_def Let_def algebra_simps)
  show ?thesis
  proof (cases "unat ?e \<le> unat ?t")
    case True
    then have "unat (?t - ?e) = unat ?t - unat ?e" by (intro unat_sub) (simp add: word_le_nat_alt)
    moreover have "\<not> sint (?t - ?e) < 0" unfolding d using True by linarith
    ultimately show ?thesis unfolding r timeout_result_def by simp
  next
    case False
    then have "sint (?t - ?e) < 0" unfolding d by linarith
    with False show ?thesis unfolding r timeout_result_def by simp
  qed
qed

text \<open>
  \<^verbatim>\<open>render_sigset_t\<close> writes one hexadecimal digit for four signals, the highest first: the text is the
  signal mask as a number.
\<close>

theorem render_sigset_is_mask:
  assumes "0 < n" and "4 dvd n"
  shows "length (render_sigset_t member n) = n div 4 \<and> from_hex (render_sigset_t member n) = mask member n"
proof -
  obtain d where "n = 4 * d" using assms(2) by blast
  moreover obtain d' where "d = Suc d'" using assms(1) calculation by (cases d) auto
  ultimately have n: "n = 4 * Suc d'" by simp
  from render_value [OF refl, of member d'] show ?thesis unfolding n by simp
qed

section \<open>Concrete calls\<close>

definition caller :: "bool \<Rightarrow> int \<Rightarrow> call_env" where
  "caller cap prio = \<lparr>capable_nice = cap, find_task_by_pid = (\<lambda>pid. if pid < 100 then Some (nat pid) else None),
     copy_from_user = (\<lambda>_. Some prio), copy_to_user = (\<lambda>_. True)\<rparr>"

theorem sys_nice_clamps_witness:
  "nice (task_of (snd (sys_nice (caller False 0) 30 (two_tasks 1))) 1) = 19"
  using sys_nice_clamps [of "two_tasks 1" "caller False 0" 30]
  by (simp add: two_tasks_def idle_fields_def)

theorem nice_to_ticks_monotone_witness:
  "1 \<le> NICE_TO_TICKS up_kernel 19 \<and> NICE_TO_TICKS up_kernel 19 \<le> NICE_TO_TICKS up_kernel (- 20)"
  by (rule nice_to_ticks_monotone) simp_all

theorem setscheduler_needs_capability_witness:
  "\<not> real_time (task_of (snd (setscheduler (caller False 5) 2 1 (Some 0) (two_tasks 1))) 2)"
proof -
  have "\<not> real_time (task_of (two_tasks 1) 2)" by (simp add: real_time_def two_tasks_def idle_fields_def)
  moreover have "\<not> capable_nice (caller False 5)" by (simp add: caller_def)
  ultimately show ?thesis
    using setscheduler_needs_capability [OF surjective_pairing, of "caller False 5" 2 1 "Some 0" "two_tasks 1" 2]
    by blast
qed

theorem setscheduler_getscheduler_witness:
  "\<exists>s'. sys_sched_setscheduler (caller True 5) 2 1 (Some 0) (two_tasks 1) = (Inr (), s') \<and>
        sys_sched_getscheduler up_kernel (caller True 5) 2 s' = Inr 1"
proof -
  obtain s' where "sys_sched_setscheduler (caller True 5) 2 1 (Some 0) (two_tasks 1) = (Inr (), s')"
    by (simp add: sys_sched_setscheduler_def setscheduler_def find_process_by_pid_def caller_def Let_def)
  from this setscheduler_getscheduler [OF this] up_header_ok show ?thesis
    by (auto simp: header_ok_def caller_def)
qed

theorem priority_limits_exact_witness:
  "\<exists>s'. sys_sched_setscheduler (caller True 99) 2 1 (Some 0) (two_tasks 1) = (Inr (), s')"
proof -
  have "find_process_by_pid (caller True 99) 2 (two_tasks 1) \<noteq> None" "capable_nice (caller True 99)"
    "copy_from_user (caller True 99) 0 = Some 99"
    by (simp_all add: find_process_by_pid_def caller_def)
  then show ?thesis
    using priority_limits_exact [of 1 2 "caller True 99" 0 99 "two_tasks 1"]
    by (simp add: sys_sched_get_priority_min_def sys_sched_get_priority_max_def)
qed

definition yielded :: kstate where
  "yielded = upd_task 2 (\<lambda>t. t\<lparr>policy := SCHED_OTHER OR SCHED_YIELD up_kernel\<rparr>) (two_tasks 1)"

theorem setparam_after_yield_witness:
  "rt_priority (task_of (snd (sys_sched_setparam (caller False 7) 2 (Some 0) yielded)) 2) = 7"
proof -
  have "find_process_by_pid (caller False 7) 2 yielded = Some 2" "copy_from_user (caller False 7) 0 = Some 7"
    by (simp_all add: find_process_by_pid_def caller_def)
  moreover have "policy (task_of yielded 2) = SCHED_OTHER OR SCHED_YIELD up_kernel"
    "t_euid (task_of yielded (current yielded)) = t_euid (task_of yielded 2)"
    by (simp_all add: yielded_def two_tasks_def idle_fields_def)
  ultimately show ?thesis
    using setparam_after_yield [of up_kernel "caller False 7" 2 yielded 2 0 7] up_header_ok
    by (simp add: header_ok_def)
qed

theorem yield_moves_to_end_witness:
  "runqueue (sys_sched_yield up_kernel ((two_cpus 4)\<lparr>current := 3\<rparr>)) = [4, 3]"
  using yield_moves_to_end [of "(two_cpus 4)\<lparr>current := 3\<rparr>" up_kernel] up_header_ok
  by (simp add: header_ok_def nr_pending_def two_cpus_def up_kernel_def idle_fields_def)

theorem schedule_timeout_returns_rest_witness:
  "unat (fst (snd (schedule_timeout (2 ^ 31 - 1) 100 (- 10) 20 (two_tasks 1)))) = 70"
  using schedule_timeout_returns_rest [of 100 "2 ^ 31 - 1" 20 "- 10" "two_tasks 1"] by simp

theorem render_sigset_is_mask_witness:
  "from_hex (render_sigset_t (\<lambda>i. i = 9) 64) = 256"
proof -
  have "from_hex (render_sigset_t (\<lambda>i. i = 9) 64) = mask (\<lambda>i. i = 9) 64"
    using render_sigset_is_mask [of 64 "\<lambda>i. i = 9"] by simp
  also have "\<dots> = (\<Sum>i<64. if i = 8 then 2 ^ i else 0)" by (simp add: mask_def)
  also have "\<dots> = 256" by (simp only: sum.delta finite_lessThan) simp
  finally show ?thesis .
qed

end
