(* ===== verification/Sched_Wait.thy ===== *)
theory Sched_Wait
  imports Sched_Calls
begin

text \<open>
  The blocking half of \<^verbatim>\<open>Project_2/stuff/sched.c\<close>: \<^verbatim>\<open>wait_for_completion\<close> against \<^verbatim>\<open>complete\<close>, as steps of any
  number of tasks, and the four \<^verbatim>\<open>sleep_on\<close> functions. The lock of the wait queue makes what stands
  between two calls of \<^verbatim>\<open>schedule()\<close> one step. \<^verbatim>\<open>schedule()\<close> may return at any time.
\<close>

section \<open>Waiting for a completion\<close>

record wait_sys =
  w_x :: completion
  w_s :: kstate
  w_inside :: "tid \<Rightarrow> bool"
  w_completes :: nat
  w_returns :: nat

text \<open>
  \<open>w_inside\<close> are the tasks in the loop of \<^verbatim>\<open>wait_for_completion\<close>; the two counters record the calls of
  \<^verbatim>\<open>complete\<close> and the returns of \<^verbatim>\<open>wait_for_completion\<close>.
\<close>

definition wait_init :: "kstate \<Rightarrow> wait_sys" where
  "wait_init s = \<lparr>w_x = \<lparr>completed = 0, c_wait = []\<rparr>, w_s = s, w_inside = (\<lambda>_. False),
                  w_completes = 0, w_returns = 0\<rparr>"

definition queue_entry :: "tid \<Rightarrow> waiter" where
  "queue_entry t = \<lparr>w_task = t, exclusive = True\<rparr>"

definition fall_asleep :: "tid \<Rightarrow> kstate \<Rightarrow> kstate" where
  "fall_asleep t = upd_task t (\<lambda>x. x\<lparr>state := TASK_UNINTERRUPTIBLE\<rparr>)"

text \<open>The part of \<^verbatim>\<open>wait_for_completion\<close> before the first \<^verbatim>\<open>schedule()\<close>, or all of it when nothing is to wait for.\<close>

definition wait_enter :: "tid \<Rightarrow> wait_sys \<Rightarrow> wait_sys option" where
  "wait_enter t S =
     (if w_inside S t then None
      else if completed (w_x S) = 0
      then Some (S\<lparr>w_x := (w_x S)\<lparr>c_wait := c_wait (w_x S) @ [queue_entry t]\<rparr>,
                   w_s := fall_asleep t (w_s S), w_inside := (w_inside S)(t := True)\<rparr>)
      else Some (S\<lparr>w_x := (w_x S)\<lparr>completed := completed (w_x S) - 1\<rparr>, w_returns := w_returns S + 1\<rparr>))"

text \<open>From the return of \<^verbatim>\<open>schedule()\<close> to the next one, or to the end.\<close>

definition wait_again :: "tid \<Rightarrow> wait_sys \<Rightarrow> wait_sys option" where
  "wait_again t S =
     (if \<not> w_inside S t then None
      else if completed (w_x S) = 0 then Some (S\<lparr>w_s := fall_asleep t (w_s S)\<rparr>)
      else Some (S\<lparr>w_x := \<lparr>completed = completed (w_x S) - 1, c_wait = remove1 (queue_entry t) (c_wait (w_x S))\<rparr>,
                   w_inside := (w_inside S)(t := False), w_returns := w_returns S + 1\<rparr>))"

definition wait_complete :: "kernel \<Rightarrow> wait_sys \<Rightarrow> wait_sys" where
  "wait_complete k S =
     (let (x, s) = complete_comp k (w_x S) (w_s S) in S\<lparr>w_x := x, w_s := s, w_completes := w_completes S + 1\<rparr>)"

text \<open>What else happens in the kernel leaves the waiting tasks asleep or wakes them.\<close>

inductive wait_step :: "kernel \<Rightarrow> wait_sys \<Rightarrow> wait_sys \<Rightarrow> bool" for k where
  entered: "wait_enter t S = Some S' \<Longrightarrow> wait_step k S S'"
| resumed: "wait_again t S = Some S' \<Longrightarrow> wait_step k S S'"
| posted: "wait_step k S (wait_complete k S)"
| elsewhere: "\<forall>t. w_inside S t \<longrightarrow> state (task_of s' t) \<in> {state (task_of (w_s S) t), TASK_RUNNING} \<Longrightarrow>
    wait_step k S (S\<lparr>w_s := s'\<rparr>)"

section \<open>One wake-up of exclusive waiters\<close>

definition awake :: "kstate \<Rightarrow> waiter list \<Rightarrow> nat" where
  "awake s ws = length (filter (\<lambda>w. state (task_of s (w_task w)) = TASK_RUNNING) ws)"

lemma awake_simps [simp]: "awake s [] = 0"
  "awake s (w # ws) = (if state (task_of s (w_task w)) = TASK_RUNNING then 1 else 0) + awake s ws"
  "awake s (ws @ vs) = awake s ws + awake s vs"
  by (simp_all add: awake_def)

lemma awake_le: "awake s ws \<le> length ws"
  by (simp add: awake_def)

lemma awake_mono:
  assumes "\<And>w. w \<in> set ws \<Longrightarrow> state (task_of s (w_task w)) = TASK_RUNNING \<Longrightarrow> state (task_of s' (w_task w)) = TASK_RUNNING"
  shows "awake s ws \<le> awake s' ws"
  using assms by (induction ws) auto

lemma awake_cong:
  assumes "\<And>w. w \<in> set ws \<Longrightarrow> state (task_of s' (w_task w)) = state (task_of s (w_task w))"
  shows "awake s' ws = awake s ws"
  using assms by (induction ws) auto

lemma wake_states:
  "state (task_of (wake_up_common k ws mode nr sync s) t) \<in> {state (task_of s t), TASK_RUNNING}"
proof (induction ws arbitrary: nr s)
  case (Cons w ws)
  obtain ok s1 where v: "try_to_wake_up k (w_task w) sync s = (ok, s1)" by fastforce
  have "state (task_of s1 t) \<in> {state (task_of s t), TASK_RUNNING}" using try_to_wake_up_effect(2) [OF v] by simp
  then have "state (task_of (wake_up_common k ws mode n sync s1) t) \<in> {state (task_of s t), TASK_RUNNING}" for n
    using Cons.IH [of n s1] by auto
  with Cons.IH [of nr s] \<open>state (task_of s1 t) \<in> _\<close> show ?case by (simp add: v)
qed simp

lemma wake_one:
  assumes "distinct (map w_task ws)" and "\<And>w. w \<in> set ws \<Longrightarrow> exclusive w"
    and "\<And>w. w \<in> set ws \<Longrightarrow> state (task_of s (w_task w)) \<in> {TASK_RUNNING, TASK_UNINTERRUPTIBLE}"
  shows "min (awake s ws + 1) (length ws) \<le> awake (wake_up_common k ws 3 1 sync s) ws"
  using assms
proof (induction ws arbitrary: s)
  case (Cons w ws)
  have other: "w_task v \<noteq> w_task w" if "v \<in> set ws" for v using Cons.prems(1) that by (auto simp: image_iff)
  show ?case
  proof (cases "state (task_of s (w_task w)) = TASK_RUNNING")
    case True
    have "min (awake s ws + 1) (length ws) \<le> awake (wake_up_common k ws 3 1 sync s) ws"
      using Cons.prems by (intro Cons.IH) auto
    with True show ?thesis using wake_up_common_keeps(1) [OF True] by simp
  next
    case False
    then have m: "state (task_of s (w_task w)) AND 3 \<noteq> 0" using Cons.prems(3) [of w] by auto
    obtain ok s1 where v: "try_to_wake_up k (w_task w) sync s = (ok, s1)" by fastforce
    note e = try_to_wake_up_effect(2) [OF v]
    have same: "awake s1 ws = awake s ws" using e other by (intro awake_cong) simp
    have s': "wake_up_common k (w # ws) 3 1 sync s = (if ok then s1 else wake_up_common k ws 3 1 sync s1)"
      using m v Cons.prems(2) [of w] by simp
    have "awake s1 ws \<le> awake (wake_up_common k (w # ws) 3 1 sync s) ws"
      unfolding s' using wake_up_common_keeps(1) by (auto intro: awake_mono)
    moreover have "state (task_of (wake_up_common k (w # ws) 3 1 sync s) (w_task w)) = TASK_RUNNING"
      unfolding s' using e wake_up_common_keeps(1) [of s1 "w_task w"] by simp
    ultimately show ?thesis using False same by simp
  qed
qed simp

section \<open>The invariant\<close>

definition wait_inv :: "wait_sys \<Rightarrow> bool" where
  "wait_inv S \<longleftrightarrow>
     (w_completes S < 2 ^ 32 \<longrightarrow> w_returns S + unat (completed (w_x S)) = w_completes S) \<and>
     (\<exists>ts. c_wait (w_x S) = map queue_entry ts \<and> distinct ts \<and> set ts = {t. w_inside S t}) \<and>
     (\<forall>t. w_inside S t \<longrightarrow> state (task_of (w_s S) t) \<in> {TASK_RUNNING, TASK_UNINTERRUPTIBLE}) \<and>
     min (unat (completed (w_x S))) (length (c_wait (w_x S))) \<le> awake (w_s S) (c_wait (w_x S))"

lemma wait_inv_init: "wait_inv (wait_init s)"
  by (simp add: wait_inv_def wait_init_def)

lemma wait_invD:
  assumes "wait_inv S"
  obtains ts where "c_wait (w_x S) = map queue_entry ts" "distinct ts" "set ts = {t. w_inside S t}"
  using assms by (auto simp: wait_inv_def)

lemma budget: "wait_inv S \<Longrightarrow> min (unat (completed (w_x S))) (length (c_wait (w_x S))) \<le> awake (w_s S) (c_wait (w_x S))"
  by (simp add: wait_inv_def)

lemma unat_less_one: "x \<noteq> 0 \<Longrightarrow> unat (x - 1 :: u32) = unat x - 1 \<and> 0 < unat x"
  by (simp add: unat_minus_one unat_gt_0)

lemma wait_inv_enter:
  assumes "wait_inv S" and "wait_enter t S = Some S'"
  shows "wait_inv S'"
proof -
  obtain ts where ts: "c_wait (w_x S) = map queue_entry ts" "distinct ts" "set ts = {t. w_inside S t}"
    using wait_invD [OF assms(1)] .
  have out: "\<not> w_inside S t" using assms(2) by (auto simp: wait_enter_def split: if_splits)
  show ?thesis
  proof (cases "completed (w_x S) = 0")
    case True
    then have S': "S' = S\<lparr>w_x := (w_x S)\<lparr>c_wait := c_wait (w_x S) @ [queue_entry t]\<rparr>,
        w_s := fall_asleep t (w_s S), w_inside := (w_inside S)(t := True)\<rparr>"
      using assms(2) out by (simp add: wait_enter_def)
    have "c_wait (w_x S') = map queue_entry (ts @ [t]) \<and> distinct (ts @ [t]) \<and> set (ts @ [t]) = {u. w_inside S' u}"
      using ts out by (auto simp: S')
    then have "\<exists>ts. c_wait (w_x S') = map queue_entry ts \<and> distinct ts \<and> set ts = {u. w_inside S' u}" by blast
    then show ?thesis using assms(1) True by (simp add: wait_inv_def S' fall_asleep_def)
  next
    case False
    then have S': "S' = S\<lparr>w_x := (w_x S)\<lparr>completed := completed (w_x S) - 1\<rparr>, w_returns := w_returns S + 1\<rparr>"
      using assms(2) out by (simp add: wait_enter_def)
    note u = unat_less_one [OF False]
    have "min (unat (completed (w_x S'))) (length (c_wait (w_x S'))) \<le> awake (w_s S') (c_wait (w_x S'))"
      using budget [OF assms(1)] u by (auto simp: S')
    moreover have "w_completes S < 2 ^ 32 \<longrightarrow> w_returns S' + unat (completed (w_x S')) = w_completes S'"
      using assms(1) u by (auto simp: wait_inv_def S')
    ultimately show ?thesis using assms(1) by (simp add: wait_inv_def S')
  qed
qed

lemma wait_inv_again:
  assumes "wait_inv S" and "wait_again t S = Some S'"
  shows "wait_inv S'"
proof -
  obtain ts where ts: "c_wait (w_x S) = map queue_entry ts" "distinct ts" "set ts = {t. w_inside S t}"
    using wait_invD [OF assms(1)] .
  have inside: "w_inside S t" using assms(2) by (auto simp: wait_again_def split: if_splits)
  show ?thesis
  proof (cases "completed (w_x S) = 0")
    case True
    then have S': "S' = S\<lparr>w_s := fall_asleep t (w_s S)\<rparr>"
      using assms(2) inside by (simp add: wait_again_def)
    show ?thesis using assms(1) True by (simp add: wait_inv_def S' fall_asleep_def)
  next
    case False
    then have S': "S' = S\<lparr>w_x := \<lparr>completed = completed (w_x S) - 1, c_wait = remove1 (queue_entry t) (c_wait (w_x S))\<rparr>,
        w_inside := (w_inside S)(t := False), w_returns := w_returns S + 1\<rparr>"
      using assms(2) inside by (simp add: wait_again_def)
    note u = unat_less_one [OF False]
    have t: "t \<in> set ts" using ts(3) inside by simp
    then obtain pre post where tp: "ts = pre @ t # post" "t \<notin> set pre"
      by (meson split_list_first)
    have "inj queue_entry" by (simp add: inj_def queue_entry_def)
    then have q: "c_wait (w_x S') = map queue_entry (pre @ post)"
      using tp by (simp add: S' ts(1) remove1_append inj_image_mem_iff)
    have "distinct (pre @ post)" "set (pre @ post) = {u. w_inside S' u}"
      using ts(2,3) tp by (auto simp: S')
    with q have "\<exists>ts. c_wait (w_x S') = map queue_entry ts \<and> distinct ts \<and> set ts = {u. w_inside S' u}" by blast
    moreover have "awake (w_s S) (c_wait (w_x S)) \<le> awake (w_s S') (c_wait (w_x S')) + 1"
      "length (c_wait (w_x S)) = length (c_wait (w_x S')) + 1"
      unfolding q ts(1) tp(1) by (simp_all add: S')
    then have "min (unat (completed (w_x S'))) (length (c_wait (w_x S'))) \<le> awake (w_s S') (c_wait (w_x S'))"
      using budget [OF assms(1)] u by (auto simp: S')
    moreover have "w_completes S < 2 ^ 32 \<longrightarrow> w_returns S' + unat (completed (w_x S')) = w_completes S'"
      using assms(1) u by (auto simp: wait_inv_def S')
    ultimately show ?thesis using assms(1) by (simp add: wait_inv_def S')
  qed
qed

lemma wait_inv_complete:
  assumes "wait_inv S"
  shows "wait_inv (wait_complete k S)"
proof -
  obtain ts where ts: "c_wait (w_x S) = map queue_entry ts" "distinct ts" "set ts = {t. w_inside S t}"
    using wait_invD [OF assms] .
  let ?ws = "c_wait (w_x S)" and ?c = "completed (w_x S)"
  define s' where "s' = wake_up_common k ?ws 3 1 False (w_s S)"
  have S': "wait_complete k S = S\<lparr>w_x := (w_x S)\<lparr>completed := ?c + 1\<rparr>, w_s := s', w_completes := w_completes S + 1\<rparr>"
    by (simp add: wait_complete_def complete_comp_def s'_def)
  have st: "state (task_of (w_s S) t) \<in> {TASK_RUNNING, TASK_UNINTERRUPTIBLE}" if "w_inside S t" for t
    using assms that by (simp add: wait_inv_def)
  have "min (awake (w_s S) ?ws + 1) (length ?ws) \<le> awake s' ?ws"
    unfolding s'_def
  proof (rule wake_one)
    show "distinct (map w_task ?ws)" using ts(1,2) by (simp add: queue_entry_def comp_def)
    show "exclusive w" if "w \<in> set ?ws" for w using that ts(1) by (auto simp: queue_entry_def)
    show "state (task_of (w_s S) (w_task w)) \<in> {TASK_RUNNING, TASK_UNINTERRUPTIBLE}" if "w \<in> set ?ws" for w
      using that ts(1,3) by (intro st) (auto simp: queue_entry_def)
  qed
  moreover have "unat (?c + 1) \<le> unat ?c + 1" using unat_word_ariths(1) [of ?c 1] by simp
  ultimately have "min (unat (?c + 1)) (length ?ws) \<le> awake s' ?ws"
    using budget [OF assms] by linarith
  moreover have "w_returns S + unat (?c + 1) = w_completes S + 1" if "w_completes S + 1 < 2 ^ 32"
  proof -
    have s: "w_returns S + unat ?c = w_completes S" using assms that by (simp add: wait_inv_def)
    then have "unat ?c + 1 < 2 ^ 32" using that by linarith
    then have "unat (?c + 1) = unat ?c + 1" using unat_word_ariths(1) [of ?c 1] by simp
    with s show ?thesis by simp
  qed
  moreover have "state (task_of s' t) \<in> {TASK_RUNNING, TASK_UNINTERRUPTIBLE}" if "w_inside S t" for t
    using st [OF that] wake_states [of k ?ws 3 1 False "w_s S" t] by (auto simp: s'_def)
  ultimately show ?thesis using ts by (auto simp: wait_inv_def S')
qed

lemma wait_inv_step:
  assumes "wait_step k S S'" and i: "wait_inv S"
  shows "wait_inv S'"
  using assms(1)
proof (cases rule: wait_step.cases)
  case (elsewhere s')
  obtain ts where ts: "c_wait (w_x S) = map queue_entry ts" "set ts = {t. w_inside S t}"
    using wait_invD [OF i] by metis
  have "awake (w_s S) (c_wait (w_x S)) \<le> awake s' (c_wait (w_x S))"
    using elsewhere(2) ts by (intro awake_mono) (auto simp: queue_entry_def)
  moreover have "state (task_of s' t) \<in> {TASK_RUNNING, TASK_UNINTERRUPTIBLE}" if "w_inside S t" for t
    using elsewhere(2) [rule_format, OF that] i that by (simp add: wait_inv_def) metis
  ultimately show ?thesis using i budget [OF i] unfolding elsewhere(1) wait_inv_def by simp
qed (use wait_inv_enter wait_inv_again wait_inv_complete i in blast)+

lemma wait_inv_reachable: "(wait_step k)\<^sup>*\<^sup>* (wait_init s) S \<Longrightarrow> wait_inv S"
  by (rule rtranclp_invariant [where I = wait_inv]) (use wait_inv_init wait_inv_step in blast)+

section \<open>Sleeping on a wait queue\<close>

text \<open>
  \<^verbatim>\<open>SLEEP_ON_HEAD\<close> puts the current task at the front of the queue, \<^verbatim>\<open>SLEEP_ON_TAIL\<close> takes it out.
  \<open>meanwhile\<close> is what happens to queue and kernel until \<^verbatim>\<open>schedule()\<close> returns.
\<close>

definition sleep_head :: "ulong \<Rightarrow> waiter list \<times> kstate \<Rightarrow> waiter list \<times> kstate" where
  "sleep_head st qs =
     (let (q, s) = qs; t = current s
      in (\<lparr>w_task = t, exclusive = False\<rparr> # q, upd_task t (\<lambda>x. x\<lparr>state := st\<rparr>) s))"

definition sleep_tail :: "tid \<Rightarrow> waiter list \<times> kstate \<Rightarrow> waiter list \<times> kstate" where
  "sleep_tail t qs = (let (q, s) = qs in (remove1 \<lparr>w_task = t, exclusive = False\<rparr> q, s))"

definition sleep_on ::
    "(waiter list \<times> kstate \<Rightarrow> waiter list \<times> kstate) \<Rightarrow> waiter list \<times> kstate \<Rightarrow> waiter list \<times> kstate" where
  "sleep_on meanwhile qs = sleep_tail (current (snd qs)) (meanwhile (sleep_head TASK_UNINTERRUPTIBLE qs))"

definition interruptible_sleep_on ::
    "(waiter list \<times> kstate \<Rightarrow> waiter list \<times> kstate) \<Rightarrow> waiter list \<times> kstate \<Rightarrow> waiter list \<times> kstate" where
  "interruptible_sleep_on meanwhile qs =
     sleep_tail (current (snd qs)) (meanwhile (sleep_head TASK_INTERRUPTIBLE qs))"

text \<open>The variants with a time-out; a negative time-out does not sleep.\<close>

definition timed_sleep ::
    "ulong \<Rightarrow> (waiter list \<times> kstate \<Rightarrow> waiter list \<times> kstate) \<Rightarrow> ulong \<Rightarrow> ulong \<Rightarrow> ulong \<Rightarrow> ulong \<Rightarrow>
     waiter list \<times> kstate \<Rightarrow> ulong \<times> waiter list \<times> kstate" where
  "timed_sleep st meanwhile max_timeout timeout j0 j1 qs =
     (let (q1, s1) = sleep_head st qs;
          (wait, rest, s2) = schedule_timeout max_timeout timeout j0 j1 s1;
          qs3 = (if wait = NoSleep then (q1, s2) else meanwhile (q1, s2))
      in (rest, sleep_tail (current (snd qs)) qs3))"

definition sleep_on_timeout where
  "sleep_on_timeout = timed_sleep TASK_UNINTERRUPTIBLE"

definition interruptible_sleep_on_timeout where
  "interruptible_sleep_on_timeout = timed_sleep TASK_INTERRUPTIBLE"

text \<open>Sleepers that come meanwhile stay in front; the task takes out its own entry.\<close>

lemma sleep_leaves_others:
  assumes "\<lparr>w_task = t, exclusive = False\<rparr> \<notin> set pre"
  shows "sleep_tail t (pre @ \<lparr>w_task = t, exclusive = False\<rparr> # q, s) = (pre @ q, s)"
  using assms by (simp add: sleep_tail_def remove1_append)

section \<open>Properties\<close>

text \<open>
  C30. Every \<^verbatim>\<open>complete\<close> lets exactly one waiter go: in every interleaving, below \<open>2 ^ 32\<close> calls, the calls of
  \<^verbatim>\<open>complete\<close> are the returns of \<^verbatim>\<open>wait_for_completion\<close> and the value of \<^verbatim>\<open>done\<close>, and the queue holds the
  tasks that wait, each once.
\<close>

theorem completion_counts:
  assumes "(wait_step k)\<^sup>*\<^sup>* (wait_init s) S" and "w_completes S < 2 ^ 32"
  shows "w_returns S + unat (completed (w_x S)) = w_completes S \<and>
    distinct (map w_task (c_wait (w_x S))) \<and> (t \<in> set (map w_task (c_wait (w_x S)))) = w_inside S t"
proof -
  have i: "wait_inv S" by (rule wait_inv_reachable [OF assms(1)])
  obtain ts where ts: "c_wait (w_x S) = map queue_entry ts" "distinct ts" "set ts = {t. w_inside S t}"
    using wait_invD [OF i] .
  have "map w_task (map queue_entry ts) = ts" by (simp add: queue_entry_def comp_def)
  then show ?thesis using i assms(2) ts by (simp add: wait_inv_def)
qed

text \<open>
  C29. No wake-up is lost: whenever \<^verbatim>\<open>done\<close> is positive and tasks wait, one of them is awake, and it returns
  as soon as the scheduler runs it.
\<close>

theorem completion_no_lost_wakeup:
  assumes "(wait_step k)\<^sup>*\<^sup>* (wait_init s) S" and "completed (w_x S) \<noteq> 0" and "c_wait (w_x S) \<noteq> []"
  shows "\<exists>t S'. state (task_of (w_s S) t) = TASK_RUNNING \<and> wait_again t S = Some S' \<and>
    w_returns S' = w_returns S + 1 \<and> \<not> w_inside S' t"
proof -
  have i: "wait_inv S" by (rule wait_inv_reachable [OF assms(1)])
  obtain ts where ts: "c_wait (w_x S) = map queue_entry ts" "set ts = {t. w_inside S t}"
    using wait_invD [OF i] by metis
  have "0 < awake (w_s S) (c_wait (w_x S))"
    using budget [OF i] unat_less_one [OF assms(2)] assms(3) by (cases "c_wait (w_x S)") auto
  then obtain w where w: "w \<in> set (c_wait (w_x S))" "state (task_of (w_s S) (w_task w)) = TASK_RUNNING"
    by (auto simp: awake_def filter_empty_conv)
  then have "w_inside S (w_task w)" using ts by (auto simp: queue_entry_def)
  then have "\<exists>S'. wait_again (w_task w) S = Some S' \<and> w_returns S' = w_returns S + 1 \<and> \<not> w_inside S' (w_task w)"
    using assms(2) by (simp add: wait_again_def)
  with w(2) show ?thesis by blast
qed

section \<open>A concrete run\<close>

text \<open>Tasks 6 and 7 wait, then \<^verbatim>\<open>complete\<close> is called once.\<close>

definition one_completed :: wait_sys where
  "one_completed = wait_complete up_kernel
     (the (Option.bind (wait_enter 6 (wait_init (two_cpus 4))) (wait_enter 7)))"

lemma one_completed_reached: "(wait_step up_kernel)\<^sup>*\<^sup>* (wait_init (two_cpus 4)) one_completed"
proof -
  obtain S1 where s1: "wait_enter 6 (wait_init (two_cpus 4)) = Some S1"
    by (simp add: wait_enter_def wait_init_def)
  obtain S2 where s2: "wait_enter 7 S1 = Some S2"
    using s1 by (auto simp: wait_enter_def wait_init_def)
  have "wait_step up_kernel (wait_init (two_cpus 4)) S1" "wait_step up_kernel S1 S2"
    "wait_step up_kernel S2 one_completed"
    using wait_step.entered [OF s1] wait_step.entered [OF s2] wait_step.posted [of up_kernel S2]
    by (simp_all add: one_completed_def s1 s2)
  then show ?thesis by (meson converse_rtranclp_into_rtranclp rtranclp.rtrancl_refl)
qed

lemma one_completed_fields:
  "w_completes one_completed = 1" "completed (w_x one_completed) = 1"
  "c_wait (w_x one_completed) = [queue_entry 6, queue_entry 7]" "w_inside one_completed 7"
  by (simp_all add: one_completed_def wait_complete_def wait_enter_def wait_init_def complete_comp_def)

theorem completion_counts_witness:
  "w_returns one_completed + unat (completed (w_x one_completed)) = 1 \<and> w_inside one_completed 7"
  using completion_counts [OF one_completed_reached, of 7] by (simp add: one_completed_fields)

theorem completion_no_lost_wakeup_witness:
  "\<exists>t S'. state (task_of (w_s one_completed) t) = TASK_RUNNING \<and> wait_again t one_completed = Some S' \<and> \<not> w_inside S' t"
  using completion_no_lost_wakeup [OF one_completed_reached] by (simp add: one_completed_fields) metis

end
