(* ===== verification/Sched_Admin.thy ===== *)
theory Sched_Admin
  imports Sched_Wait
begin

text \<open>
  The rest of \<^verbatim>\<open>Project_2/stuff/sched.c\<close>: \<^verbatim>\<open>yield\<close> and \<^verbatim>\<open>__cond_resched\<close>, the timer function of
  \<^verbatim>\<open>schedule_timeout\<close>, \<^verbatim>\<open>set_cpus_allowed\<close>, the set-up of the idle threads and of the scheduler, and the
  two functions by which a task becomes a kernel thread.
\<close>

section \<open>Giving up the processor\<close>

definition yield_cpu :: "kernel \<Rightarrow> kstate \<Rightarrow> sched_outcome option" where
  "yield_cpu k s =
     (let s1 = upd_task (current s) (\<lambda>t. t\<lparr>state := TASK_RUNNING\<rparr>) s in schedule k (sys_sched_yield k s1))"

definition cond_resched :: "kernel \<Rightarrow> kstate \<Rightarrow> sched_outcome option" where
  "cond_resched k s = schedule k (upd_task (current s) (\<lambda>t. t\<lparr>state := TASK_RUNNING\<rparr>) s)"

definition process_timeout :: "kernel \<Rightarrow> tid \<Rightarrow> kstate \<Rightarrow> kstate" where
  "process_timeout k p s = snd (wake_up_process k p s)"

section \<open>Processor affinity\<close>

text \<open>
  The loop that waits for a legal processor: \<open>seen n\<close> is \<^verbatim>\<open>p->cpus_runnable\<close> after \<open>n\<close> calls of
  \<^verbatim>\<open>schedule()\<close>, and \<^term>\<open>None\<close> a loop that never ends. What else the calls of \<^verbatim>\<open>schedule()\<close> change is
  not followed.
\<close>

partial_function (option) wait_legal :: "(nat \<Rightarrow> ulong) \<Rightarrow> ulong \<Rightarrow> nat \<Rightarrow> nat option" where
  "wait_legal seen allowed n =
     (if seen n AND allowed = 0 then wait_legal seen allowed (n + 1) else Some n)"

definition runnable_after :: "kstate \<Rightarrow> tid \<Rightarrow> (nat \<Rightarrow> ulong) \<Rightarrow> nat \<Rightarrow> ulong" where
  "runnable_after s p later n = (if n = 0 then cpus_runnable (task_of s p) else later n)"

datatype affinity = AffinityBug | Bound nat kstate

definition set_cpus_allowed :: "ulong \<Rightarrow> tid \<Rightarrow> ulong \<Rightarrow> (nat \<Rightarrow> ulong) \<Rightarrow> kstate \<Rightarrow> affinity option" where
  "set_cpus_allowed cpu_online_map p allow later s =
     (let new_mask = allow AND cpu_online_map
      in if new_mask = 0 then Some AffinityBug
         else
           let s1 = upd_task p (\<lambda>t. t\<lparr>cpus_allowed := new_mask\<rparr>) s
           in if cpus_runnable (task_of s1 p) AND cpus_allowed (task_of s1 p) \<noteq> 0 then Some (Bound 0 s1)
              else
                let s2 = (if p \<noteq> current s1
                          then (upd_task p (\<lambda>t. t\<lparr>need_resched := 1\<rparr>) s1)
                                 \<lparr>ipis := ipis s1 @ [processor (task_of s1 p)]\<rparr>
                          else s1)
                in (case wait_legal (runnable_after s2 p later) (cpus_allowed (task_of s2 p)) 0 of
                      None \<Rightarrow> None
                    | Some n \<Rightarrow> Some (Bound n s2)))"

section \<open>Start of the system\<close>

text \<open>The third operation of the run queue, of which only the start makes use.\<close>

locale run_queue_del = run_queue +
  fixes del :: "'a \<Rightarrow> 'b \<Rightarrow> 'b"
  assumes items_del: "items (del t q) = remove1 t (items q)"
    and counted_del: "counted (del t q) = counted q - 1"
begin

lemma sound_del:
  assumes "sound q" and "t \<in> set (items q)"
  shows "sound (del t q) \<and> t \<notin> set (items (del t q))"
proof -
  have "0 < length (items q)" using assms(2) by (cases "items q") auto
  with assms show ?thesis
    by (simp add: sound_def items_del counted_del length_remove1 distinct_remove1 int_ops)
qed

end

definition del_from_runqueue :: "tid \<Rightarrow> kstate \<Rightarrow> kstate" where
  "del_from_runqueue p s = s\<lparr>runqueue := remove1 p (runqueue s), nr_running := nr_running s - 1\<rparr>"

interpretation rqd: run_queue_del add_to_runqueue move_last_runqueue runqueue nr_running del_from_runqueue
  by unfold_locales (simp_all add: del_from_runqueue_def)

definition init_idle :: "kernel \<Rightarrow> u64 \<Rightarrow> ulong \<Rightarrow> kstate \<Rightarrow> kstate \<times> ulong" where
  "init_idle k cycles wait_init_idle s =
     (let cpu = this_cpu s;
          s1 = (if current s \<noteq> init_task k \<and> task_on_runqueue (current s) s
                then del_from_runqueue (current s) s else s)
      in (s1\<lparr>cpu_curr := (cpu_curr s1)(cpu := current s), last_schedule := (last_schedule s1)(cpu := cycles)\<rparr>,
          wait_init_idle AND NOT (push_bit (processor (task_of s1 (current s))) 1)))"

text \<open>\<^verbatim>\<open>sched_init\<close>, with the hash table of process numbers and without the timers and bottom halves.\<close>

definition sched_init :: "kernel \<Rightarrow> mm_ref \<Rightarrow> tid option list \<Rightarrow> kstate \<Rightarrow> tid option list \<times> kstate" where
  "sched_init k init_mm pidhash s =
     (map (\<lambda>_. None) pidhash,
      (upd_task (init_task k) (\<lambda>t. t\<lparr>processor := this_cpu s\<rparr>) s)
        \<lparr>mm_count := (mm_count s)(init_mm := mm_count s init_mm + 1)\<rparr>)"

section \<open>Kernel threads\<close>

text \<open>What a task shares with others, by number, and the counts of the shared structures.\<close>

record resources =
  r_fs :: "nat option"
  r_files :: "nat option"
  r_session :: int
  r_pgrp :: int
  r_tty :: "nat option"

record rstate =
  res :: "tid \<Rightarrow> resources"
  fs_count :: "nat \<Rightarrow> int"
  files_count :: "nat \<Rightarrow> int"

text \<open>
  \<^verbatim>\<open>exit_mm\<close>, \<^verbatim>\<open>exit_fs\<close> and \<^verbatim>\<open>exit_files\<close> belong to \<^verbatim>\<open>exit.c\<close>: parameters. \<^verbatim>\<open>init_task\<close> shares its structures
  with every thread that calls \<^verbatim>\<open>daemonize\<close>.
\<close>

record exits =
  exit_mm :: "tid \<Rightarrow> rstate \<Rightarrow> rstate"
  exit_fs :: "tid \<Rightarrow> rstate \<Rightarrow> rstate"
  exit_files :: "tid \<Rightarrow> rstate \<Rightarrow> rstate"

definition upd_res :: "tid \<Rightarrow> (resources \<Rightarrow> resources) \<Rightarrow> rstate \<Rightarrow> rstate" where
  "upd_res t f r = r\<lparr>res := (res r)(t := f (res r t))\<rparr>"

definition daemonize :: "exits \<Rightarrow> tid \<Rightarrow> tid \<Rightarrow> rstate \<Rightarrow> rstate option" where
  "daemonize e ini cur r =
     (let r1 = exit_mm e cur r;
          r2 = upd_res cur (\<lambda>x. x\<lparr>r_session := 1, r_pgrp := 1, r_tty := None\<rparr>) r1;
          r3 = exit_fs e cur r2
      in case r_fs (res r3 ini) of
           None \<Rightarrow> None
         | Some fs \<Rightarrow>
             (let r4 = (upd_res cur (\<lambda>x. x\<lparr>r_fs := Some fs\<rparr>) r3)\<lparr>fs_count := (fs_count r3)(fs := fs_count r3 fs + 1)\<rparr>;
                  r5 = exit_files e cur r4
              in case r_files (res r5 ini) of
                   None \<Rightarrow> None
                 | Some files \<Rightarrow>
                     Some ((upd_res cur (\<lambda>x. x\<lparr>r_files := Some files\<rparr>) r5)
                             \<lparr>files_count := (files_count r5)(files := files_count r5 files + 1)\<rparr>)))"

text \<open>
  \<^verbatim>\<open>reparent_to_init\<close>: the macros that unlink and link a task in the process tree, \<^verbatim>\<open>switch_uid\<close> and the
  constants belong to the headers. \<^verbatim>\<open>rt_priority\<close> and \<^verbatim>\<open>cpus_allowed\<close> stay, as the comments say.
\<close>

record attributes =
  p_pptr :: tid
  p_opptr :: tid
  exit_signal :: int
  ptrace :: ulong
  cap_effective :: ulong
  cap_inheritable :: ulong
  cap_permitted :: ulong
  keep_capabilities :: int
  rlim :: "ulong list"

record kthread_env =
  child_reaper :: tid
  SIGCHLD :: int
  DEF_NICE :: int
  CAP_INIT_EFF_SET :: ulong
  CAP_INIT_INH_SET :: ulong
  CAP_FULL_SET :: ulong
  REMOVE_LINKS :: "tid \<Rightarrow> (tid \<Rightarrow> attributes) \<Rightarrow> tid \<Rightarrow> attributes"
  SET_LINKS :: "tid \<Rightarrow> (tid \<Rightarrow> attributes) \<Rightarrow> tid \<Rightarrow> attributes"
  switch_uid_init :: "kstate \<Rightarrow> kstate"

definition reparent_to_init :: "kthread_env \<Rightarrow> tid \<Rightarrow> (tid \<Rightarrow> attributes) \<times> kstate \<Rightarrow> (tid \<Rightarrow> attributes) \<times> kstate" where
  "reparent_to_init e ini ps =
     (let (att, s) = ps; t = current s;
          a1 = REMOVE_LINKS e t att;
          a2 = a1(t := (a1 t)\<lparr>p_pptr := child_reaper e, p_opptr := child_reaper e\<rparr>);
          a3 = SET_LINKS e t a2;
          a4 = a3(t := (a3 t)\<lparr>exit_signal := SIGCHLD e, ptrace := 0, cap_effective := CAP_INIT_EFF_SET e,
                   cap_inheritable := CAP_INIT_INH_SET e, cap_permitted := CAP_FULL_SET e,
                   keep_capabilities := 0, rlim := rlim (a3 ini)\<rparr>);
          s1 = upd_task t (\<lambda>x. x\<lparr>nice := DEF_NICE e, policy := SCHED_OTHER\<rparr>) s
      in (a4, switch_uid_init e s1))"

section \<open>Lemmas\<close>

lemma wait_legal_first:
  assumes "runnable (n + d) AND allowed \<noteq> 0" and "\<And>m. m < d \<Longrightarrow> runnable (n + m) AND allowed = 0"
  shows "wait_legal runnable allowed n = Some (n + d)"
  using assms
proof (induction d arbitrary: n)
  case 0
  then show ?case by (subst wait_legal.simps) simp
next
  case (Suc d)
  have "wait_legal runnable allowed (Suc n) = Some (Suc n + d)"
  proof (rule Suc.IH)
    show "runnable (Suc n + d) AND allowed \<noteq> 0" using Suc.prems(1) by simp
    show "runnable (Suc n + m) AND allowed = 0" if "m < d" for m using Suc.prems(2) [of "Suc m"] that by simp
  qed
  then show ?case using Suc.prems(2) [of 0] by (subst wait_legal.simps) simp
qed

lemma wait_legal_result:
  assumes "wait_legal runnable allowed n = Some r"
  shows "runnable r AND allowed \<noteq> 0"
  by (rule wait_legal.raw_induct [where P = "\<lambda>runnable allowed n r. runnable r AND allowed \<noteq> 0", OF _ assms])
    (simp split: if_splits)

lemma wait_legal_cases:
  "wait_legal runnable allowed 0 =
     (if \<exists>n. runnable n AND allowed \<noteq> 0 then Some (LEAST n. runnable n AND allowed \<noteq> 0) else None)"
proof (cases "\<exists>n. runnable n AND allowed \<noteq> 0")
  case True
  define n where "n = (LEAST n. runnable n AND allowed \<noteq> 0)"
  have "runnable (0 + n) AND allowed \<noteq> 0" unfolding n_def add_0 using True by (rule LeastI_ex)
  moreover have "runnable (0 + m) AND allowed = 0" if "m < n" for m
    using not_less_Least [OF that [unfolded n_def]] unfolding add_0 by blast
  ultimately have "wait_legal runnable allowed 0 = Some (0 + n)" by (rule wait_legal_first)
  then show ?thesis unfolding n_def [symmetric] add_0 using True by (simp only: if_True)
next
  case False
  then have "wait_legal runnable allowed 0 = None" using wait_legal_result by (metis not_None_eq)
  with False show ?thesis by simp
qed

text \<open>Counts of a shared structure: as many as the tasks that hold it.\<close>

definition shared :: "tid set \<Rightarrow> (tid \<Rightarrow> nat option) \<Rightarrow> (nat \<Rightarrow> int) \<Rightarrow> bool" where
  "shared T f c \<longleftrightarrow> finite T \<and> (\<forall>x. c x = int (card {t \<in> T. f t = Some x}))"

lemma shared_take:
  assumes "shared T f c" and "t \<in> T" and "f t = None"
  shows "shared T (f(t := Some x)) (c(x := c x + 1))"
proof -
  have "{u \<in> T. (f(t := Some x)) u = Some y} =
      (if y = x then insert t {u \<in> T. f u = Some y} else {u \<in> T. f u = Some y})" for y
    using assms(2,3) by auto
  then show ?thesis using assms by (auto simp: shared_def)
qed

lemma shared_drop:
  assumes "shared T f c" and "t \<in> T" and "f t = Some x"
  shows "shared T (f(t := None)) (c(x := c x - 1))"
proof -
  have "{u \<in> T. (f(t := None)) u = Some y} = {u \<in> T. f u = Some y} - (if y = x then {t} else {})" for y
    using assms(3) by auto
  moreover have "0 < card {u \<in> T. f u = Some x}" using assms by (auto simp: shared_def card_gt_0_iff)
  ultimately show ?thesis using assms by (auto simp: shared_def card_Diff_singleton)
qed

definition release :: "tid \<Rightarrow> (tid \<Rightarrow> nat option) \<Rightarrow> (nat \<Rightarrow> int) \<Rightarrow> nat \<Rightarrow> int" where
  "release t f c = (case f t of None \<Rightarrow> c | Some x \<Rightarrow> c(x := c x - 1))"

lemma shared_release: "shared T f c \<Longrightarrow> t \<in> T \<Longrightarrow> shared T (f(t := None)) (release t f c)"
  using shared_drop by (cases "f t") (auto simp: release_def fun_upd_idem)

text \<open>What \<^verbatim>\<open>exit.c\<close> promises: the task gives back the structure it holds, and nothing else changes.\<close>

definition exits_ok :: "exits \<Rightarrow> bool" where
  "exits_ok e \<longleftrightarrow> (\<forall>t r. exit_mm e t r = r \<and>
     exit_fs e t r = (upd_res t (\<lambda>x. x\<lparr>r_fs := None\<rparr>) r)
       \<lparr>fs_count := release t (\<lambda>u. r_fs (res r u)) (fs_count r)\<rparr> \<and>
     exit_files e t r = (upd_res t (\<lambda>x. x\<lparr>r_files := None\<rparr>) r)
       \<lparr>files_count := release t (\<lambda>u. r_files (res r u)) (files_count r)\<rparr>)"

definition counts_exact :: "tid set \<Rightarrow> rstate \<Rightarrow> bool" where
  "counts_exact T r \<longleftrightarrow> shared T (\<lambda>t. r_fs (res r t)) (fs_count r) \<and> shared T (\<lambda>t. r_files (res r t)) (files_count r)"

section \<open>Properties\<close>


text \<open>
  \<^verbatim>\<open>init_idle\<close> takes a thread that is to be idle off the run queue, whose counter stays its length, and
  makes it the current task of its processor.
\<close>

theorem init_idle_off_runqueue:
  assumes "rq.sound s" and "current s \<noteq> init_task k"
  shows "rq.sound (fst (init_idle k cycles w s)) \<and> current s \<notin> set (runqueue (fst (init_idle k cycles w s))) \<and>
    cpu_curr (fst (init_idle k cycles w s)) (this_cpu s) = current s"
proof (cases "task_on_runqueue (current s) s")
  case True
  then have "rq.sound (del_from_runqueue (current s) s) \<and> current s \<notin> set (runqueue (del_from_runqueue (current s) s))"
    using rqd.sound_del [OF assms(1)] by (simp add: task_on_runqueue_def)
  with True assms(2) show ?thesis by (simp add: init_idle_def Let_def rq.sound_def del_from_runqueue_def)
next
  case False
  with assms show ?thesis by (simp add: init_idle_def Let_def rq.sound_def task_on_runqueue_def)
qed

text \<open>
  \<^verbatim>\<open>daemonize\<close> keeps the reference counts exact: the thread gives back its own file system and file
  structures and shares those of \<^verbatim>\<open>init_task\<close>, each counted once per holder.
\<close>

theorem daemonize_counts_holders:
  assumes "exits_ok e" and "counts_exact T r" and "cur \<in> T" and "ini \<noteq> cur"
    and "r_fs (res r ini) = Some fs" and "r_files (res r ini) = Some files"
  shows "\<exists>r'. daemonize e ini cur r = Some r' \<and> counts_exact T r' \<and>
    r_fs (res r' cur) = Some fs \<and> r_files (res r' cur) = Some files"
proof -
  let ?fs = "\<lambda>t. r_fs (res r t)" and ?fl = "\<lambda>t. r_files (res r t)"
  define cf where "cf = release cur ?fs (fs_count r)"
  define cl where "cl = release cur ?fl (files_count r)"
  have s: "shared T (?fs(cur := None)) cf" "shared T (?fl(cur := None)) cl"
    using shared_release assms(2,3) by (auto simp: counts_exact_def cf_def cl_def)
  have s': "shared T (?fs(cur := Some fs)) (cf(fs := cf fs + 1))" "shared T (?fl(cur := Some files)) (cl(files := cl files + 1))"
    using shared_take [OF s(1) assms(3), of fs] shared_take [OF s(2) assms(3), of files] by simp_all
  have upd: "(\<lambda>u. r_fs (res (upd_res t f q) u)) = (\<lambda>u. r_fs (res q u))(t := r_fs (f (res q t)))"
    "(\<lambda>u. r_files (res (upd_res t f q) u)) = (\<lambda>u. r_files (res q u))(t := r_files (f (res q t)))" for t f q
    by (auto simp: upd_res_def)
  obtain r' where r': "daemonize e ini cur r = Some r'"
    "(\<lambda>t. r_fs (res r' t)) = ?fs(cur := Some fs)" "(\<lambda>t. r_files (res r' t)) = ?fl(cur := Some files)"
    "fs_count r' = cf(fs := cf fs + 1)" "files_count r' = cl(files := cl files + 1)"
  proof (rule that)
    have ef: "exit_mm e t q = q"
      "exit_fs e t q = (upd_res t (\<lambda>x. x\<lparr>r_fs := None\<rparr>) q)\<lparr>fs_count := release t (\<lambda>u. r_fs (res q u)) (fs_count q)\<rparr>"
      "exit_files e t q = (upd_res t (\<lambda>x. x\<lparr>r_files := None\<rparr>) q)\<lparr>files_count := release t (\<lambda>u. r_files (res q u)) (files_count q)\<rparr>"
      for t q using assms(1) by (simp_all add: exits_ok_def)
    show "daemonize e ini cur r = Some (the (daemonize e ini cur r))"
      "(\<lambda>t. r_fs (res (the (daemonize e ini cur r)) t)) = ?fs(cur := Some fs)"
      "(\<lambda>t. r_files (res (the (daemonize e ini cur r)) t)) = ?fl(cur := Some files)"
      "fs_count (the (daemonize e ini cur r)) = cf(fs := cf fs + 1)"
      "files_count (the (daemonize e ini cur r)) = cl(files := cl files + 1)"
      using assms(4-6)
      by (simp_all add: daemonize_def Let_def ef upd_res_def fun_eq_iff cf_def cl_def release_def split: option.split)
  qed
  have "r_fs (res r' cur) = Some fs" "r_files (res r' cur) = Some files"
    using fun_cong [OF r'(2), of cur] fun_cong [OF r'(3), of cur] by simp_all
  with r' s' show ?thesis by (simp add: counts_exact_def)
qed

section \<open>Concrete states\<close>


theorem init_idle_off_runqueue_witness:
  "(2 :: tid) \<notin> set (runqueue (fst (init_idle up_kernel 5 1 ((two_cpus 4)\<lparr>current := 2, runqueue := [3, 2], nr_running := 2\<rparr>))))"
  using init_idle_off_runqueue [of "(two_cpus 4)\<lparr>current := 2, runqueue := [3, 2], nr_running := 2\<rparr>" up_kernel 5 1]
  by (simp add: rq.sound_def up_kernel_def)

definition plain_exits :: exits where
  "plain_exits = \<lparr>exit_mm = (\<lambda>t r. r),
     exit_fs = (\<lambda>t r. (upd_res t (\<lambda>x. x\<lparr>r_fs := None\<rparr>) r)\<lparr>fs_count := release t (\<lambda>u. r_fs (res r u)) (fs_count r)\<rparr>),
     exit_files = (\<lambda>t r. (upd_res t (\<lambda>x. x\<lparr>r_files := None\<rparr>) r)
       \<lparr>files_count := release t (\<lambda>u. r_files (res r u)) (files_count r)\<rparr>)\<rparr>"

text \<open>\<^verbatim>\<open>init_task\<close> is task 0 with structures 10 and 20; task 1 has its own, 11 and 21.\<close>

definition two_holders :: rstate where
  "two_holders = \<lparr>res = (\<lambda>t. \<lparr>r_fs = Some (10 + t), r_files = Some (20 + t), r_session = 5, r_pgrp = 5, r_tty = Some 1\<rparr>),
     fs_count = (\<lambda>x. if x = 10 \<or> x = 11 then 1 else 0), files_count = (\<lambda>x. if x = 20 \<or> x = 21 then 1 else 0)\<rparr>"

lemma two_holders_exact: "counts_exact {0, 1} two_holders"
proof -
  have "{t \<in> {0, 1}. Some (b + t) = Some x} = (if x = b then {0} else if x = b + 1 then {1} else {})" for b x :: nat
    by auto
  then show ?thesis by (simp add: counts_exact_def shared_def two_holders_def)
qed

theorem daemonize_counts_holders_witness:
  "\<exists>r'. daemonize plain_exits 0 1 two_holders = Some r' \<and> counts_exact {0, 1} r' \<and> r_fs (res r' 1) = Some 10"
  using daemonize_counts_holders [OF _ two_holders_exact, of plain_exits 1 0 10 20]
  by (auto simp: exits_ok_def plain_exits_def two_holders_def)

end
