(* ===== verification/Sched_Show.thy ===== *)
theory Sched_Show
  imports Sched_State
begin

text \<open>
  The task listing of \<^verbatim>\<open>Project_2/stuff/sched.c\<close>: \<^verbatim>\<open>show_task\<close> and \<^verbatim>\<open>show_state\<close> on the i386, as the text
  they give to \<^verbatim>\<open>printk\<close>. The fields of a task that only the listing reads are in a record of their own,
  with the stack above the task structure as the words up to its end.
\<close>

section \<open>Formats\<close>

text \<open>\<^verbatim>\<open>%5d\<close> and its like: padded on the left to a width; \<^verbatim>\<open>%-13.13s\<close>: cut and padded on the right.\<close>

definition pad_left :: "char \<Rightarrow> nat \<Rightarrow> string \<Rightarrow> string" where
  "pad_left c w t = replicate (w - length t) c @ t"

definition pad_right :: "nat \<Rightarrow> string \<Rightarrow> string" where
  "pad_right w t = take w t @ replicate (w - length t) CHR '' ''"

text \<open>\<^verbatim>\<open>%08lX\<close>: eight digits for the 32 bits of an \<^verbatim>\<open>unsigned long\<close>.\<close>

definition hex_digits :: "ulong \<Rightarrow> string" where
  "hex_digits w =
     map (\<lambda>i. ''0123456789ABCDEF'' ! (unat (drop_bit (4 * i) w) mod 16)) (rev [0..<8])"

section \<open>One task\<close>

record listing =
  comm :: string
  pid :: int
  thread_saved_pc :: ulong
  parent_pid :: int
  youngest_child :: "int option"
  younger_sibling :: "int option"
  older_sibling :: "int option"
  stack_words :: "ulong list"
  trace_text :: string

text \<open>\<^verbatim>\<open>stat_nam\<close>, and the letter for a state; \<open>ffz\<close>, of a header, finds the first 0 bit.\<close>

definition stat_nam :: "string list" where
  "stat_nam = [''R'', ''S'', ''D'', ''Z'', ''T'', ''W'']"

definition state_letter :: "(ulong \<Rightarrow> int) \<Rightarrow> ulong \<Rightarrow> string" where
  "state_letter ffz st =
     (let i = (if st \<noteq> 0 then ffz (NOT st) + 1 else 0)
      in if unat (word_of_int i :: u32) < length stat_nam then stat_nam ! unat (word_of_int i :: u32) else '' '')"

text \<open>
  The loop over the words above the structure, from the lowest: \<^term>\<open>None\<close> where it leaves the stack
  because all words are 0.
\<close>

fun free_stack :: "ulong list \<Rightarrow> nat option" where
  "free_stack [] = None"
| "free_stack (w # ws) = (if w = 0 then map_option (\<lambda>n. n + 4) (free_stack ws) else Some 0)"

definition family_field :: "nat \<Rightarrow> string \<Rightarrow> int option \<Rightarrow> string \<Rightarrow> string" where
  "family_field w blank r after =
     (case r of None \<Rightarrow> blank | Some v \<Rightarrow> pad_left CHR '' '' w (show_int v) @ after)"

definition show_task :: "(ulong \<Rightarrow> int) \<Rightarrow> kstate \<Rightarrow> (tid \<Rightarrow> listing) \<Rightarrow> tid \<Rightarrow> string option" where
  "show_task ffz s l p =
     (case free_stack (stack_words (l p)) of
        None \<Rightarrow> None
      | Some free \<Rightarrow> Some (
          pad_right 13 (comm (l p)) @ '' '' @
          state_letter ffz (state (task_of s p)) @
          (if p = current s then '' current  '' else '' '' @ hex_digits (thread_saved_pc (l p)) @ '' '') @
          pad_left CHR '' '' 5 (show_nat free) @ '' '' @
          pad_left CHR '' '' 5 (show_int (pid (l p))) @ '' '' @
          pad_left CHR '' '' 6 (show_int (parent_pid (l p))) @ '' '' @
          family_field 5 ''      '' (youngest_child (l p)) '' '' @
          family_field 7 ''       '' (younger_sibling (l p)) '''' @
          (case older_sibling (l p) of
             None \<Rightarrow> ''      '' | Some v \<Rightarrow> '' '' @ pad_left CHR '' '' 5 (show_int v)) @
          (if mm (task_of s p) = None then '' (L-TLB)'' else '' (NOTLB)'') @ [CHR 0x0A] @
          trace_text (l p)))"

section \<open>All tasks\<close>

definition show_header :: string where
  "show_header =
     [CHR 0x0A] @ ''                         free                        sibling'' @ [CHR 0x0A] @
     ''  task             PC    stack   pid father child younger older'' @ [CHR 0x0A]"

text \<open>\<open>tasks\<close> is the order of \<^verbatim>\<open>for_each_task\<close>.\<close>

fun show_tasks :: "(ulong \<Rightarrow> int) \<Rightarrow> kstate \<Rightarrow> (tid \<Rightarrow> listing) \<Rightarrow> tid list \<Rightarrow> string option" where
  "show_tasks ffz s l [] = Some []"
| "show_tasks ffz s l (p # ps) =
     do { t \<leftarrow> show_task ffz s l p; ts \<leftarrow> show_tasks ffz s l ps; Some (t @ ts) }"

definition show_state :: "(ulong \<Rightarrow> int) \<Rightarrow> kstate \<Rightarrow> (tid \<Rightarrow> listing) \<Rightarrow> tid list \<Rightarrow> string option" where
  "show_state ffz s l tasks = map_option (\<lambda>t. show_header @ t) (show_tasks ffz s l tasks)"

section \<open>Lemmas\<close>

lemma length_pads [simp]:
  "length t \<le> w \<Longrightarrow> length (pad_left c w t) = w" "length (pad_right w t) = w"
  by (simp_all add: pad_left_def pad_right_def)

lemma length_hex [simp]: "length (hex_digits w) = 8"
  by (simp add: hex_digits_def)

lemma length_state_letter [simp]: "length (state_letter ffz st) = 1"
proof -
  have "i < length stat_nam \<Longrightarrow> length (stat_nam ! i) = 1" for i
    by (auto simp: stat_nam_def less_Suc_eq)
  then show ?thesis by (simp add: state_letter_def Let_def)
qed

lemma free_stack_bound: "free_stack ws = Some n \<Longrightarrow> n < 4 * length ws"
  by (induction ws arbitrary: n) (auto split: if_splits)

lemma free_stack_words:
  "free_stack ws = Some n \<longleftrightarrow>
   (\<exists>k<length ws. n = 4 * k \<and> (\<forall>i<k. ws ! i = 0) \<and> ws ! k \<noteq> 0)"
proof (induction ws arbitrary: n)
  case (Cons w ws)
  show ?case
  proof (cases "w = 0")
    case True
    have "free_stack (w # ws) = Some n \<longleftrightarrow> (\<exists>m. free_stack ws = Some m \<and> n = m + 4)" using True by auto
    also have "\<dots> \<longleftrightarrow> (\<exists>k<length ws. n = 4 * Suc k \<and> (\<forall>i<k. ws ! i = 0) \<and> ws ! k \<noteq> 0)"
      unfolding Cons.IH by auto
    also have "\<dots> \<longleftrightarrow> (\<exists>k<length (w # ws). n = 4 * k \<and> (\<forall>i<k. (w # ws) ! i = 0) \<and> (w # ws) ! k \<noteq> 0)"
      using True by (auto simp: Ex_less_Suc2 All_less_Suc2)
    finally show ?thesis .
  next
    case False
    then show ?thesis by (auto simp: Ex_less_Suc2 All_less_Suc2)
  qed
qed simp

lemma length_show_int: "0 \<le> v \<Longrightarrow> v < 10 ^ d \<Longrightarrow> 0 < d \<Longrightarrow> length (show_int v) \<le> d"
proof -
  assume v: "0 \<le> v" "v < 10 ^ d" "0 < d"
  then have "nat v < 10 ^ d" by (simp add: nat_less_iff)
  from length_show_nat [OF this v(3)] v(1) show ?thesis by (simp add: show_int_def)
qed

text \<open>A number that fits its field: not negative, of at most \<open>d\<close> digits.\<close>

definition number_fits :: "nat \<Rightarrow> int option \<Rightarrow> bool" where
  "number_fits d r \<longleftrightarrow> (case r of None \<Rightarrow> True | Some v \<Rightarrow> 0 \<le> v \<and> v < 10 ^ d)"

lemma length_family_field:
  assumes "number_fits d r" and "0 < d" and "d \<le> w" and "length blank = w + length after"
  shows "length (family_field w blank r after) = w + length after"
proof (cases r)
  case (Some v)
  with assms(1,2) have "length (show_int v) \<le> d" by (simp add: number_fits_def length_show_int)
  with assms(3) Some show ?thesis by (simp add: family_field_def)
qed (simp add: family_field_def assms(4))

section \<open>Properties\<close>

text \<open>The characters from column \<open>a\<close> up to column \<open>b\<close> of a line.\<close>

definition columns :: "nat \<Rightarrow> nat \<Rightarrow> string \<Rightarrow> string" where
  "columns a b t = take (b - a) (drop a t)"

text \<open>
  The row of a task is as long as the line of the titles in front of its tag, and the bytes of free
  stack, the process and its father stand right-aligned under the titles \<^verbatim>\<open>stack\<close>, \<^verbatim>\<open>pid\<close> and \<^verbatim>\<open>father\<close>
  whenever the numbers fit five digits.
\<close>

theorem show_task_row:
  assumes "free_stack (stack_words (l p)) = Some free" and "free < 10 ^ 5"
    and "number_fits 5 (Some (pid (l p)))" and "number_fits 5 (Some (parent_pid (l p)))"
    and "number_fits 5 (youngest_child (l p))" and "number_fits 5 (younger_sibling (l p))"
    and "number_fits 5 (older_sibling (l p))"
  shows "\<exists>row rest. show_task ffz s l p = Some (row @ rest) \<and>
    length row = length ''  task             PC    stack   pid father child younger older'' \<and>
    columns 25 30 row = pad_left CHR '' '' 5 (show_nat free) \<and>
    columns 31 36 row = pad_left CHR '' '' 5 (show_int (pid (l p))) \<and>
    columns 37 43 row = pad_left CHR '' '' 6 (show_int (parent_pid (l p)))"
proof -
  let ?older = "case older_sibling (l p) of None \<Rightarrow> ''      '' | Some v \<Rightarrow> '' '' @ pad_left CHR '' '' 5 (show_int v)"
  let ?front = "pad_right 13 (comm (l p)) @ '' '' @ state_letter ffz (state (task_of s p)) @
      (if p = current s then '' current  '' else '' '' @ hex_digits (thread_saved_pc (l p)) @ '' '')"
  let ?free = "pad_left CHR '' '' 5 (show_nat free)" and ?pid = "pad_left CHR '' '' 5 (show_int (pid (l p)))"
    and ?father = "pad_left CHR '' '' 6 (show_int (parent_pid (l p)))"
    and ?child = "family_field 5 ''      '' (youngest_child (l p)) '' ''"
    and ?younger = "family_field 7 ''       '' (younger_sibling (l p)) ''''"
  let ?row = "?front @ ?free @ '' '' @ ?pid @ '' '' @ ?father @ '' '' @ ?child @ ?younger @ ?older"
  let ?rest = "(if mm (task_of s p) = None then '' (L-TLB)'' else '' (NOTLB)'') @ [CHR 0x0A] @ trace_text (l p)"
  have len: "length ?front = 25" "length ?free = 5" "length ?pid = 5" "length ?father = 6"
    using assms(2-4) length_show_nat [of free 5] length_show_int [of "pid (l p)" 5]
      length_show_int [of "parent_pid (l p)" 5]
    by (simp_all add: number_fits_def)
  have family: "length ?child = 6" "length ?younger = 7"
    using length_family_field [OF assms(5), of 5 "''      ''" "'' ''"]
      length_family_field [OF assms(6), of 7 "''       ''" "''''"] by simp_all
  have older: "length ?older = 6"
    using assms(7) length_show_int [of _ 5] by (cases "older_sibling (l p)") (auto simp: number_fits_def)
  have "show_task ffz s l p = Some (?row @ ?rest)" using assms(1) by (simp add: show_task_def)
  moreover have "length ?row = 63" using len family older by (simp only: length_append) simp
  moreover have "columns 25 30 ?row = ?free"
    unfolding columns_def using len(1,2) by simp
  moreover have "columns 31 36 ?row = ?pid" "columns 37 43 ?row = ?father"
    unfolding columns_def using len by simp_all
  ultimately show ?thesis by (intro exI [of _ ?row] exI [of _ ?rest]) simp
qed

text \<open>\<open>ffz\<close> as its header documents it: the number of the first 0 bit.\<close>

definition first_zero :: "(ulong \<Rightarrow> int) \<Rightarrow> bool" where
  "first_zero ffz \<longleftrightarrow> (\<forall>w i. i < 32 \<and> \<not> bit w i \<and> (\<forall>j<i. bit w j) \<longrightarrow> ffz w = int i)"

text \<open>The letter of a state that is a single bit names that bit; \<^verbatim>\<open>TASK_RUNNING\<close> is \<open>R\<close>.\<close>

theorem state_letter_single:
  assumes "first_zero ffz" and "i < 5"
  shows "state_letter ffz 0 = ''R'' \<and> state_letter ffz (2 ^ i) = [''SDZTW'' ! i]"
proof -
  have "ffz (NOT (2 ^ i)) = int i"
    using assms unfolding first_zero_def by (simp add: bit_not_iff bit_exp_iff)
  moreover have "i = 0 \<or> i = 1 \<or> i = 2 \<or> i = 3 \<or> i = 4" using assms(2) by linarith
  ultimately show ?thesis by (elim disjE) (simp_all add: state_letter_def stat_nam_def)
qed

end
