(* ===== verification/Wire.thy ===== *)
theory Wire
  imports Prelude
begin

text \<open>
  The data representation that \<^verbatim>\<open>Project_3/client.c\<close> and \<^verbatim>\<open>Project_3/server.c\<close> share: memory images of
  integers as \<^verbatim>\<open>memcpy\<close> copies them on the little-endian x86-64 (\<^verbatim>\<open>int\<close> has 4 bytes, \<^verbatim>\<open>size_t\<close> and \<^verbatim>\<open>off_t\<close>
  have 8), \<^verbatim>\<open>htons\<close> and \<^verbatim>\<open>ntohs\<close>, fixed buffers with bounds, and C strings. The locale \<^verbatim>\<open>wire_field\<close> is the
  contract of a field of a message, interpreted on each of the fields the two programs exchange.
\<close>

section \<open>Memory images\<close>

definition mem_image :: "'a::len word \<Rightarrow> bytes" where
  "mem_image w = map (\<lambda>i. ucast (drop_bit (8 * i) w)) [0..<LENGTH('a) div 8]"

primrec of_image :: "bytes \<Rightarrow> 'a::len word" where
  "of_image [] = 0"
| "of_image (b # bs) = ucast b OR push_bit 8 (of_image bs)"

lemma bit_of_image:
  "bit (of_image bs :: 'a::len word) i \<longleftrightarrow>
     i < LENGTH('a) \<and> i div 8 < length bs \<and> bit (bs ! (i div 8)) (i mod 8)"
proof (induction bs arbitrary: i)
  case (Cons b bs)
  show ?case
  proof (cases "i < 8")
    case True
    then show ?thesis by (auto simp: bit_or_iff bit_ucast_iff bit_push_bit_iff)
  next
    case False
    then obtain j where j: "i = j + 8" by (metis add.commute le_add_diff_inverse not_less)
    have "\<not> bit b i" using False bit_imp_le_length [of b i] by auto
    moreover have "(j + 8) div 8 = Suc (j div 8)" by simp
    ultimately show ?thesis using Cons.IH [of j] unfolding j
      by (auto simp: bit_or_iff bit_ucast_iff bit_push_bit_iff dest: bit_imp_le_length)
  qed
qed simp

lemma length_mem_image: "length (mem_image (w :: 'a::len word)) = LENGTH('a) div 8"
  by (simp add: mem_image_def)

lemma image_round_trip:
  assumes "8 dvd LENGTH('a)"
  shows "of_image (mem_image w) = (w :: 'a::len word)"
proof (rule bit_word_eqI)
  fix i assume "i < LENGTH('a)"
  moreover from this assms have "i div 8 < LENGTH('a) div 8" by auto
  ultimately show "bit (of_image (mem_image w) :: 'a word) i = bit w i"
    by (simp add: bit_of_image length_mem_image) (simp add: mem_image_def bit_ucast_iff bit_drop_bit_eq)
qed

section \<open>Network byte order\<close>

definition htons :: "u16 \<Rightarrow> u16" where
  "htons w = push_bit 8 w OR drop_bit 8 w"

definition ntohs :: "u16 \<Rightarrow> u16" where
  "ntohs w = htons w"

lemma ntohs_htons [simp]: "ntohs (htons w) = w"
  by (rule bit_word_eqI)
    (auto simp: ntohs_def htons_def bit_or_iff bit_push_bit_iff bit_drop_bit_eq dest: bit_imp_le_length)

section \<open>Fields of a message\<close>

locale wire_field =
  fixes put :: "'v \<Rightarrow> bytes" and get :: "bytes \<Rightarrow> 'v" and width :: nat
  assumes put_width: "length (put v) = width"
    and get_put: "get (put v @ rest) = v"
begin

lemma get_behind: "length pre = k \<Longrightarrow> get (drop k (pre @ put v @ rest)) = v"
  by (simp add: get_put)

lemma put_eq_iff: "put v = put w \<longleftrightarrow> v = w"
  using get_put [of _ "[]"] by metis

lemma get_second:
  "length pre = k \<Longrightarrow> get (drop (k + width) (pre @ put v @ put w @ rest)) = w"
  using get_behind [of "pre @ put v" "k + width"] by (simp add: put_width)

lemma take_put: "take width (put v @ rest) = put v"
  by (simp add: put_width)

end

definition put_int :: "u32 \<Rightarrow> bytes" where "put_int w = mem_image w"
definition get_int :: "bytes \<Rightarrow> u32" where "get_int b = of_image (take 4 b)"
definition put_size :: "u64 \<Rightarrow> bytes" where "put_size w = mem_image w"
definition get_size :: "bytes \<Rightarrow> u64" where "get_size b = of_image (take 8 b)"
definition put_short :: "u16 \<Rightarrow> bytes" where "put_short w = mem_image (htons w)"
definition get_short :: "bytes \<Rightarrow> u16" where "get_short b = ntohs (of_image (take 2 b))"

text \<open>A length sent as \<^verbatim>\<open>int\<close> after \<^verbatim>\<open>htons\<close>: only 16 of its 32 bits travel.\<close>

definition put_count :: "u16 \<Rightarrow> bytes" where "put_count w = put_int (ucast (htons w))"
definition get_count :: "bytes \<Rightarrow> u16" where "get_count b = ntohs (ucast (get_int b))"

interpretation int_field: wire_field put_int get_int 4
  by unfold_locales (simp_all add: put_int_def get_int_def length_mem_image image_round_trip)

interpretation size_field: wire_field put_size get_size 8
  by unfold_locales (simp_all add: put_size_def get_size_def length_mem_image image_round_trip)

interpretation short_field: wire_field put_short get_short 2
  by unfold_locales (simp_all add: put_short_def get_short_def length_mem_image image_round_trip)

interpretation count_field: wire_field put_count get_count 4
  by unfold_locales
    (simp_all add: put_count_def get_count_def int_field.put_width int_field.get_put ucast_down_ucast_id is_down)

section \<open>Fixed buffers\<close>

text \<open>A copy into a buffer at an index; \<^term>\<open>None\<close> is a write outside it.\<close>

definition store_at :: "nat \<Rightarrow> bytes \<Rightarrow> bytes \<Rightarrow> bytes option" where
  "store_at i bs buf =
     (if i + length bs \<le> length buf then Some (take i buf @ bs @ drop (i + length bs) buf) else None)"

text \<open>The C string at an index; \<^term>\<open>None\<close> when its terminating 0 is not in the buffer.\<close>

definition c_string :: "nat \<Rightarrow> bytes \<Rightarrow> bytes option" where
  "c_string i buf = (if 0 \<in> set (drop i buf) then Some (takeWhile (\<lambda>b. b \<noteq> 0) (drop i buf)) else None)"

abbreviation zeros :: "nat \<Rightarrow> bytes" where
  "zeros n \<equiv> replicate n 0"

lemma c_string_behind:
  assumes "0 \<notin> set p" and "length pre = i" and "0 < m"
  shows "c_string i (pre @ p @ zeros m) = Some p"
proof -
  obtain j where m: "m = Suc j" using assms(3) by (cases m) auto
  have p: "\<forall>b \<in> set p. b \<noteq> 0" using assms(1) by metis
  then have "takeWhile (\<lambda>b. b \<noteq> 0) (p @ 0 # zeros j) = p" by (simp add: takeWhile_append2)
  then show ?thesis using assms(2) by (simp add: c_string_def m)
qed

lemma store_behind:
  assumes "length pre = i" and "length bs \<le> m"
  shows "store_at i bs (pre @ zeros m) = Some ((pre @ bs) @ zeros (m - length bs))"
  using assms by (simp add: store_at_def)

end
