(* ===== verification/File_Server.thy ===== *)
theory File_Server
  imports Wire
begin

text \<open>
  The request handlers of \<^verbatim>\<open>Project_3/server.c\<close>. The operating system is a parameter, the record
  \<^verbatim>\<open>os\<close>: the system calls the server makes act on a file system of any type \<^typ>\<open>'fs\<close>. A handler gives
  the messages it sends, in order, and the file system behind it; \<^term>\<open>None\<close> is an access outside a
  buffer or the use of a variable without a value.
\<close>

section \<open>The environment\<close>

text \<open>
  \<^verbatim>\<open>path\<close> is copied without its terminating 0 to a block of exactly its length, so a system call reads on
  behind the block: \<^verbatim>\<open>behind\<close> is the bytes there, up to a 0.
\<close>

record 'fs os =
  mount :: bytes
  behind :: bytes
  sizeof_stat :: nat
  stat_call :: "bytes \<Rightarrow> 'fs \<Rightarrow> bytes option"
  open_rdonly :: "bytes \<Rightarrow> 'fs \<Rightarrow> nat option"
  pread_call :: "nat option \<Rightarrow> nat \<Rightarrow> int \<Rightarrow> 'fs \<Rightarrow> bytes option"
  truncate_call :: "bytes \<Rightarrow> int \<Rightarrow> 'fs \<Rightarrow> bool \<times> 'fs"

section \<open>Paths\<close>

text \<open>
  What a system call sees at the block. \<^verbatim>\<open>bzero(path, sizeof(path))\<close> clears the size of a pointer, 8 bytes,
  also where the block is shorter; \<^verbatim>\<open>server_truncate\<close> has no such call.
\<close>

definition block_string :: "bool \<Rightarrow> bytes \<Rightarrow> bytes \<Rightarrow> bytes" where
  "block_string cleared path gap =
     takeWhile (\<lambda>b. b \<noteq> 0) (path @ (if cleared then zeros (8 - length path) else []) @ gap)"

definition server_path :: "bool \<Rightarrow> 'fs os \<Rightarrow> nat \<Rightarrow> bytes \<Rightarrow> bytes option" where
  "server_path cleared e off buffer =
     do { p \<leftarrow> c_string off buffer;
          t \<leftarrow> store_at 0 (mount e) (zeros 1024);
          t \<leftarrow> store_at (length (mount e)) p t;
          path \<leftarrow> c_string 0 t;
          Some (block_string cleared path (behind e)) }"

section \<open>Handlers\<close>

definition server_getattr :: "'fs os \<Rightarrow> bytes \<Rightarrow> 'fs \<Rightarrow> (bytes list \<times> 'fs) option" where
  "server_getattr e buffer fs =
     do { path \<leftarrow> server_path True e 2 buffer;
          reply \<leftarrow> (case stat_call e path fs of
                      None \<Rightarrow> store_at 0 (put_short 0) (zeros 1024)
                    | Some st \<Rightarrow> do { r \<leftarrow> store_at 0 (put_short 1) (zeros 1024); store_at 2 st r });
          if sizeof_stat e + 2 \<le> 1024 then Some ([take (sizeof_stat e + 2) reply], fs) else None }"

definition server_open :: "'fs os \<Rightarrow> bytes \<Rightarrow> 'fs \<Rightarrow> (bytes list \<times> 'fs) option" where
  "server_open e buffer fs =
     do { path \<leftarrow> server_path True e (2 + 4) buffer;
          reply \<leftarrow> (case open_rdonly e path fs of
                      None \<Rightarrow> store_at 0 (put_short 0) (zeros 1024)
                    | Some _ \<Rightarrow> store_at 0 (put_short 1) (zeros 1024));
          Some ([take 2 reply], fs) }"

definition server_truncate :: "'fs os \<Rightarrow> bytes \<Rightarrow> 'fs \<Rightarrow> (bytes list \<times> 'fs) option" where
  "server_truncate e buffer fs =
     (let size = sint (get_size (drop 2 buffer))
      in do { path \<leftarrow> server_path False e (2 + 8) buffer;
              let (ok, fs') = truncate_call e path size fs;
              reply \<leftarrow> store_at 0 (put_short (if ok then 0 else - 1)) (zeros 1024);
              Some ([take 2 reply], fs') })"

text \<open>
  One message of \<^verbatim>\<open>server_read\<close>: the data at index 8 of the cleared buffer, the two header fields, and
  \<^verbatim>\<open>2*sizeof(int)+n\<close> bytes sent, where \<^verbatim>\<open>n\<close> is -1 after a failed \<^verbatim>\<open>pread\<close>.
\<close>

definition read_message :: "int \<Rightarrow> u16 \<Rightarrow> bytes \<Rightarrow> bytes option" where
  "read_message n fin data =
     do { b \<leftarrow> store_at 8 data (zeros (2 * 4 + 4096));
          b \<leftarrow> store_at 0 (put_count (word_of_int n)) b;
          b \<leftarrow> store_at 4 (put_count fin) b;
          Some (take (nat (2 * 4 + n)) b) }"

definition read_result :: "bytes option \<Rightarrow> int \<times> bytes" where
  "read_result r = (case r of None \<Rightarrow> (- 1, []) | Some d \<Rightarrow> (int (length d), d))"

text \<open>
  The loop of \<^verbatim>\<open>server_read\<close>. With \<^verbatim>\<open>size\<close> 0 the length of the message is the variable \<^verbatim>\<open>n\<close>, which has no
  value then. \<^verbatim>\<open>size -= n\<close> cannot wrap, since \<^verbatim>\<open>n\<close> is at most the 4096 that fit the buffer.
\<close>

function server_read_loop :: "'fs os \<Rightarrow> nat option \<Rightarrow> nat \<Rightarrow> int \<Rightarrow> 'fs \<Rightarrow> bytes list option" where
  "server_read_loop e file sz off fs =
     (if sz > 4096
      then (let (n, d) = read_result (pread_call e file 4096 off fs)
            in if n < 4096
               then (case read_message n 1 d of None \<Rightarrow> None | Some m \<Rightarrow> Some [m])
               else if off + n \<ge> 2 ^ 63 then None
               else (case read_message n 0 d of
                       None \<Rightarrow> None
                     | Some m \<Rightarrow>
                         (case server_read_loop e file (sz - nat n) (off + n) fs of
                            None \<Rightarrow> None
                          | Some ms \<Rightarrow> Some (m # ms))))
      else if sz = 0 then None
      else (let (n, d) = read_result (pread_call e file sz off fs)
            in case read_message n 1 d of None \<Rightarrow> None | Some m \<Rightarrow> Some [m]))"
  by pat_completeness auto
termination by (relation "measure (\<lambda>(e, file, sz, off, fs). sz)") auto

declare server_read_loop.simps [simp del]

definition server_read :: "'fs os \<Rightarrow> bytes \<Rightarrow> 'fs \<Rightarrow> (bytes list \<times> 'fs) option" where
  "server_read e buffer fs =
     (let size = unat (get_size (drop 2 buffer)); off = sint (get_size (drop (2 + 8) buffer))
      in do { path \<leftarrow> server_path True e (2 + 8 + 8) buffer;
              ms \<leftarrow> server_read_loop e (open_rdonly e path fs) size off fs;
              Some (ms, fs) })"

section \<open>Dispatch\<close>

text \<open>
  \<^verbatim>\<open>handle_request\<close> after its \<^verbatim>\<open>recv\<close> has given \<^verbatim>\<open>received\<close>. The numbers without a handler, and all
  unknown ones, get no answer; the connection is never closed.
\<close>

definition handle_request :: "'fs os \<Rightarrow> bytes \<Rightarrow> 'fs \<Rightarrow> (bytes list \<times> 'fs) option" where
  "handle_request e received fs =
     do { recv_data \<leftarrow> store_at 0 received (zeros 1024);
          let opn = get_short recv_data;
          if opn = 1 then server_open e recv_data fs
          else if opn = 3 then server_truncate e recv_data fs
          else if opn = 4 then server_getattr e recv_data fs
          else if opn = 5 then server_read e recv_data fs
          else Some ([], fs) }"

section \<open>The path a handler works on\<close>

text \<open>A string that stands where a handler looks for it, with room for mount point and path.\<close>

definition path_ok :: "'fs os \<Rightarrow> nat \<Rightarrow> bytes \<Rightarrow> bool" where
  "path_ok e k p \<longleftrightarrow> 0 \<notin> set (mount e) \<and> 0 \<notin> set p \<and> length (mount e) + length p < 1024 \<and> k + length p < 1024"

lemma store_front: "length bs \<le> m \<Longrightarrow> store_at 0 bs (zeros m) = Some (bs @ zeros (m - length bs))"
  using store_behind [of "[]" 0 bs m] by simp

lemma full_path:
  assumes "path_ok e k p" and "length pre = k" and "0 < m"
  shows "server_path cleared e k (pre @ p @ zeros m) = Some (block_string cleared (mount e @ p) (behind e))"
proof -
  have s: "c_string k (pre @ p @ zeros m) = Some p"
    using assms by (intro c_string_behind) (simp_all add: path_ok_def)
  let ?r = "1024 - length (mount e)"
  have t1: "store_at 0 (mount e) (zeros 1024) = Some (mount e @ zeros ?r)"
    using assms(1) by (intro store_front) (simp add: path_ok_def)
  have t2: "store_at (length (mount e)) p (mount e @ zeros ?r) = Some ((mount e @ p) @ zeros (?r - length p))"
    using assms(1) unfolding path_ok_def by (intro store_behind) linarith+
  have "c_string 0 ([] @ (mount e @ p) @ zeros (?r - length p)) = Some (mount e @ p)"
    using assms(1) by (intro c_string_behind) (auto simp: path_ok_def)
  with s t1 t2 show ?thesis by (simp add: server_path_def)
qed

lemma block_string_exact: "0 \<notin> set p \<Longrightarrow> block_string c p [] = p"
proof -
  assume "0 \<notin> set p"
  then have "\<forall>b \<in> set p. b \<noteq> 0" by metis
  then show ?thesis by (simp add: block_string_def takeWhile_append2)
qed

end
