(* ===== verification/File_Client.thy ===== *)
theory File_Client
  imports Wire
begin

text \<open>
  The operations of \<^verbatim>\<open>Project_3/client.c\<close> that FUSE calls. The network with the server behind it is a
  parameter: for a request it gives what each of the client's calls of \<^verbatim>\<open>recv\<close> finds. The locale
  \<^verbatim>\<open>transport\<close> states what the client relies on, and is interpreted on the network that delivers each
  message of a server as it was sent.
\<close>

section \<open>The network\<close>

text \<open>
  The result of one \<^verbatim>\<open>recv\<close>: some bytes (none when the peer has closed the connection), an error, or
  nothing ever.
\<close>

datatype arrival = Chunk bytes | Failed | Never

type_synonym 'w network = "bytes \<Rightarrow> 'w \<Rightarrow> ((nat \<Rightarrow> arrival) \<times> 'w) option"

datatype 'a outcome = Returns 'a | NoReturn | Undefined

definition recv_into :: "nat \<Rightarrow> arrival \<Rightarrow> bytes \<Rightarrow> bytes option" where
  "recv_into cap a buf =
     (case a of
        Chunk c \<Rightarrow> Some (take cap c @ drop (length (take cap c)) buf)
      | Failed \<Rightarrow> Some buf
      | Never \<Rightarrow> None)"

text \<open>Every operation builds a request, sends it and works on what comes back.\<close>

definition exchange ::
    "'w network \<Rightarrow> bytes option \<Rightarrow> ((nat \<Rightarrow> arrival) \<Rightarrow> 'a outcome) \<Rightarrow> 'w \<Rightarrow> 'a outcome \<times> 'w" where
  "exchange net req use_answer w =
     (case req of
        None \<Rightarrow> (Undefined, w)
      | Some r \<Rightarrow> (case net r w of None \<Rightarrow> (Undefined, w) | Some (arr, w') \<Rightarrow> (use_answer arr, w')))"

abbreviation (input) ENOENT_result :: int where "ENOENT_result \<equiv> - 2"
abbreviation (input) EACCES_result :: int where "EACCES_result \<equiv> - 13"

section \<open>getattr\<close>

definition getattr_request :: "bytes \<Rightarrow> bytes option" where
  "getattr_request path =
     do { b \<leftarrow> store_at 0 (put_short 4) (zeros 1024);
          b \<leftarrow> store_at 2 path b;
          Some (take (length path + 2) b) }"

definition getattr_answer :: "nat \<Rightarrow> (nat \<Rightarrow> arrival) \<Rightarrow> (int \<times> bytes) outcome" where
  "getattr_answer stat_size arr =
     (case recv_into (stat_size + 2) (arr 0) (zeros (stat_size + 2)) of
        None \<Rightarrow> NoReturn
      | Some recv_data \<Rightarrow>
          let result = get_short recv_data
          in if result = 0 then Returns (ENOENT_result, zeros stat_size)
             else if result = 1 then Returns (0, take stat_size (drop 2 recv_data))
             else Returns (0, zeros stat_size))"

definition client_getattr :: "'w network \<Rightarrow> nat \<Rightarrow> bytes \<Rightarrow> 'w \<Rightarrow> (int \<times> bytes) outcome \<times> 'w" where
  "client_getattr net stat_size path = exchange net (getattr_request path) (getattr_answer stat_size)"

section \<open>open\<close>

definition open_request :: "u32 \<Rightarrow> bytes \<Rightarrow> bytes option" where
  "open_request flags path =
     do { b \<leftarrow> store_at 0 (put_short 1) (zeros 1024);
          b \<leftarrow> store_at 2 (put_count (ucast flags)) b;
          b \<leftarrow> store_at (2 + 4) path b;
          Some (take (length path + 2 + 4) b) }"

definition open_answer :: "nat \<Rightarrow> u32 \<Rightarrow> (nat \<Rightarrow> arrival) \<Rightarrow> int outcome" where
  "open_answer stat_size flags arr =
     (case recv_into 2 (arr 0) (zeros (stat_size + 2)) of
        None \<Rightarrow> NoReturn
      | Some recv_data \<Rightarrow>
          let result = get_short recv_data
          in if result = 0 then Returns ENOENT_result
             else if result = 1 then Returns (if flags AND 3 \<noteq> 0 then EACCES_result else 0)
             else Returns 0)"

definition client_open :: "'w network \<Rightarrow> nat \<Rightarrow> bytes \<Rightarrow> u32 \<Rightarrow> 'w \<Rightarrow> int outcome \<times> 'w" where
  "client_open net stat_size path flags = exchange net (open_request flags path) (open_answer stat_size flags)"

section \<open>read\<close>

definition read_request :: "u64 \<Rightarrow> u64 \<Rightarrow> bytes \<Rightarrow> bytes option" where
  "read_request sz off path =
     do { b \<leftarrow> store_at 0 (put_short 5) (zeros 1024);
          b \<leftarrow> store_at 2 (put_size sz) b;
          b \<leftarrow> store_at (2 + 8) (put_size off) b;
          b \<leftarrow> store_at (2 + 8 + 8) (path @ [0]) b;
          Some (take (length path + 2 + 8 + 8) b) }"

text \<open>
  The loop over the answers: \<^term>\<open>None\<close> is a loop that does not end, \<^term>\<open>Some None\<close> a copy outside
  \<^verbatim>\<open>recv_data\<close> or the caller's buffer of \<^verbatim>\<open>size\<close> bytes. Only the 8 bytes of the header are cleared between the
  messages (the size of the pointer).
\<close>

partial_function (option) client_receive ::
    "(nat \<Rightarrow> arrival) \<Rightarrow> nat \<Rightarrow> nat \<Rightarrow> bytes \<Rightarrow> bytes \<Rightarrow> bytes option option" where
  "client_receive arr k room recv_data got =
     (case recv_into (2 * 4 + 4096) (arr k) recv_data of
        None \<Rightarrow> None
      | Some d \<Rightarrow>
          (let rsize = unat (get_count d); fin = get_count (drop 4 d)
           in if 2 * 4 + rsize > length d \<or> length got + rsize > room \<or> length got + rsize \<ge> 2 ^ 31
              then Some None
              else if fin \<noteq> 0 then Some (Some (got @ take rsize (drop 8 d)))
              else client_receive arr (k + 1) room (zeros 8 @ drop 8 d) (got @ take rsize (drop 8 d))))"

definition read_answer :: "u64 \<Rightarrow> (nat \<Rightarrow> arrival) \<Rightarrow> bytes outcome" where
  "read_answer sz arr =
     (case client_receive arr 0 (unat sz) (zeros (2 * 4 + 4096)) [] of
        None \<Rightarrow> NoReturn
      | Some None \<Rightarrow> Undefined
      | Some (Some bs) \<Rightarrow> Returns bs)"

definition client_read :: "'w network \<Rightarrow> bytes \<Rightarrow> u64 \<Rightarrow> u64 \<Rightarrow> 'w \<Rightarrow> bytes outcome \<times> 'w" where
  "client_read net path sz off = exchange net (read_request sz off path) (read_answer sz)"

section \<open>truncate\<close>

text \<open>
  The length passed to \<^verbatim>\<open>send\<close> counts \<^verbatim>\<open>sizeof(int)\<close> for the 8 bytes of the size. \<^verbatim>\<open>result\<close> has 16 bits without
  sign, so it never equals -1; that the copy to it is 8 bytes long is not modelled.
\<close>

definition truncate_request :: "u64 \<Rightarrow> bytes \<Rightarrow> bytes option" where
  "truncate_request sz path =
     do { b \<leftarrow> store_at 0 (put_short 3) (zeros 1024);
          b \<leftarrow> store_at 2 (put_size sz) b;
          b \<leftarrow> store_at (2 + 8) path b;
          Some (take (length path + 2 + 4) b) }"

definition truncate_answer :: "(nat \<Rightarrow> arrival) \<Rightarrow> int outcome" where
  "truncate_answer arr =
     (case recv_into 2 (arr 0) (zeros 2) of
        None \<Rightarrow> NoReturn
      | Some recv_data \<Rightarrow> Returns (if int (unat (get_short recv_data)) = - 1 then ENOENT_result else 0))"

definition client_truncate :: "'w network \<Rightarrow> bytes \<Rightarrow> u64 \<Rightarrow> 'w \<Rightarrow> int outcome \<times> 'w" where
  "client_truncate net path sz = exchange net (truncate_request sz path) truncate_answer"

section \<open>readdir\<close>

text \<open>The entries given to \<^verbatim>\<open>filler\<close>, in order; the server is not asked.\<close>

definition ascii :: "string \<Rightarrow> bytes" where
  "ascii s = map of_char s"

definition client_readdir :: "bytes \<Rightarrow> int \<times> bytes list" where
  "client_readdir path =
     (if path \<noteq> ascii ''/'' then (ENOENT_result, [])
      else (0, [ascii ''.'', ascii ''..'', ascii ''hello'']))"

section \<open>Requests as they travel\<close>

lemma short_front: "store_at 0 (put_short v) (zeros 1024) = Some (put_short v @ zeros 1022)"
  using store_behind [of "[]" 0 "put_short v" 1024] by (simp add: short_field.put_width)

lemma getattr_bytes: "2 + length p \<le> 1024 \<Longrightarrow> getattr_request p = Some (put_short 4 @ p)"
  using store_behind [of "put_short 4" 2 p 1022]
  by (simp add: getattr_request_def short_front short_field.put_width)

lemma open_bytes: "2 + 4 + length p \<le> 1024 \<Longrightarrow> open_request f p = Some (put_short 1 @ put_count (ucast f) @ p)"
  using store_behind [of "put_short 1" 2 "put_count (ucast f)" 1022]
    store_behind [of "put_short 1 @ put_count (ucast f)" 6 p 1018]
  by (simp add: open_request_def short_front short_field.put_width count_field.put_width)

lemma read_bytes:
  "2 + 8 + 8 + length p < 1024 \<Longrightarrow> read_request sz off p = Some (put_short 5 @ put_size sz @ put_size off @ p)"
  using store_behind [of "put_short 5" 2 "put_size sz" 1022]
    store_behind [of "put_short 5 @ put_size sz" 10 "put_size off" 1014]
    store_behind [of "put_short 5 @ put_size sz @ put_size off" 18 "p @ [0]" 1006]
  by (simp add: read_request_def short_front short_field.put_width size_field.put_width)

lemma truncate_bytes:
  "2 + 8 + length p \<le> 1024 \<Longrightarrow> truncate_request sz p = Some (take (length p + 6) (put_short 3 @ put_size sz @ p))"
  using store_behind [of "put_short 3" 2 "put_size sz" 1022]
    store_behind [of "put_short 3 @ put_size sz" 10 p 1014]
  by (simp add: truncate_request_def short_front short_field.put_width size_field.put_width)

section \<open>The transport contract\<close>

text \<open>Every message of the server's answer is what one \<^verbatim>\<open>recv\<close> finds.\<close>

locale transport =
  fixes net :: "'w network" and handler :: "bytes \<Rightarrow> 'w \<Rightarrow> (bytes list \<times> 'w) option"
  assumes delivers: "handler req w = Some (ms, w') \<Longrightarrow>
      \<exists>arr. net req w = Some (arr, w') \<and> (\<forall>k < length ms. arr k = Chunk (ms ! k))"
begin

lemma one_message:
  assumes "handler req w = Some ([m], w')" and "\<And>arr. arr 0 = Chunk m \<Longrightarrow> use_answer arr = r"
  shows "exchange net (Some req) use_answer w = (r, w')"
  using delivers [OF assms(1)] assms(2) by (auto simp: exchange_def)

lemma all_messages:
  assumes "handler req w = Some (ms, w')"
    and "\<And>arr. (\<And>k. k < length ms \<Longrightarrow> arr k = Chunk (ms ! k)) \<Longrightarrow> use_answer arr = r"
  shows "exchange net (Some req) use_answer w = (r, w')"
  using delivers [OF assms(1)] assms(2) by (auto simp: exchange_def)

end

definition deliver :: "bytes list \<Rightarrow> nat \<Rightarrow> arrival" where
  "deliver ms k = (if k < length ms then Chunk (ms ! k) else Never)"

definition direct_network :: "(bytes \<Rightarrow> 'w \<Rightarrow> (bytes list \<times> 'w) option) \<Rightarrow> 'w network" where
  "direct_network handler req w =
     (case handler req w of None \<Rightarrow> None | Some (ms, w') \<Rightarrow> Some (deliver ms, w'))"

interpretation direct: transport "direct_network h" h for h
  by unfold_locales (auto simp: direct_network_def deliver_def)

end
