(* ===== verification/File_Access.thy ===== *)
theory File_Access
  imports File_Server File_Client
begin

text \<open>
  \<^verbatim>\<open>client.c\<close> and \<^verbatim>\<open>server.c\<close> together. \<^verbatim>\<open>spec_call\<close> says what a call of the client means for the files
  under the mount point; the calls over the wire implement it. The last part shows what happens when
  the file is missing, a message is delivered in pieces, or there is no server.
\<close>

section \<open>Calls and what they mean\<close>

datatype call = Getattr bytes | Open bytes u32 | Read bytes u64 u64 | Truncate bytes u64

datatype answer = Attributes int bytes | Status int | Data bytes

fun map_outcome :: "('a \<Rightarrow> 'b) \<Rightarrow> 'a outcome \<times> 'w \<Rightarrow> 'b outcome \<times> 'w" where
  "map_outcome f (Returns a, w) = (Returns (f a), w)"
| "map_outcome f (NoReturn, w) = (NoReturn, w)"
| "map_outcome f (Undefined, w) = (Undefined, w)"

fun wire_call :: "'fs os \<Rightarrow> call \<Rightarrow> 'fs \<Rightarrow> answer outcome \<times> 'fs" where
  "wire_call e (Getattr p) fs =
     map_outcome (\<lambda>(r, st). Attributes r st) (client_getattr (direct_network (handle_request e)) (sizeof_stat e) p fs)"
| "wire_call e (Open p flags) fs =
     map_outcome Status (client_open (direct_network (handle_request e)) (sizeof_stat e) p flags fs)"
| "wire_call e (Read p sz off) fs = map_outcome Data (client_read (direct_network (handle_request e)) p sz off fs)"
| "wire_call e (Truncate p sz) fs = map_outcome Status (client_truncate (direct_network (handle_request e)) p sz fs)"

text \<open>
  The file a call works on is the mount point followed by the path, except that \<^verbatim>\<open>truncate\<close> loses the
  last four bytes of the path, and its result.
\<close>

fun spec_call :: "'fs os \<Rightarrow> (nat \<Rightarrow> 'fs \<Rightarrow> bytes) \<Rightarrow> call \<Rightarrow> 'fs \<Rightarrow> answer \<times> 'fs" where
  "spec_call e content (Getattr p) fs =
     ((case stat_call e (mount e @ p) fs of
         None \<Rightarrow> Attributes (- 2) (zeros (sizeof_stat e)) | Some st \<Rightarrow> Attributes 0 st), fs)"
| "spec_call e content (Open p flags) fs =
     (Status (if open_rdonly e (mount e @ p) fs = None then - 2 else if flags AND 3 \<noteq> 0 then - 13 else 0), fs)"
| "spec_call e content (Read p sz off) fs =
     ((case open_rdonly e (mount e @ p) fs of
         None \<Rightarrow> Data []
       | Some fd \<Rightarrow> Data (take (unat sz) (drop (nat (sint off)) (content fd fs)))), fs)"
| "spec_call e content (Truncate p sz) fs =
     (Status 0, snd (truncate_call e (mount e @ take (length p - 4) p) (sint sz) fs))"

text \<open>What the calls need: room in the buffers, and for a read a file that can be opened.\<close>

fun call_ok :: "'fs os \<Rightarrow> call \<Rightarrow> 'fs \<Rightarrow> bool" where
  "call_ok e (Getattr p) fs \<longleftrightarrow> path_ok e 2 p"
| "call_ok e (Open p flags) fs \<longleftrightarrow> path_ok e 6 p"
| "call_ok e (Read p sz off) fs \<longleftrightarrow>
     path_ok e 18 p \<and> 0 < unat sz \<and> unat sz < 2 ^ 31 \<and> 0 \<le> sint off \<and> open_rdonly e (mount e @ p) fs \<noteq> None"
| "call_ok e (Truncate p sz) fs \<longleftrightarrow> path_ok e 10 p \<and> 4 \<le> length p"

text \<open>
  What the system calls promise: \<^verbatim>\<open>stat\<close> fills the structure, \<^verbatim>\<open>pread\<close> gives the bytes of the file at the
  offset, fewer only at its end, and the path blocks are followed by a 0.
\<close>

definition os_ok :: "'fs os \<Rightarrow> (nat \<Rightarrow> 'fs \<Rightarrow> bytes) \<Rightarrow> bool" where
  "os_ok e content \<longleftrightarrow>
     behind e = [] \<and> sizeof_stat e + 2 \<le> 1024 \<and>
     (\<forall>p fs st. stat_call e p fs = Some st \<longrightarrow> length st = sizeof_stat e) \<and>
     (\<forall>fd fs. length (content fd fs) < 2 ^ 63) \<and>
     (\<forall>fd n off fs. 0 \<le> off \<longrightarrow> pread_call e (Some fd) n off fs = Some (take n (drop (nat off) (content fd fs))))"

section \<open>The handlers on well-formed requests\<close>

lemma request_in_buffer:
  "length r \<le> 1024 \<Longrightarrow> handle_request e r fs =
     (let recv_data = r @ zeros (1024 - length r); opn = get_short recv_data
      in if opn = 1 then server_open e recv_data fs
         else if opn = 3 then server_truncate e recv_data fs
         else if opn = 4 then server_getattr e recv_data fs
         else if opn = 5 then server_read e recv_data fs
         else Some ([], fs))"
  by (simp add: handle_request_def store_front Let_def)

lemma path_found:
  assumes "path_ok e k p" and "length pre = k" and "behind e = []" and "0 < m"
  shows "server_path c e k (pre @ p @ zeros m) = Some (mount e @ p)"
  using full_path [OF assms(1,2,4)] assms(1,3) by (simp add: block_string_exact path_ok_def)

lemma serve_getattr:
  assumes "path_ok e 2 p" and "behind e = []" and "sizeof_stat e + 2 \<le> 1024"
    and "\<And>st. stat_call e (mount e @ p) fs = Some st \<Longrightarrow> length st = sizeof_stat e"
  shows "handle_request e (put_short 4 @ p) fs =
    Some ([case stat_call e (mount e @ p) fs of
             None \<Rightarrow> put_short 0 @ zeros (sizeof_stat e) | Some st \<Rightarrow> put_short 1 @ st], fs)"
proof -
  have l: "length (put_short 4 @ p) < 1024" using assms(1) by (simp add: path_ok_def short_field.put_width)
  have p: "server_path True e 2 (put_short 4 @ p @ zeros (1024 - length (put_short 4 @ p))) = Some (mount e @ p)"
    using assms(1,2) l by (intro path_found) (simp_all add: short_field.put_width)
  have s: "store_at 2 st (put_short 1 @ zeros 1022) = Some ((put_short 1 @ st) @ zeros (1022 - length st))"
    if "length st = sizeof_stat e" for st
    using that assms(3) by (intro store_behind) (simp_all add: short_field.put_width)
  have "handle_request e (put_short 4 @ p) fs =
      server_getattr e (put_short 4 @ p @ zeros (1024 - length (put_short 4 @ p))) fs"
    using l by (simp add: request_in_buffer short_field.get_put)
  then show ?thesis using p s assms(3,4)
    by (auto simp: server_getattr_def short_front short_field.put_width split: option.split)
qed

lemma serve_open:
  assumes "path_ok e 6 p" and "behind e = []"
  shows "handle_request e (put_short 1 @ put_count f @ p) fs =
    Some ([put_short (if open_rdonly e (mount e @ p) fs = None then 0 else 1)], fs)"
proof -
  let ?r = "put_short 1 @ put_count f @ p"
  have l: "length ?r < 1024" using assms(1) by (simp add: path_ok_def short_field.put_width count_field.put_width)
  have p: "server_path True e 6 ((put_short 1 @ put_count f) @ p @ zeros (1024 - length ?r)) = Some (mount e @ p)"
    using assms l by (intro path_found) (simp_all add: short_field.put_width count_field.put_width)
  have "handle_request e ?r fs = server_open e (?r @ zeros (1024 - length ?r)) fs"
    using l by (simp add: request_in_buffer short_field.get_put)
  then show ?thesis using p
    by (auto simp: server_open_def short_front short_field.put_width split: option.split)
qed

lemma serve_truncate:
  assumes "path_ok e 10 p" and "behind e = []"
  shows "\<exists>ok. handle_request e (put_short 3 @ put_size sz @ p) fs =
    Some ([put_short (if ok then 0 else - 1)], snd (truncate_call e (mount e @ p) (sint sz) fs))"
proof -
  let ?r = "put_short 3 @ put_size sz @ p"
  have l: "length ?r < 1024" using assms(1) by (simp add: path_ok_def short_field.put_width size_field.put_width)
  have p: "server_path False e 10 ((put_short 3 @ put_size sz) @ p @ zeros (1024 - length ?r)) = Some (mount e @ p)"
    using assms l by (intro path_found) (simp_all add: short_field.put_width size_field.put_width)
  have "handle_request e ?r fs = server_truncate e (?r @ zeros (1024 - length ?r)) fs"
    using l by (simp add: request_in_buffer short_field.get_put)
  moreover have "get_size (drop 2 (put_short 3 @ put_size sz @ x)) = sz" for x
    by (simp add: short_field.put_width size_field.get_put)
  ultimately show ?thesis using p
    by (cases "truncate_call e (mount e @ p) (sint sz) fs")
      (auto simp: server_truncate_def short_front short_field.put_width Let_def)
qed

lemma serve_read:
  assumes "path_ok e 18 p" and "behind e = []"
  shows "handle_request e (put_short 5 @ put_size sz @ put_size off @ p) fs =
    (case server_read_loop e (open_rdonly e (mount e @ p) fs) (unat sz) (sint off) fs of
       None \<Rightarrow> None | Some ms \<Rightarrow> Some (ms, fs))"
proof -
  let ?r = "put_short 5 @ put_size sz @ put_size off @ p"
  have l: "length ?r < 1024" using assms(1) by (simp add: path_ok_def short_field.put_width size_field.put_width)
  define b where "b = ?r @ zeros (1024 - length ?r)"
  have "server_path True e 18 ((put_short 5 @ put_size sz @ put_size off) @ p @ zeros (1024 - length ?r)) =
      Some (mount e @ p)"
    using assms l by (intro path_found) (simp_all add: short_field.put_width size_field.put_width)
  then have "server_path True e 18 b = Some (mount e @ p)" by (simp add: b_def)
  moreover have "get_size (drop 2 b) = sz" "get_size (drop 10 b) = off"
    by (simp_all add: b_def short_field.put_width size_field.get_put size_field.put_width)
  moreover have "handle_request e ?r fs = server_read e b fs"
    using l by (simp add: b_def request_in_buffer short_field.get_put)
  ultimately show ?thesis by (simp add: server_read_def split: option.split)
qed

section \<open>The messages of a read\<close>

lemma full_message:
  assumes "length d \<le> 4096"
  shows "read_message (int (length d)) fin d = Some (put_count (word_of_nat (length d)) @ put_count fin @ d)"
proof -
  let ?z = "zeros (4096 - length d)"
  have "store_at 8 d (zeros (2 * 4 + 4096)) = Some (zeros 8 @ d @ ?z)"
    using assms store_behind [of "zeros 8" 8 d 4096] by (simp flip: replicate_add)
  moreover have "store_at 0 (put_count c) (zeros 8 @ d @ ?z) = Some (put_count c @ zeros 4 @ d @ ?z)" for c
    by (simp add: store_at_def count_field.put_width)
  moreover have "store_at 4 (put_count fin) (put_count c @ zeros 4 @ d @ ?z) =
      Some (put_count c @ put_count fin @ d @ ?z)" for c
    by (simp add: store_at_def count_field.put_width)
  moreover have "nat (2 * 4 + int (length d)) = 8 + length d" by simp
  ultimately show ?thesis
    by (simp add: read_message_def count_field.put_width)
qed

lemma receive_message:
  assumes "arr k = Chunk (put_count (word_of_nat (length d)) @ put_count fin @ d)"
    and "length d \<le> 4096" and "length rd = 2 * 4 + 4096"
    and "length got + length d \<le> room" and "length got + length d < 2 ^ 31"
  shows "\<exists>rd'. length rd' = 2 * 4 + 4096 \<and>
    client_receive arr k room rd got =
      (if fin \<noteq> 0 then Some (Some (got @ d)) else client_receive arr (k + 1) room rd' (got @ d))"
proof -
  define b where "b = (put_count (word_of_nat (length d)) @ put_count fin @ d) @ drop (8 + length d) rd"
  have r: "recv_into 4104 (arr k) rd = Some b"
    using assms(1,2) by (simp add: b_def recv_into_def count_field.put_width)
  have c: "unat (get_count b) = length d"
    using assms(2) by (simp add: b_def count_field.get_put unat_of_nat)
  have f: "get_count (drop 4 b) = fin"
    using count_field.get_behind [of "put_count (word_of_nat (length d))" 4 fin "d @ drop (8 + length d) rd"]
    by (simp add: b_def count_field.put_width)
  have d: "take (length d) (drop 8 b) = d" by (simp add: b_def count_field.put_width)
  have l: "length b = 4104" using assms(2,3) by (simp add: b_def count_field.put_width)
  have "client_receive arr k room rd got =
      (if fin \<noteq> 0 then Some (Some (got @ d)) else client_receive arr (k + 1) room (zeros 8 @ drop 8 b) (got @ d))"
    using assms(2,4,5) by (subst client_receive.simps) (simp add: r Let_def c f d l)
  then show ?thesis using l by (intro exI [of _ "zeros 8 @ drop 8 b"]) simp
qed

text \<open>What a list of messages brings to a client that reads up to \<open>sz\<close> bytes and already has some.\<close>

definition delivers :: "nat \<Rightarrow> bytes list \<Rightarrow> bytes \<Rightarrow> bool" where
  "delivers sz ms data \<longleftrightarrow>
     (\<forall>arr k room rd got. (\<forall>i < length ms. arr (k + i) = Chunk (ms ! i)) \<longrightarrow> length rd = 2 * 4 + 4096 \<longrightarrow>
        length got + sz \<le> room \<longrightarrow> length got + sz < 2 ^ 31 \<longrightarrow> client_receive arr k room rd got = Some (Some (got @ data)))"

definition data_message :: "u16 \<Rightarrow> bytes \<Rightarrow> bytes" where
  "data_message fin d = put_count (word_of_nat (length d)) @ put_count fin @ d"

lemma delivers_last:
  assumes "length d \<le> 4096" and "length d \<le> sz"
  shows "delivers sz [data_message 1 d] d"
  unfolding delivers_def
proof (intro allI impI)
  fix arr :: "nat \<Rightarrow> arrival" and k room :: nat and rd got :: bytes
  assume a: "\<forall>i < length [data_message 1 d]. arr (k + i) = Chunk ([data_message 1 d] ! i)" "length rd = 2 * 4 + 4096"
    "length got + sz \<le> room" "length got + sz < 2 ^ 31"
  then have "arr k = Chunk (put_count (word_of_nat (length d)) @ put_count 1 @ d)" by (simp add: data_message_def)
  from receive_message [where arr = arr and k = k and d = d, OF this assms(1) a(2), of got room] a(3,4) assms(2)
  show "client_receive arr k room rd got = Some (Some (got @ d))" by (simp split: if_splits)
qed

lemma delivers_more:
  assumes "length d = 4096" and "4096 < sz" and ms: "delivers (sz - 4096) ms data"
  shows "delivers sz (data_message 0 d # ms) (d @ data)"
  unfolding delivers_def
proof (intro allI impI)
  fix arr :: "nat \<Rightarrow> arrival" and k room :: nat and rd got :: bytes
  assume a: "\<forall>i < length (data_message 0 d # ms). arr (k + i) = Chunk ((data_message 0 d # ms) ! i)"
    "length rd = 2 * 4 + 4096" "length got + sz \<le> room" "length got + sz < 2 ^ 31"
  from spec [OF a(1), of 0] have "arr k = Chunk (put_count (word_of_nat (length d)) @ put_count 0 @ d)"
    by (simp add: data_message_def)
  from receive_message [where arr = arr and k = k and d = d, OF this _ a(2), of got room] a(3,4) assms(1,2) obtain rd' where rd': "length rd' = 2 * 4 + 4096"
    "client_receive arr k room rd got = client_receive arr (k + 1) room rd' (got @ d)" by auto
  have "\<forall>i < length ms. arr (k + 1 + i) = Chunk (ms ! i)"
  proof (intro allI impI)
    fix i assume "i < length ms"
    then show "arr (k + 1 + i) = Chunk (ms ! i)" using spec [OF a(1), of "Suc i"] by simp
  qed
  moreover have "length (got @ d) + (sz - 4096) = length got + sz" using assms(1,2) by simp
  ultimately have "client_receive arr (k + 1) room rd' (got @ d) = Some (Some ((got @ d) @ data))"
    using ms a(3,4) rd'(1) unfolding delivers_def by metis
  then show "client_receive arr k room rd got = Some (Some (got @ d @ data))" using rd'(2) by simp
qed

text \<open>The server's loop and the client's loop, message by message.\<close>

lemma loops_agree:
  assumes "os_ok e content"
  shows "0 < sz \<Longrightarrow> 0 \<le> off \<Longrightarrow> \<exists>ms. server_read_loop e (Some fd) sz off fs = Some ms \<and>
    delivers sz ms (take sz (drop (nat off) (content fd fs)))"
proof (induction sz arbitrary: off rule: less_induct)
  case (less sz)
  define c where "c = drop (nat off) (content fd fs)"
  define d where "d = take (min sz 4096) c"
  have pr: "pread_call e (Some fd) n off fs = Some (take n c)" for n
    using assms less.prems(2) by (simp add: os_ok_def c_def)
  have len: "length d \<le> 4096" "length d \<le> sz" by (simp_all add: d_def)
  have msg: "read_message (int (length d)) fin d = Some (data_message fin d)" for fin
    unfolding data_message_def by (rule full_message [OF len(1)])
  show ?case
  proof (cases "sz > 4096 \<and> length d = 4096")
    case False
    then have whole: "take sz c = d" and part: "sz > 4096 \<Longrightarrow> take 4096 c = d \<and> length d < 4096"
      using len(1) by (auto simp: d_def min_def split: if_splits)
    have "server_read_loop e (Some fd) sz off fs = Some [data_message 1 d]"
      using whole part msg [of 1] pr [of 4096] pr [of sz] less.prems(1)
      by (subst server_read_loop.simps) (auto simp: read_result_def)
    with delivers_last [OF len] whole show ?thesis by (auto simp: c_def)
  next
    case True
    then have big: "4096 < sz" and ld: "length d = 4096" by simp_all
    then have d: "take 4096 c = d" and lc: "4096 \<le> length c" by (simp_all add: d_def min_def split: if_splits)
    have "length (content fd fs) < 2 ^ 63" using assms by (simp add: os_ok_def)
    then have b: "\<not> off + 4096 \<ge> 2 ^ 63" using lc less.prems(2) by (simp add: c_def)
    have "0 < sz - 4096" "sz - 4096 < sz" "0 \<le> off + 4096" using big less.prems by simp_all
    from less.IH [OF this(2,1,3)] obtain ms where ms: "server_read_loop e (Some fd) (sz - 4096) (off + 4096) fs = Some ms"
      "delivers (sz - 4096) ms (take (sz - 4096) (drop (nat (off + 4096)) (content fd fs)))" by blast
    have s: "server_read_loop e (Some fd) sz off fs = Some (data_message 0 d # ms)"
      using big pr [of 4096] d ld msg [of 0] ms(1) b by (subst server_read_loop.simps) (simp add: read_result_def)
    have "nat (off + 4096) = 4096 + nat off" using less.prems(2) by simp
    then have "drop (nat (off + 4096)) (content fd fs) = drop 4096 c" by (simp add: c_def)
    moreover have "d @ take (sz - 4096) (drop 4096 c) = take sz c"
      using take_add [of 4096 "sz - 4096" c] d big by simp
    ultimately show ?thesis using s delivers_more [OF ld big ms(2)] by (simp add: c_def)
  qed
qed

section \<open>Each call does what it means\<close>

definition implements :: "'fs os \<Rightarrow> (nat \<Rightarrow> 'fs \<Rightarrow> bytes) \<Rightarrow> call \<Rightarrow> 'fs \<Rightarrow> bool" where
  "implements e content c fs \<longleftrightarrow>
     wire_call e c fs = (Returns (fst (spec_call e content c fs)), snd (spec_call e content c fs))"

lemma os_gap: "os_ok e content \<Longrightarrow> behind e = []"
  by (simp add: os_ok_def)

lemma short_answer [simp]:
  "recv_into 2 (Chunk (put_short v)) buf = Some (put_short v @ drop 2 buf)"
  by (simp add: recv_into_def short_field.put_width)

lemma getattr_implements:
  assumes "os_ok e content" and "call_ok e (Getattr p) fs"
  shows "implements e content (Getattr p) fs"
proof -
  let ?st = "stat_call e (mount e @ p) fs"
  let ?m = "case ?st of None \<Rightarrow> put_short 0 @ zeros (sizeof_stat e) | Some st \<Rightarrow> put_short 1 @ st"
  have st: "\<And>st. ?st = Some st \<Longrightarrow> length st = sizeof_stat e" using assms(1) by (auto simp: os_ok_def)
  have "handle_request e (put_short 4 @ p) fs = Some ([?m], fs)"
    using serve_getattr [OF _ _ _ st] assms by (simp add: os_ok_def)
  moreover have "getattr_answer (sizeof_stat e) arr =
      (case ?st of None \<Rightarrow> Returns (- 2, zeros (sizeof_stat e)) | Some st \<Rightarrow> Returns (0, st))"
    if "arr 0 = Chunk ?m" for arr
    using that st
    by (cases ?st) (simp_all add: getattr_answer_def recv_into_def short_field.put_width short_field.get_put Let_def)
  moreover have "getattr_request p = Some (put_short 4 @ p)"
    using assms(2) by (intro getattr_bytes) (simp add: path_ok_def)
  ultimately show ?thesis
    using direct.one_message [of "handle_request e" "put_short 4 @ p" fs ?m fs "getattr_answer (sizeof_stat e)"]
    by (cases ?st) (simp_all add: implements_def client_getattr_def)
qed

lemma open_implements:
  assumes "os_ok e content" and "call_ok e (Open p flags) fs"
  shows "implements e content (Open p flags) fs"
proof -
  let ?r = "put_short 1 @ put_count (ucast flags) @ p" and ?o = "open_rdonly e (mount e @ p) fs"
  let ?m = "put_short (if ?o = None then 0 else 1)"
  have "handle_request e ?r fs = Some ([?m], fs)"
    using serve_open [of e p "ucast flags" fs] assms(2) os_gap [OF assms(1)] by simp
  moreover have "open_answer (sizeof_stat e) flags arr =
      Returns (if ?o = None then - 2 else if flags AND 3 \<noteq> 0 then - 13 else 0)"
    if "arr 0 = Chunk ?m" for arr
    using that by (simp add: open_answer_def short_field.get_put Let_def)
  moreover have "open_request flags p = Some ?r"
    using assms(2) by (intro open_bytes) (simp add: path_ok_def)
  ultimately show ?thesis
    using direct.one_message [of "handle_request e" ?r fs ?m fs "open_answer (sizeof_stat e) flags"]
    by (simp add: implements_def client_open_def)
qed

lemma truncate_implements:
  assumes "os_ok e content" and "call_ok e (Truncate p sz) fs"
  shows "implements e content (Truncate p sz) fs"
proof -
  let ?q = "take (length p - 4) p"
  let ?r = "put_short 3 @ put_size sz @ ?q" and ?fs = "snd (truncate_call e (mount e @ ?q) (sint sz) fs)"
  have "path_ok e 10 p" using assms(2) by simp
  moreover have "set ?q \<subseteq> set p" by (rule set_take_subset)
  ultimately have p: "path_ok e 10 ?q" unfolding path_ok_def by auto
  obtain ok where "handle_request e ?r fs = Some ([put_short (if ok then 0 else - 1)], ?fs)"
    using serve_truncate [OF p os_gap [OF assms(1)]] by blast
  moreover have "truncate_answer arr = Returns 0" if "arr 0 = Chunk (put_short v)" for arr v
  proof -
    have n: "int (unat w) \<noteq> - 1" for w :: u16 by linarith
    show ?thesis by (simp only: truncate_answer_def that short_answer option.case if_not_P [OF n])
  qed
  moreover have "truncate_request sz p = Some ?r"
    using assms(2) truncate_bytes [of p sz] by (simp add: path_ok_def short_field.put_width size_field.put_width)
  ultimately show ?thesis
    using direct.one_message [of "handle_request e" ?r fs "put_short (if ok then 0 else - 1)" ?fs truncate_answer]
    by (simp add: implements_def client_truncate_def)
qed

lemma read_implements:
  assumes "os_ok e content" and "call_ok e (Read p sz off) fs"
  shows "implements e content (Read p sz off) fs"
proof -
  let ?r = "put_short 5 @ put_size sz @ put_size off @ p"
  obtain fd where fd: "open_rdonly e (mount e @ p) fs = Some fd" using assms(2) by auto
  let ?c = "take (unat sz) (drop (nat (sint off)) (content fd fs))"
  obtain ms where ms: "server_read_loop e (Some fd) (unat sz) (sint off) fs = Some ms"
    "delivers (unat sz) ms ?c"
    using loops_agree [OF assms(1), of "unat sz" "sint off" fd fs] assms(2) by (auto simp del: of_nat_0_less_iff)
  have "handle_request e ?r fs = Some (ms, fs)"
    using serve_read [of e p sz off fs] assms(2) os_gap [OF assms(1)] fd ms(1) by simp
  moreover have "read_answer sz arr = Returns ?c"
    if "\<And>i. i < length ms \<Longrightarrow> arr i = Chunk (ms ! i)" for arr
  proof -
    have "client_receive arr 0 (unat sz) (zeros (2 * 4 + 4096)) [] = Some (Some ([] @ ?c))"
      using ms(2) [unfolded delivers_def, rule_format, of arr 0 "zeros (2 * 4 + 4096)" "[]" "unat sz"] that assms(2) by simp
    then show ?thesis by (simp add: read_answer_def)
  qed
  moreover have "read_request sz off p = Some ?r"
    using assms(2) by (intro read_bytes) (simp add: path_ok_def)
  ultimately show ?thesis
    using direct.all_messages [of "handle_request e" ?r fs ms fs "read_answer sz" "Returns ?c"] fd
    by (simp add: implements_def client_read_def)
qed

lemma call_implements: "os_ok e content \<Longrightarrow> call_ok e c fs \<Longrightarrow> implements e content c fs"
  using getattr_implements open_implements read_implements truncate_implements by (metis call.exhaust)

section \<open>Sessions\<close>

text \<open>A sequence of calls, each on the file system the one before has left.\<close>

fun wire_calls :: "'fs os \<Rightarrow> call list \<Rightarrow> 'fs \<Rightarrow> answer outcome list \<times> 'fs" where
  "wire_calls e [] fs = ([], fs)"
| "wire_calls e (c # cs) fs =
     (let (a, fs1) = wire_call e c fs; (as, fs2) = wire_calls e cs fs1 in (a # as, fs2))"

fun spec_calls :: "'fs os \<Rightarrow> (nat \<Rightarrow> 'fs \<Rightarrow> bytes) \<Rightarrow> call list \<Rightarrow> 'fs \<Rightarrow> answer list \<times> 'fs" where
  "spec_calls e content [] fs = ([], fs)"
| "spec_calls e content (c # cs) fs =
     (let (a, fs1) = spec_call e content c fs; (as, fs2) = spec_calls e content cs fs1 in (a # as, fs2))"

fun calls_ok :: "'fs os \<Rightarrow> (nat \<Rightarrow> 'fs \<Rightarrow> bytes) \<Rightarrow> call list \<Rightarrow> 'fs \<Rightarrow> bool" where
  "calls_ok e content [] fs \<longleftrightarrow> True"
| "calls_ok e content (c # cs) fs \<longleftrightarrow> call_ok e c fs \<and> calls_ok e content cs (snd (spec_call e content c fs))"

section \<open>Receiving from a dead connection\<close>

lemma receive_nothing:
  assumes "\<And>k. arr k = Failed \<or> arr k = Chunk []" and "take 8 rd = zeros 8"
  shows "client_receive arr k room rd [] = None"
proof (rule ccontr)
  assume "client_receive arr k room rd [] \<noteq> None"
  then obtain r where r: "client_receive arr k room rd [] = Some r" by blast
  let ?at = "\<lambda>a rd (got :: bytes). a = arr \<and> take 8 rd = zeros 8 \<and> got = []"
  have "?at arr rd [] \<longrightarrow> False"
  proof (rule client_receive.raw_induct [where P = "\<lambda>a k room rd got r. ?at a rd got \<longrightarrow> False", OF _ r])
    fix loop :: "(nat \<Rightarrow> arrival) \<Rightarrow> nat \<Rightarrow> nat \<Rightarrow> bytes \<Rightarrow> bytes \<Rightarrow> bytes option option"
      and a k room rd got r
    assume IH: "\<And>a k room rd got r. loop a k room rd got = Some r \<Longrightarrow> ?at a rd got \<longrightarrow> False"
      and eq: "(case recv_into (2 * 4 + 4096) (a k) rd of None \<Rightarrow> None
        | Some d \<Rightarrow> let rsize = unat (get_count d); fin = get_count (drop 4 d)
            in if 2 * 4 + rsize > length d \<or> length got + rsize > room \<or> length got + rsize \<ge> 2 ^ 31
               then Some None
               else if fin \<noteq> 0 then Some (Some (got @ take rsize (drop 8 d)))
               else loop a (k + 1) room (zeros 8 @ drop 8 d) (got @ take rsize (drop 8 d))) = Some r"
    show "?at a rd got \<longrightarrow> False"
    proof
      assume at: "?at a rd got"
      then have rd: "recv_into 4104 (arr k) rd = Some rd"
        using assms(1) [of k] by (auto simp: recv_into_def)
      obtain x where x: "rd = zeros 8 @ x" using at append_take_drop_id [of 8 rd] by metis
      have c: "get_count rd = 0" "get_count (drop 4 rd) = 0"
        by (simp_all add: x get_count_def get_int_def ntohs_def htons_def eval_nat_numeral)
      have "\<not> length rd < 8" using x by simp
      with eq at have "loop a (k + 1) room (zeros 8 @ drop 8 rd) got = Some r"
        by (simp add: rd Let_def c)
      from IH [OF this] at show False by simp
    qed
  qed
  with assms(2) show False by blast
qed

section \<open>Properties\<close>


text \<open>
  C33. Reading a file that cannot be opened destroys the client: \<^verbatim>\<open>pread\<close> on the bad descriptor gives -1, which
  travels as the length 65535, and the client copies that many bytes from its buffer of 4104.
\<close>

theorem read_missing_file_overruns:
  assumes "path_ok e 18 p" and "behind e = []" and "0 < unat sz"
    and "open_rdonly e (mount e @ p) fs = None" and "\<And>n off. pread_call e None n off fs = None"
  shows "client_read (direct_network (handle_request e)) p sz off fs = (Undefined, fs)"
proof -
  let ?r = "put_short 5 @ put_size sz @ put_size off @ p"
  let ?m = "take 7 (put_count (- 1) @ put_count 1)"
  have "store_at 8 [] (zeros (2 * 4 + 4096)) = Some (zeros (2 * 4 + 4096))"
    using replicate_add [of 8 4096 "0 :: byte"] by (simp add: store_at_def)
  moreover have "store_at 0 (put_count (- 1)) (zeros (2 * 4 + 4096)) = Some (put_count (- 1) @ zeros 4 @ zeros 4096)"
    using store_behind [of "[]" 0 "put_count (- 1)" "2 * 4 + 4096"] replicate_add [of 4 4096 "0 :: byte"]
    by (simp add: count_field.put_width)
  moreover have "store_at 4 (put_count 1) (put_count (- 1) @ zeros 4 @ zeros 4096) =
      Some ((put_count (- 1) @ put_count 1) @ zeros 4096)"
    by (simp add: store_at_def count_field.put_width)
  moreover have "take 7 ((put_count (- 1) @ put_count 1) @ x) = ?m" for x
    by (simp add: count_field.put_width)
  ultimately have "read_message (- 1) 1 [] = Some ?m" by (simp add: read_message_def count_field.put_width)
  then have "server_read_loop e None (unat sz) (sint off) fs = Some [?m]"
    using assms(3,5) by (subst server_read_loop.simps) (simp add: read_result_def)
  then have "handle_request e ?r fs = Some ([?m], fs)"
    using serve_read [OF assms(1,2), of sz off fs] assms(4) by simp
  moreover have "read_answer sz arr = Undefined" if a: "arr 0 = Chunk ?m" for arr
  proof -
    define b where "b = ?m @ drop 7 (zeros 4104)"
    have "recv_into 4104 (arr 0) (zeros 4104) = Some b"
      using a by (simp add: recv_into_def b_def count_field.put_width)
    moreover have "get_count b = - 1" using count_field.get_put [of "- 1"] by (simp add: b_def count_field.put_width)
    moreover have "length b = 4104" by (simp add: b_def count_field.put_width)
    moreover have "unat (- 1 :: u16) = 65535" by (simp add: unsigned_minus_1_eq_mask mask_eq_exp_minus_1)
    ultimately show ?thesis unfolding read_answer_def by (subst client_receive.simps) (simp add: Let_def)
  qed
  moreover have "read_request sz off p = Some ?r"
    using assms(1) by (intro read_bytes) (simp add: path_ok_def)
  ultimately show ?thesis
    using direct.one_message [of "handle_request e" ?r fs ?m fs "read_answer sz" Undefined]
    by (simp add: client_read_def)
qed

definition header_first :: "(bytes \<Rightarrow> 'w \<Rightarrow> (bytes list \<times> 'w) option) \<Rightarrow> 'w network" where
  "header_first handler req w =
     (case handler req w of
        None \<Rightarrow> None
      | Some (ms, w') \<Rightarrow> Some (deliver (concat (map (\<lambda>m. [take 8 m, drop 8 m]) ms)), w'))"

text \<open>
  C34. TCP may deliver a message in pieces, which \<^verbatim>\<open>client_read\<close> does not expect: when the header of a one-message
  answer arrives before the data, the client returns as many zeros as the file has bytes there.
\<close>

theorem split_delivery_returns_zeros:
  assumes "os_ok e content" and "call_ok e (Read p sz off) fs" and "unat sz \<le> 4096"
    and "open_rdonly e (mount e @ p) fs = Some fd"
  shows "client_read (header_first (handle_request e)) p sz off fs =
    (Returns (zeros (length (take (unat sz) (drop (nat (sint off)) (content fd fs))))), fs)"
proof -
  let ?r = "put_short 5 @ put_size sz @ put_size off @ p"
  define d where "d = take (unat sz) (drop (nat (sint off)) (content fd fs))"
  have l: "length d \<le> 4096" "length d \<le> unat sz" using assms(3) by (simp_all add: d_def)
  define h where "h = put_count (word_of_nat (length d)) @ put_count 1"
  have h: "length h = 8" by (simp add: h_def count_field.put_width)
  have "pread_call e (Some fd) (unat sz) (sint off) fs = Some d"
    using assms(1,2) by (simp add: os_ok_def d_def)
  moreover have "read_message (int (length d)) 1 d = Some (h @ d)"
    using full_message [OF l(1)] by (simp add: h_def)
  moreover have "unat sz \<noteq> 0" "\<not> unat sz > 4096" using assms(2,3) by simp_all
  ultimately have "server_read_loop e (Some fd) (unat sz) (sint off) fs = Some [h @ d]"
    by (subst server_read_loop.simps) (simp only: Let_def read_result_def option.case prod.case if_False)
  then have "handle_request e ?r fs = Some ([h @ d], fs)"
    using serve_read [of e p sz off fs] assms(2,4) os_gap [OF assms(1)] by simp
  moreover have "read_answer sz (deliver [h, d]) = Returns (zeros (length d))"
  proof -
    define b where "b = h @ zeros 4096"
    have "recv_into 4104 (deliver [h, d] 0) (zeros 4104) = Some b"
      using h by (simp add: recv_into_def deliver_def b_def)
    moreover have "unat (get_count b) = length d" "get_count (drop 4 b) = 1"
      using l(1) by (simp_all add: b_def h_def count_field.get_put count_field.put_width unat_of_nat)
    moreover have "length b = 4104" "take (length d) (drop 8 b) = zeros (length d)"
      using h l(1) by (simp_all add: b_def)
    moreover have "length d < 2 ^ 31" using l(1) by simp
    ultimately show ?thesis using l unfolding read_answer_def
      by (subst client_receive.simps) (simp add: Let_def)
  qed
  moreover have "read_request sz off p = Some ?r"
    using assms(2) by (intro read_bytes) (simp add: path_ok_def)
  ultimately show ?thesis using h
    by (simp add: client_read_def exchange_def header_first_def d_def [symmetric])
qed

text \<open>
  Without a server \<^verbatim>\<open>client_read\<close> never returns: every \<^verbatim>\<open>recv\<close> on a failed or closed connection leaves the
  header zero, which reads as an empty message that is not the last.
\<close>

theorem read_without_server_never_returns:
  assumes "\<And>k. arr k = Failed \<or> arr k = Chunk []" and "18 + length p < 1024"
  shows "client_read (\<lambda>req w. Some (arr, w)) p sz off w = (NoReturn, w)"
proof -
  have "client_receive arr 0 (unat sz) (zeros (2 * 4 + 4096)) [] = None"
    by (rule receive_nothing) (use assms(1) in simp_all)
  moreover have "read_request sz off p = Some (put_short 5 @ put_size sz @ put_size off @ p)"
    using assms(2) by (intro read_bytes) simp
  ultimately show ?thesis by (simp add: client_read_def exchange_def read_answer_def)
qed


text \<open>
  The block for the path has no room for its terminating 0: a handler with a path of 8 bytes or more
  works on the path followed by whatever stands behind the block; shorter ones are saved by the
  \<^verbatim>\<open>bzero\<close> of 8 bytes.
\<close>

theorem path_without_terminator:
  assumes "path_ok e 2 p" and "0 \<notin> set (behind e)" and "0 < m"
  shows "server_path True e 2 (put_short v @ p @ zeros m) =
    Some (if length (mount e @ p) < 8 then mount e @ p else mount e @ p @ behind e)"
proof -
  have nz: "\<forall>b \<in> set (mount e @ p). b \<noteq> 0" "\<forall>b \<in> set (behind e). b \<noteq> 0"
    using assms(1,2) unfolding path_ok_def by (metis UnE set_append, metis)
  have "takeWhile (\<lambda>b. b \<noteq> 0) (behind e) = behind e" using nz(2) by (simp add: takeWhile_eq_all_conv)
  moreover have "takeWhile (\<lambda>b. b \<noteq> 0) (mount e @ p @ x) = mount e @ p @ takeWhile (\<lambda>b. b \<noteq> 0) x" for x
    using takeWhile_append2 [of "mount e @ p" "\<lambda>b. b \<noteq> 0" x] nz(1) by simp
  moreover have "takeWhile (\<lambda>b. b \<noteq> 0) (zeros (Suc i) @ x) = []" for i x by simp
  ultimately have "block_string True (mount e @ p) (behind e) =
      (if length (mount e @ p) < 8 then mount e @ p else mount e @ p @ behind e)"
    by (cases "8 - length (mount e @ p)") (auto simp: block_string_def)
  then show ?thesis
    using full_path [OF assms(1), of "put_short v" m True] assms(3) by (simp add: short_field.put_width)
qed

section \<open>A concrete server\<close>

text \<open>Two files, \<^verbatim>\<open>/m/a.txt\<close> and \<^verbatim>\<open>/m/a\<close>, under the mount point \<^verbatim>\<open>/m\<close>; the file system is their contents.\<close>

definition a_txt :: bytes where "a_txt = [47, 97, 46, 116, 120, 116]"

definition two_contents :: "nat \<Rightarrow> bytes \<times> bytes \<Rightarrow> bytes" where
  "two_contents fd fs = take 10000 (if fd = 3 then fst fs else snd fs)"

definition two_files :: "(bytes \<times> bytes) os" where
  "two_files = \<lparr>mount = [47, 109], behind = [], sizeof_stat = 8,
     stat_call = (\<lambda>q fs. if q = [47, 109] @ a_txt then Some (put_size (word_of_nat (length (fst fs)))) else None),
     open_rdonly = (\<lambda>q fs. if q = [47, 109] @ a_txt then Some 3 else if q = [47, 109, 47, 97] then Some 4 else None),
     pread_call = (\<lambda>file n off fs. case file of None \<Rightarrow> None
       | Some fd \<Rightarrow> if off < 0 then None else Some (take n (drop (nat off) (two_contents fd fs)))),
     truncate_call = (\<lambda>q n fs. if q = [47, 109] @ a_txt then (True, (take (nat n) (fst fs), snd fs))
       else if q = [47, 109, 47, 97] then (True, (fst fs, take (nat n) (snd fs))) else (False, fs))\<rparr>"

lemma two_files_ok: "os_ok two_files two_contents"
  by (auto simp: os_ok_def two_files_def two_contents_def size_field.put_width)

lemma two_files_path: "k \<le> 18 \<Longrightarrow> path_ok two_files k a_txt"
  by (simp add: path_ok_def two_files_def a_txt_def)


theorem read_missing_file_overruns_witness:
  "client_read (direct_network (handle_request two_files)) [47, 98] 4096 0 ([1], [2]) = (Undefined, ([1], [2]))"
  by (rule read_missing_file_overruns) (simp_all add: path_ok_def two_files_def a_txt_def)

theorem split_delivery_returns_zeros_witness:
  "client_read (header_first (handle_request two_files)) a_txt 4096 0 ([1, 2, 3], []) = (Returns [0, 0, 0], ([1, 2, 3], []))"
proof -
  let ?fs = "([1, 2, 3], []) :: bytes \<times> bytes"
  have "call_ok two_files (Read a_txt 4096 0) ?fs"
    by (simp add: two_files_path) (simp add: two_files_def a_txt_def)
  moreover have "open_rdonly two_files (mount two_files @ a_txt) ?fs = Some 3" by (simp add: two_files_def)
  ultimately show ?thesis
    using split_delivery_returns_zeros [OF two_files_ok, of a_txt 4096 0 ?fs 3]
    by (simp add: two_contents_def numeral_3_eq_3)
qed

theorem read_without_server_never_returns_witness:
  "client_read (\<lambda>req w. Some (\<lambda>_. Failed, w)) a_txt 4096 0 () = (NoReturn, ())"
  by (rule read_without_server_never_returns) (simp_all add: a_txt_def)


theorem path_without_terminator_witness:
  "server_path True (two_files\<lparr>behind := [33]\<rparr>) 2 (put_short 4 @ a_txt @ zeros 100) = Some [47, 109, 47, 97, 46, 116, 120, 116, 33]"
  using path_without_terminator [of "two_files\<lparr>behind := [33]\<rparr>" a_txt 100 4]
  by (simp add: path_ok_def two_files_def a_txt_def)

end
