(* ===== verification/Server_Threads.thy ===== *)
theory Server_Threads
  imports Wire
begin

text \<open>
  How \<^verbatim>\<open>Project_3/server.c\<close> and \<^verbatim>\<open>client.c\<close> open their sockets, and the chain of request threads: \<^verbatim>\<open>main\<close>
  creates the first thread with a pointer to its own \<^verbatim>\<open>listenfd\<close>; a thread reads the descriptor through
  the pointer it was given, accepts one connection, creates the next thread with a pointer to its own
  copy, serves its connection and returns. The calls of the system are parameters or events.
\<close>

section \<open>Sockets\<close>

text \<open>The results of the calls: descriptors and codes as C ints, negative on failure.\<close>

record sockets =
  socket_call :: int
  setsockopt_call :: "int \<Rightarrow> int"
  bind_call :: "int \<Rightarrow> u16 \<Rightarrow> int"
  listen_call :: "int \<Rightarrow> int"
  host_known :: bool
  connect_call :: "int \<Rightarrow> u16 \<Rightarrow> int"

definition open_listenfd :: "sockets \<Rightarrow> u32 \<Rightarrow> int" where
  "open_listenfd e port =
     (let fd = socket_call e
      in if fd < 0 then - 1
         else if setsockopt_call e fd < 0 then - 1
         else if bind_call e fd (htons (ucast port)) < 0 then - 1
         else if listen_call e fd < 0 then - 1
         else fd)"

definition open_clientfd :: "sockets \<Rightarrow> u32 \<Rightarrow> int" where
  "open_clientfd e port =
     (let fd = socket_call e
      in if fd < 0 then - 1
         else if \<not> host_known e then - 2
         else if connect_call e fd (htons (ucast port)) < 0 then - 1
         else fd)"

text \<open>The variables \<^verbatim>\<open>port\<close> of the two \<^verbatim>\<open>main\<close> functions.\<close>

definition server_port :: u32 where "server_port = 8801"

definition client_port :: u32 where "client_port = 8801"

text \<open>\<^verbatim>\<open>sprintf(mount, "%s", argv[1])\<close>: the argument and a 0, into 1024 bytes.\<close>

definition set_mount :: "bytes \<Rightarrow> bytes option" where
  "set_mount argv1 = store_at 0 (argv1 @ [0]) (zeros 1024)"

section \<open>The threads\<close>

text \<open>Whose variable \<^verbatim>\<open>listenfd\<close> the argument points to.\<close>

datatype fd_pointer = MainFd | ThreadFd nat

text \<open>
  A request thread: created, with its argument; at \<^verbatim>\<open>accept\<close>; at \<^verbatim>\<open>pthread_create\<close>; receiving and
  answering; returned; or behind a read through a pointer into the stack of a thread that had returned.
  The integers are its \<^verbatim>\<open>listenfd\<close> and its \<^verbatim>\<open>connfd\<close>.
\<close>

datatype request_pc =
    Created fd_pointer | Accepting int | Creating int int | Serving int int | Returned | Dangling

record server =
  listenfd :: int
  main_paused :: bool
  requests :: "request_pc list"
  connections :: nat

definition server_init :: "sockets \<Rightarrow> server" where
  "server_init e =
     \<lparr>listenfd = open_listenfd e server_port, main_paused = False, requests = [], connections = 0\<rparr>"

text \<open>The variable behind the pointer; it is gone when its thread has returned.\<close>

definition fd_behind :: "server \<Rightarrow> fd_pointer \<Rightarrow> int option" where
  "fd_behind s p =
     (case p of
        MainFd \<Rightarrow> Some (listenfd s)
      | ThreadFd j \<Rightarrow>
          (if j < length (requests s)
           then (case requests s ! j of
                   Accepting fd \<Rightarrow> Some fd | Creating fd _ \<Rightarrow> Some fd | Serving fd _ \<Rightarrow> Some fd | _ \<Rightarrow> None)
           else None))"

text \<open>
  The events: \<^verbatim>\<open>main\<close> calls \<^verbatim>\<open>pthread_create\<close>, which works or fails; thread \<open>i\<close> reads its argument, gets
  the result \<open>c\<close> of \<^verbatim>\<open>accept\<close>, calls \<^verbatim>\<open>pthread_create\<close>, returns from its handler.
\<close>

datatype server_event = Start bool | ReadArg nat | Accept nat int | Create nat bool | Return nat

definition request_goto :: "nat \<Rightarrow> request_pc \<Rightarrow> server \<Rightarrow> server" where
  "request_goto i pc s = s\<lparr>requests := (requests s)[i := pc]\<rparr>"

text \<open>
  \<^verbatim>\<open>accept\<close> fails on a bad descriptor and when the process has \<open>L\<close> connections open; no code closes one.
  The handlers themselves are the functions of \<^verbatim>\<open>File_Server\<close>.
\<close>

definition request_step :: "nat \<Rightarrow> server_event \<Rightarrow> request_pc \<Rightarrow> server \<Rightarrow> server option" where
  "request_step L ev pc s =
     (case (ev, pc) of
        (ReadArg i, Created p) \<Rightarrow>
          Some (request_goto i (case fd_behind s p of None \<Rightarrow> Dangling | Some fd \<Rightarrow> Accepting fd) s)
      | (Accept i c, Accepting fd) \<Rightarrow>
          if c < 0 then Some (request_goto i (Creating fd c) s)
          else if fd < 0 \<or> L \<le> connections s then None
          else Some (request_goto i (Creating fd c) (s\<lparr>connections := connections s + 1\<rparr>))
      | (Create i ok, Creating fd c) \<Rightarrow>
          (let s' = request_goto i (Serving fd c) s
           in Some (if ok then s'\<lparr>requests := requests s' @ [Created (ThreadFd i)]\<rparr> else s'))
      | (Return i, Serving fd c) \<Rightarrow> Some (request_goto i Returned s)
      | _ \<Rightarrow> None)"

fun event_thread :: "server_event \<Rightarrow> nat" where
  "event_thread (Start _) = 0"
| "event_thread (ReadArg i) = i"
| "event_thread (Accept i _) = i"
| "event_thread (Create i _) = i"
| "event_thread (Return i) = i"

definition server_step :: "nat \<Rightarrow> server_event \<Rightarrow> server \<Rightarrow> server option" where
  "server_step L ev s =
     (case ev of
        Start ok \<Rightarrow>
          if main_paused s then None
          else Some (s\<lparr>main_paused := True, requests := (if ok then [Created MainFd] else [])\<rparr>)
      | _ \<Rightarrow>
          if event_thread ev < length (requests s)
          then request_step L ev (requests s ! event_thread ev) s else None)"

definition server_run :: "nat \<Rightarrow> server_event list \<Rightarrow> server \<Rightarrow> server option" where
  "server_run L = runs (server_step L)"

lemma server_run_simps [simp]:
  "server_run L [] s = Some s"
  "server_run L (ev # evs) s = do { s' \<leftarrow> server_step L ev s; server_run L evs s' }"
  by (simp_all add: server_run_def)

lemma server_run_append:
  "server_run L (evs @ evs') s = do { s' \<leftarrow> server_run L evs s; server_run L evs' s' }"
  by (simp add: server_run_def runs_append)

section \<open>The invariant\<close>

text \<open>A thread that has not yet created its successor.\<close>

fun pending :: "request_pc \<Rightarrow> bool" where
  "pending (Created _) = True"
| "pending (Accepting _) = True"
| "pending (Creating _ _) = True"
| "pending _ = False"

text \<open>The threads in front are all past it, and only the last one can be pending.\<close>

fun request_ok :: "server \<Rightarrow> nat \<Rightarrow> request_pc \<Rightarrow> bool" where
  "request_ok s i (Created MainFd) \<longleftrightarrow> i = 0"
| "request_ok s i (Created (ThreadFd j)) \<longleftrightarrow> i = Suc j"
| "request_ok s i (Accepting fd) \<longleftrightarrow> fd = listenfd s"
| "request_ok s i (Creating fd c) \<longleftrightarrow> fd = listenfd s"
| "request_ok s i (Serving fd c) \<longleftrightarrow> fd = listenfd s"
| "request_ok s i _ \<longleftrightarrow> True"

definition server_inv :: "server \<Rightarrow> bool" where
  "server_inv s \<longleftrightarrow>
     (\<not> main_paused s \<longrightarrow> requests s = []) \<and>
     (\<forall>i<length (requests s). request_ok s i (requests s ! i) \<and>
        (Suc i < length (requests s) \<longrightarrow> \<not> pending (requests s ! i) \<and> requests s ! i \<noteq> Dangling))"

lemma server_inv_init: "server_inv (server_init e)"
  by (simp add: server_inv_def server_init_def)

lemma request_goto_simps [simp]:
  "requests (request_goto i pc s) = (requests s)[i := pc]" "listenfd (request_goto i pc s) = listenfd s"
  "main_paused (request_goto i pc s) = main_paused s" "connections (request_goto i pc s) = connections s"
  by (simp_all add: request_goto_def)

lemma request_ok_cong: "listenfd s' = listenfd s \<Longrightarrow> request_ok s' i pc = request_ok s i pc"
  by (induction s i pc rule: request_ok.induct) simp_all

text \<open>The pointer of a pending thread leads to the descriptor of \<^verbatim>\<open>main\<close> or to a returned thread.\<close>

lemma fd_behind_created:
  assumes v: "server_inv s" and i: "i < length (requests s)" and p: "requests s ! i = Created p"
  shows "fd_behind s p = (case p of MainFd \<Rightarrow> Some (listenfd s)
    | ThreadFd j \<Rightarrow> if requests s ! j = Returned then None else Some (listenfd s))"
proof (cases p)
  case MainFd
  then show ?thesis by (simp add: fd_behind_def)
next
  case (ThreadFd j)
  have "request_ok s i (requests s ! i)" using v i by (simp add: server_inv_def)
  then have ij: "i = Suc j" using ThreadFd p by simp
  then have j: "j < length (requests s)" "Suc j < length (requests s)" using i by simp_all
  then have "request_ok s j (requests s ! j)" "\<not> pending (requests s ! j)" "requests s ! j \<noteq> Dangling"
    using v by (simp_all add: server_inv_def)
  then show ?thesis using ThreadFd j by (cases "requests s ! j") (simp_all add: fd_behind_def)
qed

text \<open>One thread moves to another place; a pending one is the last of the list.\<close>

lemma server_inv_goto:
  assumes v: "server_inv s" and i: "i < length (requests s)" and ok: "request_ok s i pc"
    and l: "Suc i < length (requests s) \<Longrightarrow> \<not> pending pc \<and> pc \<noteq> Dangling"
    and s': "requests s' = (requests s)[i := pc]" "listenfd s' = listenfd s" "main_paused s' = main_paused s"
  shows "server_inv s'"
  using v i ok l unfolding server_inv_def s' request_ok_cong [OF s'(2)]
  by (auto simp: nth_list_update)

lemma pending_last:
  "server_inv s \<Longrightarrow> i < length (requests s) \<Longrightarrow> pending (requests s ! i) \<Longrightarrow> length (requests s) = Suc i"
  unfolding server_inv_def by (metis Suc_lessI)

lemma server_inv_next:
  assumes v: "server_inv s" and l: "length (requests s) = Suc i" and n: "requests s ! i = Serving fd c"
  shows "server_inv (s\<lparr>requests := requests s @ [Created (ThreadFd i)]\<rparr>)"
proof -
  let ?s = "s\<lparr>requests := requests s @ [Created (ThreadFd i)]\<rparr>"
  have "request_ok ?s k pc = request_ok s k pc" for k pc by (rule request_ok_cong) simp
  moreover have "k < Suc i \<Longrightarrow> \<not> pending (requests s ! k) \<and> requests s ! k \<noteq> Dangling" for k
    using v l n unfolding server_inv_def by (cases "k = i") auto
  moreover have "main_paused s" using v l unfolding server_inv_def by auto
  ultimately show ?thesis using v l unfolding server_inv_def by (auto simp: nth_append less_Suc_eq)
qed

lemma request_step_inv:
  assumes v: "server_inv s" and i: "event_thread ev < length (requests s)"
    and st: "request_step L ev (requests s ! event_thread ev) s = Some s'"
  shows "server_inv s' \<and> listenfd s' = listenfd s"
proof -
  let ?i = "event_thread ev"
  have ok: "request_ok s ?i (requests s ! ?i)" using v i by (simp add: server_inv_def)
  have last: "pending (requests s ! ?i) \<Longrightarrow> length (requests s) = Suc ?i" using pending_last [OF v i] .
  note goto = server_inv_goto [OF v i]
  show ?thesis
  proof (cases ev)
    case (ReadArg j)
    with st obtain p where p: "requests s ! ?i = Created p"
      and s': "s' = request_goto ?i (case fd_behind s p of None \<Rightarrow> Dangling | Some fd \<Rightarrow> Accepting fd) s"
      by (auto simp: request_step_def split: request_pc.splits)
    have "server_inv s'"
      using last p fd_behind_created [OF v i p]
      by (intro goto) (auto simp: s' split: fd_pointer.splits)
    then show ?thesis by (simp add: s')
  next
    case (Accept j c)
    with st obtain fd where p: "requests s ! ?i = Accepting fd"
      and s': "s' = request_goto ?i (Creating fd c) s \<or>
        s' = request_goto ?i (Creating fd c) (s\<lparr>connections := connections s + 1\<rparr>)"
      by (auto simp: request_step_def split: request_pc.splits if_splits)
    have "server_inv s'" using last p ok s' by (intro goto [of "Creating fd c"]) auto
    then show ?thesis using s' by auto
  next
    case (Create j ok')
    with st obtain fd c where p: "requests s ! ?i = Creating fd c"
      and s': "s' = (let t = request_goto ?i (Serving fd c) s
        in if ok' then t\<lparr>requests := requests t @ [Created (ThreadFd ?i)]\<rparr> else t)"
      by (auto simp: request_step_def Let_def split: request_pc.splits)
    have "server_inv (request_goto ?i (Serving fd c) s)" using p ok by (intro goto [of "Serving fd c"]) auto
    from this server_inv_next [OF this, of ?i fd c] have "server_inv s'" using last p i by (auto simp: s' Let_def)
    then show ?thesis by (simp add: s' Let_def)
  next
    case (Return j)
    with st have s': "s' = request_goto ?i Returned s"
      by (auto simp: request_step_def split: request_pc.splits)
    have "server_inv s'" by (intro goto [of Returned]) (auto simp: s')
    then show ?thesis by (simp add: s')
  qed (use st in \<open>simp add: request_step_def split: request_pc.splits\<close>)
qed

lemma server_inv_step:
  assumes v: "server_inv s" and st: "server_step L ev s = Some s'"
  shows "server_inv s' \<and> listenfd s' = listenfd s"
proof (cases "\<exists>ok. ev = Start ok")
  case True
  with v st show ?thesis by (auto simp: server_step_def server_inv_def split: if_splits)
next
  case False
  with st have "event_thread ev < length (requests s)" "request_step L ev (requests s ! event_thread ev) s = Some s'"
    by (auto simp: server_step_def split: server_event.splits if_splits)
  with request_step_inv [OF v] show ?thesis by blast
qed

lemma server_inv_run:
  assumes "server_run L evs s = Some s'" and "server_inv s"
  shows "server_inv s' \<and> listenfd s' = listenfd s"
  by (rule runs_invariant [where I = "\<lambda>t. server_inv t \<and> listenfd t = listenfd s"])
    (use assms server_inv_step in \<open>auto simp: server_run_def\<close>)

section \<open>Connections and successors\<close>

fun accepts :: "server_event \<Rightarrow> bool" where
  "accepts (Accept _ c) \<longleftrightarrow> 0 \<le> c"
| "accepts _ \<longleftrightarrow> False"

lemma connections_step:
  assumes "server_step L ev s = Some s'"
  shows "connections s' = connections s + of_bool (accepts ev)" and "accepts ev \<Longrightarrow> connections s < L"
  using assms
  by (cases ev; auto simp: server_step_def request_step_def Let_def split: request_pc.splits if_splits)+

lemma connections_run:
  "server_run L evs s = Some s' \<Longrightarrow> connections s' = connections s + length (filter accepts evs) \<and>
   (connections s \<le> L \<longrightarrow> connections s' \<le> L)"
proof (induction evs arbitrary: s)
  case Nil
  then show ?case by simp
next
  case (Cons ev evs)
  from Cons.prems obtain u where u: "server_step L ev s = Some u" "server_run L evs u = Some s'"
    by (auto split: Option.bind_splits)
  from connections_step [OF u(1)] Cons.IH [OF u(2)] show ?case by (cases "accepts ev") auto
qed

text \<open>Without a pending thread there never is one again.\<close>

definition deaf :: "server \<Rightarrow> bool" where
  "deaf s \<longleftrightarrow> main_paused s \<and> list_all (\<lambda>pc. \<not> pending pc) (requests s)"

lemma deaf_step:
  assumes d: "deaf s" and st: "server_step L ev s = Some s'"
  shows "deaf s' \<and> (\<exists>i. ev = Return i)"
proof (cases "\<exists>ok. ev = Start ok")
  case True
  with d st show ?thesis by (auto simp: server_step_def deaf_def)
next
  case False
  let ?i = "event_thread ev"
  from st False have i: "?i < length (requests s)" and r: "request_step L ev (requests s ! ?i) s = Some s'"
    by (auto simp: server_step_def split: server_event.splits if_splits)
  have "\<not> pending (requests s ! ?i)" using d i by (simp add: deaf_def list_all_length)
  with r have "ev = Return ?i \<and> s' = request_goto ?i Returned s"
    by (cases ev) (auto simp: request_step_def split: request_pc.splits)
  then show ?thesis using d i by (auto simp: deaf_def list_all_length nth_list_update)
qed

lemma deaf_run: "server_run L evs s = Some s' \<Longrightarrow> deaf s \<Longrightarrow> filter accepts evs = []"
proof (induction evs arbitrary: s)
  case Nil
  then show ?case by simp
next
  case (Cons ev evs)
  from Cons.prems(1) obtain u where u: "server_step L ev s = Some u" "server_run L evs u = Some s'"
    by (auto split: Option.bind_splits)
  from deaf_step [OF Cons.prems(2) u(1)] Cons.IH [OF u(2)] show ?case by auto
qed

section \<open>Properties\<close>

text \<open>
  C20. At any time at most one request thread has yet to accept its connection or to create its
  successor, it is the newest one, and every other thread serves or has returned: connections are
  accepted one after the other, on the descriptor of \<^verbatim>\<open>main\<close>, while any number of them is served.
\<close>

theorem server_one_acceptor:
  assumes "server_run L evs (server_init e) = Some s" and "i < length (requests s)"
  shows "(pending (requests s ! i) \<longrightarrow> Suc i = length (requests s)) \<and>
         (\<forall>fd. requests s ! i = Accepting fd \<longrightarrow> fd = open_listenfd e server_port)"
proof -
  have v: "server_inv s" "listenfd s = open_listenfd e server_port"
    using server_inv_run [OF assms(1) server_inv_init] by (simp_all add: server_init_def)
  have "request_ok s i (requests s ! i)" using v(1) assms(2) by (simp add: server_inv_def)
  then show ?thesis using pending_last [OF v(1) assms(2)] v(2) by auto
qed

text \<open>
  C19. A thread that starts to run reads the descriptor if its creator is still serving, and reads from
  a stack that is gone if its creator has returned; nothing in the program orders the two.
\<close>

theorem server_argument_race:
  assumes "server_run L evs (server_init e) = Some s"
    and "requests s = older @ [pc, Created (ThreadFd i)]"
  shows "server_step L (ReadArg (Suc i)) s =
      Some (s\<lparr>requests := older @ [pc, if pc = Returned then Dangling else Accepting (open_listenfd e server_port)]\<rparr>) \<and>
    ((\<exists>fd c. pc = Serving fd c) \<longrightarrow>
      server_run L [Return i, ReadArg (Suc i)] s = Some (s\<lparr>requests := older @ [Returned, Dangling]\<rparr>))"
proof -
  have v: "server_inv s" "listenfd s = open_listenfd e server_port"
    using server_inv_run [OF assms(1) server_inv_init] by (simp_all add: server_init_def)
  let ?k = "length older"
  have "request_ok s (Suc ?k) (requests s ! Suc ?k)"
    using v(1) assms(2) by (simp add: server_inv_def)
  then have k: "i = ?k" using assms(2) by (simp add: nth_append)
  have read: "server_step L (ReadArg (Suc i)) t =
      Some (t\<lparr>requests := older @ [pc', if pc' = Returned then Dangling else Accepting (listenfd t)]\<rparr>)"
    if "server_inv t" "requests t = older @ [pc', Created (ThreadFd i)]" for t pc'
    using fd_behind_created [OF that(1), of "Suc i" "ThreadFd i"] that(2) k
    by (simp add: server_step_def request_step_def request_goto_def nth_append list_update_append)
  have "server_run L [Return i, ReadArg (Suc i)] s = Some (s\<lparr>requests := older @ [Returned, Dangling]\<rparr>)"
    if pc: "pc = Serving fd c" for fd c
  proof -
    let ?t = "s\<lparr>requests := older @ [Returned, Created (ThreadFd i)]\<rparr>"
    have ret: "server_step L (Return i) s = Some ?t"
      using assms(2) k pc
      by (simp add: server_step_def request_step_def request_goto_def nth_append list_update_append)
    have "server_inv ?t" using server_inv_step [OF v(1) ret] by simp
    from read [OF this] ret show ?thesis by simp
  qed
  then show ?thesis using read [OF v(1) assms(2)] v(2) by auto
qed

text \<open>
  C39. The server accepts at most as many connections as a process may have open, in its whole life:
  no thread closes the connection it has served.
\<close>

theorem server_accepts_bounded:
  assumes "server_run L evs (server_init e) = Some s"
  shows "length (filter accepts evs) \<le> L"
  using connections_run [OF assms] by (simp add: server_init_def)

text \<open>
  If \<^verbatim>\<open>pthread_create\<close> fails once, which the code does not check, the server never accepts again.
\<close>

theorem server_deaf_after_failed_create:
  assumes "server_run L (evs @ Create i False # evs') (server_init e) = Some s"
  shows "filter accepts evs' = []"
proof -
  obtain u t where u: "server_run L evs (server_init e) = Some u" and t: "server_step L (Create i False) u = Some t"
    and r: "server_run L evs' t = Some s"
    using assms by (auto simp: server_run_append split: Option.bind_splits)
  have v: "server_inv u" using server_inv_run [OF u server_inv_init] by simp
  from t obtain fd c where i: "i < length (requests u)" and pc: "requests u ! i = Creating fd c"
    and t': "t = request_goto i (Serving fd c) u"
    by (auto simp: server_step_def request_step_def split: request_pc.splits if_splits)
  have "main_paused u" using v i by (auto simp: server_inv_def)
  moreover have "\<not> pending ((requests u)[i := Serving fd c] ! k)" if "k < length (requests u)" for k
    using pending_last [OF v that] pending_last [OF v i] pc that i by (cases "k = i") auto
  ultimately have "deaf t" by (simp add: deaf_def t' list_all_length)
  with deaf_run [OF r] show ?thesis .
qed

section \<open>Concrete runs\<close>

definition sample_sockets :: sockets where
  "sample_sockets =
     \<lparr>socket_call = 3, setsockopt_call = (\<lambda>_. 0), bind_call = (\<lambda>_ _. 0), listen_call = (\<lambda>_. 0),
      host_known = True, connect_call = (\<lambda>_ _. 0)\<rparr>"

definition sample_events :: "server_event list" where
  "sample_events = [Start True, ReadArg 0, Accept 0 4, Create 0 True]"

lemma sample_requests:
  "map_option (\<lambda>s. (requests s, connections s)) (server_run 2 sample_events (server_init sample_sockets)) =
   Some ([Serving 3 4, Created (ThreadFd 0)], 1)"
  by code_simp

lemma sample_run:
  "\<exists>s. server_run 2 sample_events (server_init sample_sockets) = Some s \<and>
       requests s = [Serving 3 4, Created (ThreadFd 0)]"
  using sample_requests by auto

theorem server_one_acceptor_witness:
  "\<exists>s. server_run 2 sample_events (server_init sample_sockets) = Some s \<and> pending (requests s ! 1) \<and>
       Suc 1 = length (requests s)"
proof -
  obtain s where s: "server_run 2 sample_events (server_init sample_sockets) = Some s"
    "requests s = [Serving 3 4, Created (ThreadFd 0)]" using sample_run by blast
  then have "pending (requests s ! 1)" "1 < length (requests s)" by simp_all
  with server_one_acceptor [OF s(1), of 1] s show ?thesis by blast
qed

theorem server_argument_race_witness:
  "map_option requests (server_run 2 (sample_events @ [Return 0, ReadArg 1]) (server_init sample_sockets)) =
   Some [Returned, Dangling]"
proof -
  obtain s where s: "server_run 2 sample_events (server_init sample_sockets) = Some s"
    "requests s = [] @ [Serving 3 4, Created (ThreadFd 0)]" using sample_run by auto
  from server_argument_race [OF s]
  have "server_run 2 [Return 0, ReadArg (Suc 0)] s = Some (s\<lparr>requests := [Returned, Dangling]\<rparr>)" by simp
  then show ?thesis unfolding server_run_append s(1) by simp
qed

theorem server_accepts_bounded_witness:
  "length (filter accepts sample_events) \<le> 2"
proof -
  obtain s where "server_run 2 sample_events (server_init sample_sockets) = Some s" using sample_run by blast
  then show ?thesis by (rule server_accepts_bounded)
qed

lemma sample_deaf:
  "map_option requests (server_run 2 ([Start True, ReadArg 0, Accept 0 4] @ Create 0 False # [Return 0])
     (server_init sample_sockets)) = Some [Returned]"
  by code_simp

theorem server_deaf_after_failed_create_witness:
  "filter accepts [Return 0] = []"
proof -
  obtain s where "server_run 2 ([Start True, ReadArg 0, Accept 0 4] @ Create 0 False # [Return 0])
     (server_init sample_sockets) = Some s" using sample_deaf by auto
  then show ?thesis by (rule server_deaf_after_failed_create)
qed

end
