(* ===== verification/Hello_Files.thy ===== *)
theory Hello_Files
  imports File_Client
begin

text \<open>
  The example file system of \<^verbatim>\<open>Project_3/hello.c\<close>, which \<^verbatim>\<open>network.c\<close> repeats under other names and from
  which \<^verbatim>\<open>client_readdir\<close> is taken: one directory with one file that can only be read.
\<close>

definition hello_str :: bytes where
  "hello_str = ascii (''Hello World!'' @ [CHR 0x0A])"

definition hello_path :: bytes where
  "hello_path = ascii ''/hello''"

record stat_fields =
  st_mode :: u32
  st_nlink :: nat
  st_size :: int

abbreviation (input) S_IFDIR :: u32 where "S_IFDIR \<equiv> 0x4000"
abbreviation (input) S_IFREG :: u32 where "S_IFREG \<equiv> 0x8000"

definition hello_getattr :: "bytes \<Rightarrow> int \<times> stat_fields" where
  "hello_getattr path =
     (let stbuf = \<lparr>st_mode = 0, st_nlink = 0, st_size = 0\<rparr>
      in if path = ascii ''/'' then (0, stbuf\<lparr>st_mode := S_IFDIR OR 0x1ED, st_nlink := 2\<rparr>)
         else if path = hello_path
         then (0, stbuf\<lparr>st_mode := S_IFREG OR 0x124, st_nlink := 1, st_size := int (length hello_str)\<rparr>)
         else (ENOENT_result, stbuf))"

definition hello_readdir :: "bytes \<Rightarrow> int \<times> bytes list" where
  "hello_readdir path =
     (if path \<noteq> ascii ''/'' then (ENOENT_result, [])
      else (0, [ascii ''.'', ascii ''..'', drop 1 hello_path]))"

definition hello_open :: "bytes \<Rightarrow> u32 \<Rightarrow> int" where
  "hello_open path flags =
     (if path \<noteq> hello_path then ENOENT_result
      else if flags AND 3 \<noteq> 0 then EACCES_result
      else 0)"

text \<open>
  \<^verbatim>\<open>offset\<close> and \<^verbatim>\<open>size\<close> are compared as unsigned 64-bit numbers and their sum wraps; \<^term>\<open>None\<close> is a copy from
  behind the string and its terminating 0.
\<close>

definition hello_read :: "bytes \<Rightarrow> u64 \<Rightarrow> u64 \<Rightarrow> (int \<times> bytes) option" where
  "hello_read path sz offset =
     (let len = word_of_nat (length hello_str)
      in if path \<noteq> hello_path then Some (ENOENT_result, [])
         else if offset < len
         then (let sz1 = (if offset + sz > len then len - offset else sz)
               in if unat offset + unat sz1 \<le> length hello_str + 1
                  then Some (sint (ucast sz1 :: u32), take (unat sz1) (drop (unat offset) (hello_str @ [0])))
                  else None)
         else Some (0, []))"

lemma length_hello: "length hello_str = 13"
  by (simp add: hello_str_def ascii_def)

lemma unat_add_small: "unat (x :: u64) + unat y < 2 ^ 64 \<Longrightarrow> unat (x + y) = unat x + unat y"
  using unat_word_ariths(1) [of x y] by simp

lemma sint_small:
  assumes "unat (x :: u64) \<le> 13"
  shows "sint (ucast x :: u32) = int (unat x)"
proof -
  have small: "\<forall>n \<in> set [0..<14]. sint (ucast (word_of_nat n :: u64) :: u32) = int n"
    by (simp add: upt_rec)
  have "unat x \<in> set [0..<14]" using assms by simp
  moreover have "word_of_nat (unat x) = x" by simp
  ultimately show ?thesis using bspec [OF small, of "unat x"] by argo
qed

lemma read_slice:
  assumes "unat offset + unat sz < 2 ^ 64"
  shows "hello_read hello_path sz offset =
    (let bs = take (unat sz) (drop (unat offset) hello_str) in Some (int (length bs), bs))"
proof (cases "unat offset < 13")
  case True
  define L where "L = (word_of_nat (length hello_str) :: u64)"
  have len: "unat L = 13" by (simp add: L_def length_hello)
  have off: "offset < L" using True by (simp add: word_less_nat_alt len)
  have sum: "unat (offset + sz) = unat offset + unat sz" by (rule unat_add_small [OF assms])
  define sz1 where "sz1 = (if offset + sz > L then L - offset else sz)"
  have n: "unat sz1 = min (unat sz) (13 - unat offset)"
    using True sum by (auto simp: sz1_def word_less_nat_alt len unat_sub_if' min_def)
  then have s: "sint (ucast sz1 :: u32) = int (unat sz1)" by (intro sint_small) simp
  have "hello_read hello_path sz offset =
      Some (sint (ucast sz1 :: u32), take (unat sz1) (drop (unat offset) (hello_str @ [0])))"
    unfolding hello_read_def Let_def L_def [symmetric] sz1_def [symmetric]
    using True n off by (simp add: length_hello)
  moreover have "take (unat sz1) (drop (unat offset) (hello_str @ [0])) = take (unat sz) (drop (unat offset) hello_str)"
    using True n by (simp add: length_hello min_def)
  ultimately show ?thesis using s n by (simp add: length_hello Let_def)
next
  case False
  then have "\<not> offset < word_of_nat (length hello_str)" by (simp add: word_less_nat_alt length_hello)
  with False show ?thesis by (simp add: hello_read_def length_hello)
qed

section \<open>Properties\<close>

text \<open>
  Reading the example file gives exactly the bytes of \<^verbatim>\<open>hello_str\<close> at the offset, as many as asked for
  and left, and returns their number; nothing is read behind the string, also not for a negative
  offset, as long as offset and size do not wrap around.
\<close>

theorem hello_read_slice:
  assumes "unat offset + unat sz < 2 ^ 64"
  shows "hello_read hello_path sz offset =
    (let bs = take (unat sz) (drop (unat offset) hello_str) in Some (int (length bs), bs))"
  by (rule read_slice [OF assms])

text \<open>
  C36. The operations agree with each other: the paths with attributes are the directory and the entries it
  lists, the size that \<^verbatim>\<open>getattr\<close> reports is the number of bytes a large read returns, and exactly
  the listed files can be opened for reading.
\<close>

theorem hello_views_agree:
  "(fst (hello_getattr p) = 0 \<longleftrightarrow>
      p = ascii ''/'' \<or> (\<exists>name. name \<in> set (drop 2 (snd (hello_readdir (ascii ''/'')))) \<and> p = ascii ''/'' @ name)) \<and>
   (hello_open p 0 = 0 \<longleftrightarrow> fst (hello_getattr p) = 0 \<and> p \<noteq> ascii ''/'') \<and>
   hello_read hello_path 4096 0 = Some (st_size (snd (hello_getattr hello_path)), hello_str)"
proof -
  have names: "drop 2 (snd (hello_readdir (ascii ''/''))) = [drop 1 hello_path]"
    by (simp add: hello_readdir_def)
  have path: "ascii ''/'' @ drop 1 hello_path = hello_path" "hello_path \<noteq> ascii ''/''"
    by (simp_all add: hello_path_def ascii_def)
  have "hello_read hello_path 4096 0 = Some (int (length hello_str), hello_str)"
    using read_slice [of 0 4096] by (simp add: length_hello Let_def)
  moreover have "fst (hello_getattr p) = 0 \<longleftrightarrow> p = ascii ''/'' \<or> p = hello_path"
    by (simp add: hello_getattr_def Let_def)
  moreover have "hello_open p 0 = 0 \<longleftrightarrow> p = hello_path" by (simp add: hello_open_def)
  moreover have "st_size (snd (hello_getattr hello_path)) = int (length hello_str)"
    using path(2) by (simp add: hello_getattr_def Let_def)
  ultimately show ?thesis using path unfolding names by auto
qed

theorem hello_read_slice_witness:
  "hello_read hello_path 100 6 = Some (7, ascii (''World!'' @ [CHR 0x0A]))"
  using hello_read_slice [of 6 100] by (simp add: hello_str_def ascii_def)

end
