(* ===== verification/Spec2Isabelle.thy ===== *)
theory Spec2Isabelle
  imports Wtc Thread_Bag_Progress Draft_File Draft_Threads Wtc_Output Flip_File Sched_Fields Sched_Admin Sched_Show File_Access Server_Threads Hello_Files
begin

text \<open>
  \<^bold>\<open>The repository\<close> holds three programs of an operating systems course. Sizes and widths are those of
  64-bit Linux on x86 for the user programs and of i386 for the kernel file.

  \<^enum> \<^verbatim>\<open>Project_1/Stuff\<close>: \<^verbatim>\<open>wtc\<close> reads a directed graph from a text file and prints its transitive closure
    (Warshall), by one of four concurrent programs: threads or processes, with a fixed share of the rows or
    columns each, or with a bag of tasks.
  \<^enum> \<^verbatim>\<open>Project_2/stuff/sched.c\<close>: the scheduler of Linux 2.4 with a new \<^verbatim>\<open>schedule()\<close> that is to share the
    processor fairly between users, and a double share for \<^verbatim>\<open>super\<close> processes.
  \<^enum> \<^verbatim>\<open>Project_3\<close>: a file server and a FUSE client that talk over TCP, and the example file system the
    client started from.

  \<^bold>\<open>Shared\<close>. \<open>Prelude\<close>: C types, bits of words, semaphores counted against their holders, runs of a schedule, and two
  locales on step relations: \<^verbatim>\<open>simulation\<close> (one program refines another) and \<^verbatim>\<open>ending\<close> (every run ends).

  \<^bold>\<open>Closure programs\<close>. \<open>Bit_Array\<close> is \<^verbatim>\<open>bit_char.c\<close>, with the laws of an array as a locale.
  \<open>Closure\<close> has rounds of Warshall's algorithm on abstract graphs, in which the cells of a round may be done in any
  order and interleaved, and the locale \<^verbatim>\<open>edge_store\<close>: what a matrix must offer to such a round.
  \<open>Matrix_Cells\<close> has the index arithmetic and interprets \<^verbatim>\<open>edge_store\<close> for the bit matrix and the matrix of ints.
  \<open>Thread_Closure\<close> (\<^verbatim>\<open>wtc_thr.c\<close>, \<^verbatim>\<open>globals.c\<close>), \<open>Proc_Closure\<close> (\<^verbatim>\<open>wtc_proc.c\<close>), \<open>Proc_Bag\<close> (\<^verbatim>\<open>wtc_btproc.c\<close>) and
  \<open>Thread_Bag\<close> (\<^verbatim>\<open>wtc_btthr.c\<close>) are step relations: a program counter for each thread or process, one step for
  what happens between two accesses to shared data, a step of all for a barrier. Each has an invariant that
  ties the matrix to the rounds of \<open>Closure\<close>, one lemma per kind of step, and a measure that every step
  decreases. They show that every interleaving ends, and in the transitive closure, exactly where that is
  so: for \<open>Proc_Bag\<close> always, for the two with fixed shares when the number of workers divides that of the nodes, and for
  \<open>Thread_Bag\<close>, whose queue starts at the constant 10, never below 10 nodes and only for the first eleven rows above 11:
  \<open>Thread_Bag_Closure\<close> has its rounds, in which a row can be processed twice, and \<open>Thread_Bag_Progress\<close> its termination and
  the worker that goes on without a row, which two workers make possible and one alone does not.
  \<open>Flip_Barrier\<close> is \<^verbatim>\<open>wtc_proc_test.c\<close>, the first version of \<^verbatim>\<open>wtc_proc.c\<close> with a barrier made of counters, semaphores and a flag:
  it refines \<open>Proc_Closure\<close>, the write of the flag being the step of all, and so has its result; \<open>Flip_Progress\<close> shows that the
  polling never makes the end unreachable; \<open>Flip_File\<close> has its arguments and the matrices it prints.
  \<open>Graph_Text\<close> has C streams, \<^verbatim>\<open>fscanf\<close>, the text of a graph and the locale \<^verbatim>\<open>edge_reader\<close>, the contract of a
  reading loop; \<open>Graph_File\<close> (\<^verbatim>\<open>functions.c\<close>) and \<open>Proc_File\<close> (the reading and printing of the process programs)
  interpret it, and so does \<open>Draft_File\<close> (\<^verbatim>\<open>functions2.c\<close>), whose matrix is never cleared.
  \<open>Draft_Threads\<close> is \<^verbatim>\<open>wtc.thr.bitpack.c\<close>, the first version of \<^verbatim>\<open>wtc_thr.c\<close> (and \<^verbatim>\<open>char_test.c\<close>), with the older \<^verbatim>\<open>bit_array_set\<close>
  they call, which the repository does not have, as a parameter: it goes through the same states.
  \<open>Proc_Rerun\<close> has the shared memory object of \<^verbatim>\<open>wtc_btproc.c\<close> from one run to the
  next. \<open>Wtc\<close> is \<^verbatim>\<open>main\<close>. \<open>Wtc_Output\<close> is what the options with processes write: the locale \<^verbatim>\<open>forked_output\<close> has the
  buffers that \<^verbatim>\<open>fork\<close> copies, and both programs interpret it. With no workers \<^verbatim>\<open>wtc_thr\<close> and \<^verbatim>\<open>wtc_proc\<close> divide by zero. This theory joins the parts: from the text of the file to the text that is printed.

  \<^bold>\<open>Scheduler\<close>. \<open>Sched_State\<close>: tasks, users, run queue (locale \<^verbatim>\<open>run_queue\<close>), and the parameter \<open>kernel\<close> for what the headers
  provide. \<open>Sched_Choose\<close>: the choice of the next process, fair among the processes of root and unfair to all
  others; \<open>Sched_Fields\<close>: it depends on two fields of a task only. \<open>Sched_Switch\<close>: the switch and the counts
  of address spaces. \<open>Sched_Wakeup\<close>: \<^verbatim>\<open>goodness\<close>, \<^verbatim>\<open>reschedule_idle\<close>, wait queues. \<open>Sched_Wait\<close>: completions as
  a step relation of any number of waiting tasks, and \<^verbatim>\<open>sleep_on\<close>. \<open>Sched_Calls\<close>: the system calls. \<open>Sched_Admin\<close>: affinity,
  start of the system, kernel threads. \<open>Sched_Show\<close>: the task listing. Spin locks and interrupt masking make the guarded code one step.

  \<^bold>\<open>File service\<close>. \<open>Wire\<close>: memory images, byte order, bounded buffers, C strings, and the locale \<^verbatim>\<open>wire_field\<close>
  interpreted on every field of a message. \<open>File_Server\<close> and \<open>File_Client\<close>: the handlers and the operations,
  with the operating system and the network as parameters; the locale \<^verbatim>\<open>transport\<close> is what the client relies on.
  \<open>File_Access\<close> composes them: sessions refine a specification on the files, and what goes wrong without the
  conditions of that theorem. \<open>Server_Threads\<close>: the sockets and the chain of request threads, each of which accepts one
  connection and creates the next, as events on the list of threads. \<open>Hello_Files\<close>: \<^verbatim>\<open>hello.c\<close>.

  \<^bold>\<open>Conventions\<close>. An access outside an object, a signed overflow and a variable without a value are the value
  \<^term>\<open>None\<close> (or \<open>Undefined\<close>, or a fault state); a loop that need not end is a \<^verbatim>\<open>partial_function\<close> whose
  \<^term>\<open>None\<close> is not returning. There is no fuel. Theorems whose statement needs conditions have a concrete instance,
  \<open>_witness\<close>, at the end of their theory.

  \<^bold>\<open>Not modelled\<close>. Time measurement, error messages, \<^verbatim>\<open>mmap\<close>, \<^verbatim>\<open>free\<close>; the \<^verbatim>\<open>main\<close> of the client,
  which only calls FUSE; the uncalled \<^verbatim>\<open>print_matrix\<close> of
  \<^verbatim>\<open>wtc.thr.bitpack.c\<close>; \<^verbatim>\<open>network.c\<close>, the text of \<^verbatim>\<open>hello.c\<close> under other
  names; and the directory \<^verbatim>\<open>OS_Project1\<close>, a copy of the files beside it.
\<close>

section \<open>Properties that span components\<close>

text \<open>
  C6. From the graph file to the printed matrix: for every well-formed graph text whose number of threads
  is positive and divides the number of nodes, option 2 of \<^verbatim>\<open>wtc\<close> reads the file, and whatever the
  interleaving of its threads, when they are done the text it prints is the adjacency matrix of the
  transitive closure of the edges in the file.
\<close>

theorem wtc_threads_print_closure:
  assumes "fopen f = Some (graph_text nt n es w)" and "\<forall>e \<in> set es. edge_wf n e" and "blank w"
    and "nt < 2 ^ 31" and "n * n < 2 ^ 31" and "es \<noteq> [] \<or> w = []" and "0 < nt" and "nt dvd n"
    and "wtc_main argv = RunThreads f"
  shows "\<exists>m. read_file fopen f = Some (ReadOk m (int nt) (int n)) \<and>
    (\<forall>s. (thr_step \<lparr>number_of_threads = nt, number_of_nodes = n\<rparr>)\<^sup>*\<^sup>* (thr_init m) s \<longrightarrow> t_main s = MDone \<longrightarrow>
         print_matrix (t_matrix s) (int n) = Some (matrix_text n (path_closure n (has_edge es))))"
proof -
  let ?c = "\<lparr>number_of_threads = nt, number_of_nodes = n\<rparr>"
  obtain m where m: "read_file fopen f = Some (ReadOk m (int nt) (int n))" "bit_fits n m"
    and e: "agree n (bit_edge n m) (has_edge es)"
    using graph_file_read [of fopen f nt n es w] assms(1-6) by blast
  have "print_matrix (t_matrix s) (int n) = Some (matrix_text n (path_closure n (has_edge es)))"
    if r: "(thr_step ?c)\<^sup>*\<^sup>* (thr_init m) s" and d: "t_main s = MDone" for s
  proof -
    have i: "thr_inv ?c (bit_edge n m) s" using thr_inv_reachable [OF r] m(2) by simp
    then have fit: "bit_fits n (t_matrix s)" by (simp add: thr_inv_def)
    have "agree n (thr_graph ?c (bit_edge n m) n) (bit_edge n (t_matrix s))" using done_graph [OF i d] by simp
    moreover have "covers n (thr_cells ?c)" using cells_covered [of ?c] assms(8) by simp
    ultimately have "agree n (bit_edge n (t_matrix s)) (path_closure n (bit_edge n m))"
      using wrounds_closure [of n "thr_cells ?c"] by (simp add: agree_def thr_graph_def)
    then have "agree n (bit_edge n (t_matrix s)) (path_closure n (has_edge es))"
      using path_closure_cong [OF e] by simp
    from matrix_text_cong [OF this] matrix_printed [OF fit] show ?thesis by simp
  qed
  with m(1) show ?thesis by blast
qed

lemma sample_closure: "i < 2 \<Longrightarrow> j < 2 \<Longrightarrow> path_closure 2 (has_edge sample_edges) i j"
proof -
  let ?R = "{(a, b). a < 2 \<and> b < 2 \<and> has_edge sample_edges a b}"
  have "(0, 1) \<in> ?R" "(1, 0) \<in> ?R" by (simp_all add: has_edge_def sample_edges_def)
  then have "(0, 1) \<in> ?R\<^sup>+" "(1, 0) \<in> ?R\<^sup>+" "(0, 0) \<in> ?R\<^sup>+" "(1, 1) \<in> ?R\<^sup>+"
    by (blast intro: trancl_into_trancl)+
  moreover assume "i < 2" "j < 2"
  ultimately show ?thesis by (auto simp: path_closure_def less_2_cases_iff)
qed

theorem wtc_threads_print_closure_witness:
  "\<exists>m s. read_file (\<lambda>_. Some (graph_text 2 2 sample_edges [CHR 0x0A])) ''g'' = Some (ReadOk m 2 2) \<and>
     (thr_step sample_cfg)\<^sup>*\<^sup>* (thr_init m) s \<and> t_main s = MDone \<and>
     print_matrix (t_matrix s) 2 = Some (''1 1 '' @ [CHR 0x0A] @ ''1 1 '' @ [CHR 0x0A])"
proof -
  let ?fopen = "\<lambda>_. Some (graph_text 2 2 sample_edges [CHR 0x0A])"
  have w: "blank [CHR 0x0A]" "sample_edges \<noteq> []" "wtc_main [''wtc'', ''2'', ''g''] = RunThreads ''g''"
    by (simp add: blank_def is_space_def, simp add: sample_edges_def, code_simp)
  from wtc_threads_print_closure [of ?fopen "''g''" 2 2 sample_edges "[CHR 0x0A]" "[''wtc'', ''2'', ''g'']"]
  obtain m where m: "read_file ?fopen ''g'' = Some (ReadOk m 2 2)"
    "\<And>s. (thr_step sample_cfg)\<^sup>*\<^sup>* (thr_init m) s \<Longrightarrow> t_main s = MDone \<Longrightarrow>
         print_matrix (t_matrix s) 2 = Some (matrix_text 2 (path_closure 2 (has_edge sample_edges)))"
    using sample_edges_wf w by (auto simp: sample_cfg_def)
  have "bit_fits 2 m"
    using graph_file_read [of ?fopen "''g''" 2 2 sample_edges "[CHR 0x0A]"] sample_edges_wf w m(1) by auto
  then obtain s where "(thr_step sample_cfg)\<^sup>*\<^sup>* (thr_init m) s" "t_main s = MDone"
    using thr_end_reachable [of sample_cfg m] by (auto simp: sample_cfg_def)
  moreover have "matrix_text 2 (path_closure 2 (has_edge sample_edges)) = ''1 1 '' @ [CHR 0x0A] @ ''1 1 '' @ [CHR 0x0A]"
    by (simp add: matrix_text_def sample_closure upt_rec)
  ultimately show ?thesis using m by metis
qed

text \<open>The matrix in a new shared memory object, and what the parent prints of the result.\<close>

lemma fresh_input:
  assumes "fopen f = Some (graph_text nt n es w)" and "\<forall>e \<in> set es. edge_wf n e" and "blank w"
    and "nt < 2 ^ 31" and "n * n < 2 ^ 31" and "es \<noteq> [] \<or> w = []" and seg: "segment (int n) = replicate (n * n) 0"
  shows "\<exists>m. proc_input fopen f segment = Some (Some (int nt, int n, m)) \<and> int_fits n m \<and> zero_one m \<and>
    agree n (int_edge n m) (has_edge es)"
proof -
  have "length (segment (int n)) = n * n" "zero_one (segment (int n))" using seg by simp_all
  then obtain m where m: "proc_input fopen f segment = Some (Some (int nt, int n, m))" "int_fits n m" "zero_one m"
    and "agree n (int_edge n m) (\<lambda>i j. int_edge n (segment (int n)) i j \<or> has_edge es i j)"
    using proc_input_object [of fopen f nt n es w segment] assms(1-6) by blast
  moreover have "\<not> int_edge n (segment (int n)) i j" if "i < n" "j < n" for i j
    using seg index_less [OF that] by (simp add: int_edge_def)
  ultimately show ?thesis by (auto simp: agree_def)
qed



text \<open>
  C7. The same for option 3, with the processes that share a bag of columns: for any positive number of
  processes, dividing the number of nodes or not, and a new shared memory object, what \<^verbatim>\<open>wtc\<close> prints
  at the end is the adjacency matrix of the transitive closure of the edges in the file.
\<close>

theorem wtc_bag_prints_closure:
  assumes "fopen f = Some (graph_text nt n es w)" and "\<forall>e \<in> set es. edge_wf n e" and "blank w"
    and "nt < 2 ^ 31" and "n * n < 2 ^ 31" and "es \<noteq> [] \<or> w = []" and "0 < nt"
    and "wtc_main argv = RunBagProcesses f" and "segment (int n) = replicate (n * n) 0"
  shows "\<exists>m. proc_input fopen f segment = Some (Some (int nt, int n, m)) \<and>
    (\<forall>s. (bag_step n nt)\<^sup>*\<^sup>* (initShm n m) s \<longrightarrow> b_parent s = QDone \<longrightarrow>
         print_matrix2 (b_matrix s) (int n) = Some (matrix_text n (path_closure n (has_edge es))))"
proof -
  obtain m where m: "proc_input fopen f segment = Some (Some (int nt, int n, m))" "int_fits n m" "zero_one m"
    and e: "agree n (int_edge n m) (has_edge es)"
    using fresh_input [of fopen f nt n es w segment] assms(1-6,9) by blast
  from bag_prints [OF _ _ m(2,3) assms(7) e]
  show ?thesis using m(1) by blast
qed

theorem wtc_bag_prints_closure_witness:
  "\<exists>s. (bag_step 2 3)\<^sup>*\<^sup>* (initShm 2 [0, 1, 1, 0]) s \<and> b_parent s = QDone \<and>
     proc_input (\<lambda>_. Some (graph_text 3 2 sample_edges [CHR 0x0A])) ''g'' (\<lambda>n. replicate (nat (n * n)) 0) =
       Some (Some (3, 2, [0, 1, 1, 0])) \<and>
     print_matrix2 (b_matrix s) 2 = Some (''1 1 '' @ [CHR 0x0A] @ ''1 1 '' @ [CHR 0x0A])"
proof -
  let ?fopen = "\<lambda>_. Some (graph_text 3 2 sample_edges [CHR 0x0A])" and ?seg = "\<lambda>n. replicate (nat (n * n)) 0"
  have w: "blank [CHR 0x0A]" "sample_edges \<noteq> []" "wtc_main [''wtc'', ''3'', ''g''] = RunBagProcesses ''g''"
    by (simp add: blank_def is_space_def, simp add: sample_edges_def, code_simp)
  have m: "proc_input ?fopen ''g'' ?seg = Some (Some (3, 2, [0, 1, 1, 0]))" by code_simp
  obtain s where s: "(bag_step 2 3)\<^sup>*\<^sup>* (initShm 2 [0, 1, 1, 0]) s" "b_parent s = QDone"
    using bag_sample_reached by blast
  have "int 2 * int 2 = 4" "replicate (2 * 2) (0 :: int) = replicate (nat (int 2 * int 2)) 0" by simp_all
  with wtc_bag_prints_closure [of ?fopen "''g''" 3 2 sample_edges "[CHR 0x0A]" "[''wtc'', ''3'', ''g'']" ?seg]
  have "print_matrix2 (b_matrix s) 2 = Some (matrix_text 2 (path_closure 2 (has_edge sample_edges)))"
    using sample_edges_wf w m s by auto
  moreover have "matrix_text 2 (path_closure 2 (has_edge sample_edges)) = ''1 1 '' @ [CHR 0x0A] @ ''1 1 '' @ [CHR 0x0A]"
    by (simp add: matrix_text_def sample_closure upt_rec)
  ultimately show ?thesis using m s by metis
qed



text \<open>
  C10. Option 4, with the threads that share a bag of rows, from the graph file to the printed text, for at least 11
  nodes and at least one thread: when the program gets to its end, it prints the Warshall rounds over the first
  eleven rows only, which is the transitive closure of the edges in the file for exactly 11 nodes. It does
  get there with a single thread.
\<close>

theorem wtc_bag_threads_print:
  assumes "fopen f = Some (graph_text nt n es w)" and "\<forall>e \<in> set es. edge_wf n e" and "blank w"
    and "nt < 2 ^ 31" and "n * n < 2 ^ 31" and "es \<noteq> [] \<or> w = []" and "0 < nt" and "11 \<le> n"
    and "wtc_main argv = RunBagThreads f"
  shows "\<exists>m. read_file fopen f = Some (ReadOk m (int nt) (int n)) \<and>
    (\<forall>s. (btt_step n nt)\<^sup>*\<^sup>* (btt_init n m) s \<longrightarrow> q_main s = FDone \<longrightarrow>
         print_matrix (q_matrix s) (int n) = Some (matrix_text n (wrounds bag_rows n (has_edge es))) \<and>
         (n = 11 \<longrightarrow> print_matrix (q_matrix s) (int n) = Some (matrix_text n (path_closure n (has_edge es))))) \<and>
    (nt = 1 \<longrightarrow> (\<exists>s. (btt_step n nt)\<^sup>*\<^sup>* (btt_init n m) s \<and> q_main s = FDone))"
proof -
  obtain m where m: "read_file fopen f = Some (ReadOk m (int nt) (int n))" "bit_fits n m"
    and e: "agree n (bit_edge n m) (has_edge es)"
    using graph_file_read [of fopen f nt n es w] assms(1-6) by blast
  have g: "agree n (wrounds bag_rows n (bit_edge n m)) (wrounds bag_rows n (has_edge es))"
    using wrounds_cong [OF e] by blast
  have "print_matrix (q_matrix s) (int n) = Some (matrix_text n (wrounds bag_rows n (has_edge es)))"
    if r: "(btt_step n nt)\<^sup>*\<^sup>* (btt_init n m) s" and d: "q_main s = FDone" for s
    using btt_rounds_done [OF r m(2) assms(8,7) d] matrix_printed matrix_text_cong agree_trans [OF _ g] by metis
  moreover have "matrix_text n (wrounds bag_rows n (has_edge es)) = matrix_text n (path_closure n (has_edge es))" if "n = 11"
    using matrix_text_cong eleven_rounds that by blast
  moreover have "\<exists>s. (btt_step n nt)\<^sup>*\<^sup>* (btt_init n m) s \<and> q_main s = FDone" if "nt = 1"
    using lone_can_end [OF _ m(2) assms(8)] that by blast
  ultimately show ?thesis using m(1) by auto
qed

theorem wtc_bag_threads_print_witness:
  "\<exists>m s. read_file (\<lambda>_. Some (graph_text 1 11 sample_edges [CHR 0x0A])) ''g'' = Some (ReadOk m 1 11) \<and>
     (btt_step 11 1)\<^sup>*\<^sup>* (btt_init 11 m) s \<and> q_main s = FDone \<and>
     print_matrix (q_matrix s) 11 = Some (matrix_text 11 (path_closure 11 (has_edge sample_edges)))"
proof -
  let ?fopen = "\<lambda>_. Some (graph_text 1 11 sample_edges [CHR 0x0A])"
  have w: "blank [CHR 0x0A]" "sample_edges \<noteq> []" "wtc_main [''wtc'', ''4'', ''g''] = RunBagThreads ''g''"
    by (simp add: blank_def is_space_def, simp add: sample_edges_def, code_simp)
  have "\<forall>e \<in> set sample_edges. edge_wf 11 e"
    by (auto simp: sample_edges_def edge_wf_def blank_def is_space_def)
  with wtc_bag_threads_print [of ?fopen "''g''" 1 11 sample_edges "[CHR 0x0A]" "[''wtc'', ''4'', ''g'']"] w
  obtain m where "read_file ?fopen ''g'' = Some (ReadOk m 1 11)" "\<exists>s. (btt_step 11 1)\<^sup>*\<^sup>* (btt_init 11 m) s \<and> q_main s = FDone"
    "\<And>s. (btt_step 11 1)\<^sup>*\<^sup>* (btt_init 11 m) s \<Longrightarrow> q_main s = FDone \<Longrightarrow>
       print_matrix (q_matrix s) 11 = Some (matrix_text 11 (path_closure 11 (has_edge sample_edges)))"
    by auto
  then show ?thesis by metis
qed

section \<open>No workers\<close>

lemma proc_alone:
  assumes "threadCount c = 0"
  shows "\<exists>s. (proc_step c)\<^sup>*\<^sup>* (proc_init m) s \<and> p_parent s = PDivZero"
    and "(proc_step c)\<^sup>*\<^sup>* (proc_init m) s \<Longrightarrow> p_parent s \<noteq> PDone"
proof -
  have "parent_step c Forked (proc_init m) = Some ((proc_init m)\<lparr>p_parent := PDivZero\<rparr>)"
    using assms by (simp add: parent_step_def proc_init_def)
  from proc_step.parent [OF this]
  show "\<exists>s. (proc_step c)\<^sup>*\<^sup>* (proc_init m) s \<and> p_parent s = PDivZero"
    by (intro exI conjI, rule r_into_rtranclp) auto
qed (use assms proc_divided_reachable [of c m s] in \<open>auto simp: proc_divided_def\<close>)

lemma bag_alone:
  assumes "(bag_step n 0)\<^sup>*\<^sup>* (initShm n m) s"
  shows "b_matrix s = m"
  using assms
proof (induction rule: rtranclp_induct)
  case (step u v)
  from step.hyps(2) have "b_matrix v = b_matrix u"
    by cases (auto simp: bag_parent_step_def bag_barrier_step_def split: bag_parent.splits fork_result.splits if_splits)
  then show ?case using step.IH by simp
qed (simp add: initShm_def)

lemma btt_alone:
  assumes "(btt_step n 0)\<^sup>*\<^sup>* (btt_init n m) s"
  shows "q_matrix s = m"
  using assms
proof (induction rule: rtranclp_induct)
  case (step u v)
  from step.hyps(2) have "q_matrix v = q_matrix u"
    by cases (auto simp: filler_step_def btt_barrier_step_def Let_def split: filler_pc.splits if_splits)
  then show ?case using step.IH by simp
qed (simp add: btt_init_def)



end
